(* ===== verification/KVS_Prelude.thy ===== *)
theory KVS_Prelude
  imports Main "HOL-Library.Char_ord" "HOL-Library.List_Lexorder" "HOL-Library.Word"
begin

text \<open>
  Shared material of the development: C strings and \<open>strcmp\<close>, C integers
  (\<open>int\<close>, \<open>long long\<close>, signed \<open>char\<close>, truncating remainder), the expiry test
  that every storage engine repeats, and generic lemmas on \<open>find\<close> over index
  ranges, which is how a C \<open>for\<close> loop that returns at its first hit is written
  throughout.

  A value of type \<^typ>\<open>string\<close> that stands for a \<open>char *\<close> holds the bytes
  before the terminating NUL; a possibly-NULL pointer is a \<open>string option\<close>.
  The outcome of the memory allocator is a parameter: \<open>mok i\<close> says whether the
  \<open>i\<close>-th call of \<open>kvs_malloc\<close> inside one operation succeeds.
\<close>

named_theorems loop_simps \<open>characterisations of search loops\<close>
named_theorems time_simps \<open>expiry and time-to-live\<close>

type_synonym cptr = "string option"
type_synonym mallocs = "nat \<Rightarrow> bool"

abbreviation all_ok :: mallocs where
  "all_ok \<equiv> (\<lambda>_. True)"

text \<open>
  The value pointer stored in an entry. Besides NULL and a live string it can dangle:
  \<open>kvs_array_mod\<close> and \<open>kvs_hash_mod\<close> free the old value before they allocate the new
  one and return early when that allocation fails.
\<close>

datatype vptr = VNull | VStr string | VFreed

primrec vptr_of :: "string option \<Rightarrow> vptr" where
  "vptr_of None = VNull"
| "vptr_of (Some v) = VStr v"

lemma vptr_of_eq [simp]:
  "vptr_of x = VNull \<longleftrightarrow> x = None" "vptr_of x = VStr v \<longleftrightarrow> x = Some v" "vptr_of x \<noteq> VFreed"
  by (cases x; simp)+

subsection \<open>C strings\<close>

fun strcmp :: "string \<Rightarrow> string \<Rightarrow> int" where
  "strcmp [] [] = 0"
| "strcmp [] (y # ys) = -1"
| "strcmp (x # xs) [] = 1"
| "strcmp (x # xs) (y # ys) =
     (if x = y then strcmp xs ys else if x < y then -1 else 1)"

lemma strcmp_eq_0 [simp]: "strcmp a b = 0 \<longleftrightarrow> a = b"
  by (induction a b rule: strcmp.induct) auto

lemma strcmp_less_0 [simp]: "strcmp a b < 0 \<longleftrightarrow> a < b"
  by (induction a b rule: strcmp.induct) auto

lemma strcmp_greater_0 [simp]: "0 < strcmp a b \<longleftrightarrow> b < a"
  by (induction a b rule: strcmp.induct) auto

text \<open>The C string that starts at a byte buffer: everything before the first NUL.\<close>

definition cstr :: "string \<Rightarrow> string" where
  "cstr s = takeWhile (\<lambda>c. c \<noteq> CHR 0x00) s"

lemma cstr_id [simp]: "CHR 0x00 \<notin> set s \<Longrightarrow> cstr s = s"
  unfolding cstr_def by (rule takeWhile_eq_all_conv [THEN iffD2]) auto

lemma nul_notin_cstr [simp]: "CHR 0x00 \<notin> set (cstr s)"
  unfolding cstr_def by (metis (mono_tags, lifting) set_takeWhileD)

lemma cstr_append_nul [simp]: "CHR 0x00 \<notin> set s \<Longrightarrow> cstr (s @ CHR 0x00 # t) = s"
  unfolding cstr_def by (induction s) auto

lemma length_cstr: "length (cstr s) \<le> length s"
  unfolding cstr_def by (rule length_takeWhile_le)

subsection \<open>C integers\<close>

text \<open>Two's complement wrap-around of 32-bit \<open>int\<close> and 64-bit \<open>long long\<close>.\<close>

definition int_wrap :: "int \<Rightarrow> int" where
  "int_wrap i = (i + 2 ^ 31) mod 2 ^ 32 - 2 ^ 31"

definition ll_wrap :: "int \<Rightarrow> int" where
  "ll_wrap i = (i + 2 ^ 63) mod 2 ^ 64 - 2 ^ 63"

definition in_int :: "int \<Rightarrow> bool" where
  "in_int i \<longleftrightarrow> - (2 ^ 31) \<le> i \<and> i < 2 ^ 31"

definition in_ll :: "int \<Rightarrow> bool" where
  "in_ll i \<longleftrightarrow> - (2 ^ 63) \<le> i \<and> i < 2 ^ 63"

lemma int_wrap_id [simp]: "in_int i \<Longrightarrow> int_wrap i = i"
  by (simp add: int_wrap_def in_int_def)

lemma ll_wrap_id [simp]: "in_ll i \<Longrightarrow> ll_wrap i = i"
  by (simp add: ll_wrap_def in_ll_def)

lemma in_int_int_wrap [simp]: "in_int (int_wrap i)"
  unfolding int_wrap_def in_int_def
  using pos_mod_bound [of "2 ^ 32" "i + 2 ^ 31"] pos_mod_sign [of "2 ^ 32" "i + 2 ^ 31"]
  by simp

lemma in_ll_ll_wrap [simp]: "in_ll (ll_wrap i)"
  unfolding ll_wrap_def in_ll_def
  using pos_mod_bound [of "2 ^ 64" "i + 2 ^ 63"] pos_mod_sign [of "2 ^ 64" "i + 2 ^ 63"]
  by simp

lemma int_wrap_add: "int_wrap (int_wrap a + b) = int_wrap (a + b)"
proof -
  have "int_wrap a + b + 2 ^ 31 = (a + 2 ^ 31) mod 2 ^ 32 + b" by (simp add: int_wrap_def)
  then show ?thesis unfolding int_wrap_def [of "int_wrap a + b"]
    by (simp add: int_wrap_def mod_simps ac_simps)
qed

lemma int_of_char_bounds [simp]: "0 \<le> (of_char c :: int)" "(of_char c :: int) < 256"
proof -
  have "(of_char c :: int) = int (of_char c)" by (simp add: of_nat_of_char)
  moreover have "of_char c < (256 :: nat)" by simp
  ultimately show "0 \<le> (of_char c :: int)" "(of_char c :: int) < 256" by linarith+
qed

text \<open>The value of a \<open>char\<close>, which is signed on the platforms the code targets.\<close>

definition schar :: "char \<Rightarrow> int" where
  "schar c = (let n = of_char c :: int in if n < 128 then n else n - 256)"

text \<open>C's \<open>%\<close> truncates towards zero: the result has the sign of the dividend.\<close>

definition c_rem :: "int \<Rightarrow> int \<Rightarrow> int" where
  "c_rem a b = sgn a * (\<bar>a\<bar> mod \<bar>b\<bar>)"

lemma c_rem_nonneg: "0 \<le> a \<Longrightarrow> 0 < b \<Longrightarrow> c_rem a b = a mod b"
  by (cases "a = 0") (auto simp: c_rem_def)

lemma c_rem_bounds: "0 \<le> a \<Longrightarrow> 0 < b \<Longrightarrow> 0 \<le> c_rem a b \<and> c_rem a b < b"
  by (simp add: c_rem_nonneg)

subsection \<open>Expiry\<close>

text \<open>
  \<open>expire_ms != -1 && expire_ms <= now\<close>: the test every engine applies to an entry;
  \<open>-1\<close> marks an entry that never expires.
\<close>

definition expired :: "int \<Rightarrow> int \<Rightarrow> bool" where
  "expired now e \<longleftrightarrow> e \<noteq> -1 \<and> e \<le> now"

text \<open>The remaining time in milliseconds as the \<open>_ttl\<close> functions compute it.\<close>

definition ttl_of :: "int \<Rightarrow> int \<Rightarrow> int" where
  "ttl_of now e =
     (if e = -1 then -1
      else let ttl = ll_wrap (e - now) in if 0 < ttl then ttl else 0)"

lemma expired_never [simp, time_simps]: "\<not> expired now (-1)"
  by (simp add: expired_def)

lemma expired_mono [time_simps]: "expired now e \<Longrightarrow> now \<le> now' \<Longrightarrow> expired now' e"
  by (simp add: expired_def)

lemma ttl_of_never [simp, time_simps]: "ttl_of now (-1) = -1"
  by (simp add: ttl_of_def)

lemma ttl_of_expired [time_simps]:
  "expired now e \<Longrightarrow> in_ll (e - now) \<Longrightarrow> ttl_of now e = 0"
  by (simp add: ttl_of_def expired_def)

lemma ttl_of_live [time_simps]:
  "\<not> expired now e \<Longrightarrow> e \<noteq> -1 \<Longrightarrow> in_ll (e - now) \<Longrightarrow> ttl_of now e = e - now \<and> 0 < ttl_of now e"
  by (auto simp: ttl_of_def expired_def)

subsection \<open>First-hit loops over an index range\<close>

lemma find_upt_Some_iff [loop_simps]:
  "find P [0..<n] = Some i \<longleftrightarrow> i < n \<and> P i \<and> (\<forall>j < i. \<not> P j)"
proof
  assume "find P [0..<n] = Some i"
  then show "i < n \<and> P i \<and> (\<forall>j < i. \<not> P j)"
    by (auto simp: find_Some_iff)
next
  assume "i < n \<and> P i \<and> (\<forall>j < i. \<not> P j)"
  then show "find P [0..<n] = Some i"
    unfolding find_Some_iff by (intro exI [of _ i]) auto
qed

lemma find_upt_None_iff [loop_simps]: "find P [0..<n] = None \<longleftrightarrow> (\<forall>i < n. \<not> P i)"
  by (auto simp: find_None_iff)

lemma find_upt_unique:
  assumes "i < n" "P i" "\<And>j. j < n \<Longrightarrow> P j \<Longrightarrow> j = i"
  shows "find P [0..<n] = Some i"
  unfolding find_upt_Some_iff using assms by (metis order.strict_trans nat_neq_iff)

lemma ex_less_upd:
  "(\<exists>j < n. (f(i := x)) j = y) \<longleftrightarrow> (i < n \<and> x = y) \<or> (\<exists>j < n. j \<noteq> i \<and> f j = y)"
  by auto

lemma ex_less_neq: "f i \<noteq> y \<Longrightarrow> (\<exists>j < n. j \<noteq> i \<and> f j = y) \<longleftrightarrow> (\<exists>j < n. f j = y)"
  by auto

subsection \<open>Options and maps\<close>

lemma map_eqI: "(\<And>k y. m k = Some y \<longleftrightarrow> m' k = Some y) \<Longrightarrow> m = m'"
  by (rule ext) (metis not_None_eq)

lemma map_option_fst_None [simp]: "map_option fst x = None \<longleftrightarrow> x = None"
  by (cases x) auto

end
