(* ===== verification/KVS_Engine.thy ===== *)
theory KVS_Engine
  imports KVS_Prelude
begin

text \<open>
  The contract of a storage engine, as the command layer relies on it. The abstract
  state of an engine is a \<open>store\<close>: a partial map from keys to a value and an
  expiry time in milliseconds.

  \<open>kv_store\<close> is what all four engines keep: the operation's own key is treated as the
  store says, and no other key loses or changes its value. \<open>kv_engine\<close> adds the frame
  law for expiry times: an operation on one key leaves the whole entry of every other
  key alone. The array, the hash table and the skip list are \<open>kv_engine\<close>s; the
  red-black tree is only a \<open>kv_store\<close> (see \<open>KVS_RBTree\<close>).
\<close>

type_synonym store = "string \<rightharpoonup> (string \<times> int)"

lemma store_eqI: "(\<And>k v e. m k = Some (v, e) \<longleftrightarrow> m' k = Some (v, e)) \<Longrightarrow> m = (m' :: store)"
  by (rule map_eqI) auto

text \<open>What a client can see of a store at time \<open>now\<close>.\<close>

definition view :: "int \<Rightarrow> store \<Rightarrow> string \<rightharpoonup> string" where
  "view now m k = (case m k of None \<Rightarrow> None
     | Some (v, e) \<Rightarrow> if expired now e then None else Some v)"

definition same_vals :: "string \<Rightarrow> store \<Rightarrow> store \<Rightarrow> bool" where
  "same_vals k m m' \<longleftrightarrow> (\<forall>k'. k' \<noteq> k \<longrightarrow> map_option fst (m' k') = map_option fst (m k'))"

definition same_entries :: "string \<Rightarrow> store \<Rightarrow> store \<Rightarrow> bool" where
  "same_entries k m m' \<longleftrightarrow> (\<forall>k'. k' \<noteq> k \<longrightarrow> m' k' = m k')"

lemma same_entries_vals: "same_entries k m m' \<Longrightarrow> same_vals k m m'"
  by (simp add: same_entries_def same_vals_def)

lemma same_entries_refl [simp]: "same_entries k m m"
  by (simp add: same_entries_def)

lemma same_vals_refl [simp]: "same_vals k m m"
  by (simp add: same_vals_def)

lemma same_entries_upd [simp]: "same_entries k m (m(k := x))"
  by (simp add: same_entries_def)

text \<open>The expiry times of a store.\<close>

definition expiries :: "store \<Rightarrow> int set" where
  "expiries m = snd ` ran m"

lemma expiriesI: "m k = Some (v, e) \<Longrightarrow> e \<in> expiries m"
  by (force simp: expiries_def ran_def)

lemma expiriesE: "e \<in> expiries m \<Longrightarrow> (\<And>k v. m k = Some (v, e) \<Longrightarrow> P) \<Longrightarrow> P"
  by (auto simp: expiries_def ran_def)

lemma expiries_upd: "expiries (m(k := x)) \<subseteq> expiries m \<union> snd ` set_option x"
  by (auto simp: expiries_def ran_def)

lemma same_vals_entries:
  assumes "same_vals k m m'" "expiries m \<subseteq> {t}" "expiries m' \<subseteq> {t}"
  shows "same_entries k m m'"
  unfolding same_entries_def
proof (intro allI impI)
  fix q assume "q \<noteq> k"
  then have "map_option fst (m' q) = map_option fst (m q)" using assms(1) by (simp add: same_vals_def)
  then show "m' q = m q"
    using assms(2,3) expiriesI [of m q] expiriesI [of m' q] by (cases "m q"; cases "m' q") (fastforce dest: subsetD)+
qed

lemma same_entriesI: "m' = m(k := x) \<Longrightarrow> same_entries k m m'"
  by simp

lemma same_entriesD: "same_entries k m m' \<Longrightarrow> m' k = x \<Longrightarrow> m' = m(k := x)"
  by (auto simp: same_entries_def fun_eq_iff)

lemma view_frame: "same_entries k m m' \<Longrightarrow> k' \<noteq> k \<Longrightarrow> view now m' k' = view now m k'"
  by (simp add: same_entries_def view_def)

text \<open>Dropping every expired entry: what the periodic scan is for.\<close>

definition purge :: "int \<Rightarrow> store \<Rightarrow> store" where
  "purge now m k = (case m k of None \<Rightarrow> None
     | Some (v, e) \<Rightarrow> if expired now e then None else Some (v, e))"

lemma purge_Some_iff: "purge now m k = Some (v, e) \<longleftrightarrow> m k = Some (v, e) \<and> \<not> expired now e"
  by (auto simp: purge_def split: option.splits)

lemma view_purge: "view now (purge now m) = view now m"
  by (rule ext) (auto simp: view_def purge_def split: option.splits)

lemma purge_del_expired:
  "m k = Some (v, e) \<Longrightarrow> expired now e \<Longrightarrow> purge now (m(k := None)) = purge now m"
  by (rule ext) (simp add: purge_def)

subsection \<open>Calls, results and the abstract step relation\<close>

datatype kv_call =
    KSet string string int
  | KGet int string
  | KDel string
  | KMod int string string
  | KExist int string
  | KExpire string int
  | KTtl int string

primrec call_key :: "kv_call \<Rightarrow> string" where
  "call_key (KSet k v e) = k"
| "call_key (KGet now k) = k"
| "call_key (KDel k) = k"
| "call_key (KMod now k v) = k"
| "call_key (KExist now k) = k"
| "call_key (KExpire k e) = k"
| "call_key (KTtl now k) = k"

datatype kv_res = RInt int | RPtr vptr

text \<open>
  What the abstract store may answer. A \<open>set\<close> may be refused (the array is bounded), a
  \<open>mod\<close> of an entry that has expired but is still stored may keep or drop it, and an
  existence test may or may not remove such an entry.
\<close>

inductive spec_step :: "store \<Rightarrow> kv_call \<Rightarrow> kv_res \<Rightarrow> store \<Rightarrow> bool" where
  set_stored: "spec_step m (KSet k v e) (RInt 0) (m(k \<mapsto> (v, e)))"
| set_refused: "r < 0 \<Longrightarrow> spec_step m (KSet k v e) (RInt r) m"
| get_hit: "view now m k = Some v \<Longrightarrow> spec_step m (KGet now k) (RPtr (VStr v)) m"
| get_miss: "view now m k = None \<Longrightarrow> spec_step m (KGet now k) (RPtr VNull) (m(k := None))"
| del_hit: "m k \<noteq> None \<Longrightarrow> spec_step m (KDel k) (RInt 0) (m(k := None))"
| del_miss: "m k = None \<Longrightarrow> spec_step m (KDel k) (RInt 1) m"
| mod_hit: "m k = Some (v0, e) \<Longrightarrow> \<not> expired now e \<Longrightarrow>
    spec_step m (KMod now k v) (RInt 0) (m(k \<mapsto> (v, e)))"
| mod_miss: "m k = None \<Longrightarrow> 0 < r \<Longrightarrow> spec_step m (KMod now k v) (RInt r) m"
| mod_stale_kept: "m k = Some (v0, e) \<Longrightarrow> expired now e \<Longrightarrow> 0 \<le> r \<Longrightarrow>
    spec_step m (KMod now k v) (RInt r) (m(k \<mapsto> (v', e)))"
| mod_stale_dropped: "m k = Some (v0, e) \<Longrightarrow> expired now e \<Longrightarrow> 0 \<le> r \<Longrightarrow>
    spec_step m (KMod now k v) (RInt r) (m(k := None))"
| exist_hit: "view now m k \<noteq> None \<Longrightarrow> spec_step m (KExist now k) (RInt 0) m"
| exist_miss: "view now m k = None \<Longrightarrow> spec_step m (KExist now k) (RInt 1) m"
| exist_miss_dropped: "view now m k = None \<Longrightarrow>
    spec_step m (KExist now k) (RInt 1) (m(k := None))"
| expire_hit: "m k = Some (v, e0) \<Longrightarrow>
    spec_step m (KExpire k e) (RInt 0) (m(k := if e = 0 then None else Some (v, e)))"
| expire_miss: "m k = None \<Longrightarrow> spec_step m (KExpire k e) (RInt 1) m"
| ttl_hit: "m k = Some (v, e) \<Longrightarrow> spec_step m (KTtl now k) (RInt (ttl_of now e)) m"
| ttl_miss: "m k = None \<Longrightarrow> spec_step m (KTtl now k) (RInt (-2)) m"

inductive_cases spec_getE: "spec_step m (KGet now k) r m'"

inductive spec_run :: "store \<Rightarrow> kv_call list \<Rightarrow> kv_res list \<Rightarrow> store \<Rightarrow> bool" where
  run_done: "spec_run m [] [] m"
| run_step: "spec_step m c r m1 \<Longrightarrow> spec_run m1 cs rs m' \<Longrightarrow> spec_run m (c # cs) (r # rs) m'"

text \<open>The call a command makes on the operations of one engine.\<close>

definition kv_dispatch ::
    "('s \<Rightarrow> string \<Rightarrow> string \<Rightarrow> int \<Rightarrow> int \<times> 's) \<Rightarrow> (int \<Rightarrow> 's \<Rightarrow> string \<Rightarrow> vptr \<times> 's) \<Rightarrow>
     ('s \<Rightarrow> string \<Rightarrow> int \<times> 's) \<Rightarrow> (int \<Rightarrow> 's \<Rightarrow> string \<Rightarrow> string \<Rightarrow> int \<times> 's) \<Rightarrow>
     (int \<Rightarrow> 's \<Rightarrow> string \<Rightarrow> int \<times> 's) \<Rightarrow> ('s \<Rightarrow> string \<Rightarrow> int \<Rightarrow> int \<times> 's) \<Rightarrow>
     (int \<Rightarrow> 's \<Rightarrow> string \<Rightarrow> int) \<Rightarrow> kv_call \<Rightarrow> 's \<Rightarrow> kv_res \<times> 's" where
  "kv_dispatch set_op get_op del_op mod_op exist_op expire_op ttl_op c s = (case c of
     KSet k v e \<Rightarrow> map_prod RInt id (set_op s k v e)
   | KGet now k \<Rightarrow> map_prod RPtr id (get_op now s k)
   | KDel k \<Rightarrow> map_prod RInt id (del_op s k)
   | KMod now k v \<Rightarrow> map_prod RInt id (mod_op now s k v)
   | KExist now k \<Rightarrow> map_prod RInt id (exist_op now s k)
   | KExpire k e \<Rightarrow> map_prod RInt id (expire_op s k e)
   | KTtl now k \<Rightarrow> (RInt (ttl_op now s k), s))"

text \<open>A sequence of calls on an implementation, collecting the results.\<close>

fun run_calls :: "(kv_call \<Rightarrow> 's \<Rightarrow> kv_res \<times> 's) \<Rightarrow> kv_call list \<Rightarrow> 's \<Rightarrow> kv_res list \<times> 's" where
  "run_calls step [] s = ([], s)"
| "run_calls step (c # cs) s =
     (let (r, s1) = step c s; (rs, s') = run_calls step cs s1 in (r # rs, s'))"

lemma run_calls_refines:
  assumes step: "\<And>s c r s'. I s \<Longrightarrow> P c \<Longrightarrow> step c s = (r, s') \<Longrightarrow>
      I s' \<and> spec_step (ab s) c r (ab s')"
    and "I s" "\<forall>c \<in> set cs. P c" "run_calls step cs s = (rs, s')"
  shows "I s' \<and> spec_run (ab s) cs rs (ab s')"
  using assms(2,3,4)
proof (induction cs arbitrary: s rs)
  case Nil
  then show ?case by (auto intro: spec_run.intros)
next
  case (Cons c cs)
  obtain r s1 where c: "step c s = (r, s1)" by (cases "step c s")
  obtain qs s2 where q: "run_calls step cs s1 = (qs, s2)" by (cases "run_calls step cs s1")
  from Cons.prems c q have eq: "rs = r # qs" "s' = s2" by auto
  from step [OF Cons.prems(1) _ c] Cons.prems(2) have s1: "I s1" "spec_step (ab s) c r (ab s1)" by auto
  from Cons.IH [OF s1(1)] Cons.prems(2) q eq have "I s' \<and> spec_run (ab s1) cs qs (ab s')" by simp
  with s1(2) eq(1) show ?case by (auto intro: spec_run.intros)
qed

subsection \<open>The interfaces\<close>

locale kv_store =
  fixes key_ok :: "string \<Rightarrow> bool"
    and inv :: "'s \<Rightarrow> bool"
    and abs :: "'s \<Rightarrow> store"
    and set_op :: "'s \<Rightarrow> string \<Rightarrow> string \<Rightarrow> int \<Rightarrow> int \<times> 's"
    and get_op :: "int \<Rightarrow> 's \<Rightarrow> string \<Rightarrow> vptr \<times> 's"
    and del_op :: "'s \<Rightarrow> string \<Rightarrow> int \<times> 's"
    and mod_op :: "int \<Rightarrow> 's \<Rightarrow> string \<Rightarrow> string \<Rightarrow> int \<times> 's"
    and exist_op :: "int \<Rightarrow> 's \<Rightarrow> string \<Rightarrow> int \<times> 's"
    and expire_op :: "'s \<Rightarrow> string \<Rightarrow> int \<Rightarrow> int \<times> 's"
    and ttl_op :: "int \<Rightarrow> 's \<Rightarrow> string \<Rightarrow> int"
  assumes set_law:
    "inv s \<Longrightarrow> key_ok k \<Longrightarrow> set_op s k v e = (r, s') \<Longrightarrow>
       inv s' \<and> r \<le> 0 \<and> (r = 0 \<longrightarrow> abs s' k = Some (v, e) \<and> same_vals k (abs s) (abs s')) \<and>
       (r \<noteq> 0 \<longrightarrow> abs s' = abs s)"
  and get_law:
    "inv s \<Longrightarrow> key_ok k \<Longrightarrow> get_op now s k = (p, s') \<Longrightarrow>
       inv s' \<and> p = vptr_of (view now (abs s) k) \<and> same_vals k (abs s) (abs s') \<and>
       abs s' k = (if p = VNull then None else abs s k)"
  and del_law:
    "inv s \<Longrightarrow> key_ok k \<Longrightarrow> del_op s k = (r, s') \<Longrightarrow>
       inv s' \<and> r = (if abs s k = None then 1 else 0) \<and> abs s' k = None \<and>
       same_vals k (abs s) (abs s')"
  and mod_law:
    "inv s \<Longrightarrow> key_ok k \<Longrightarrow> mod_op now s k v = (r, s') \<Longrightarrow>
       inv s' \<and> 0 \<le> r \<and> same_vals k (abs s) (abs s') \<and>
       (case abs s k of
          None \<Rightarrow> 0 < r \<and> abs s' k = None
        | Some (v0, e) \<Rightarrow>
            if expired now e then abs s' k = None \<or> (\<exists>v'. abs s' k = Some (v', e))
            else r = 0 \<and> abs s' k = Some (v, e))"
  and exist_law:
    "inv s \<Longrightarrow> key_ok k \<Longrightarrow> exist_op now s k = (r, s') \<Longrightarrow>
       inv s' \<and> r = (if view now (abs s) k = None then 1 else 0) \<and>
       same_vals k (abs s) (abs s') \<and>
       (abs s' k = abs s k \<or> abs s' k = None \<and> view now (abs s) k = None)"
  and expire_law:
    "inv s \<Longrightarrow> key_ok k \<Longrightarrow> expire_op s k e = (r, s') \<Longrightarrow>
       inv s' \<and> r = (if abs s k = None then 1 else 0) \<and> same_vals k (abs s) (abs s') \<and>
       abs s' k = (case abs s k of None \<Rightarrow> None
                   | Some (v, e0) \<Rightarrow> if e = 0 then None else Some (v, e))"
  and ttl_law:
    "inv s \<Longrightarrow> key_ok k \<Longrightarrow> ttl_op now s k =
       (case abs s k of None \<Rightarrow> -2 | Some (v, e) \<Rightarrow> ttl_of now e)"
begin

lemma get_after_set:
  assumes "inv s" "key_ok k" "set_op s k v e = (0, s1)" "\<not> expired now e"
  shows "fst (get_op now s1 k) = VStr v"
proof -
  obtain r s2 where g: "get_op now s1 k = (r, s2)" by (cases "get_op now s1 k")
  from set_law [OF assms(1-3)] have s1: "inv s1" "abs s1 k = Some (v, e)" by auto
  from get_law [OF s1(1) assms(2) g] s1(2) assms(4) show ?thesis
    by (simp add: g view_def)
qed

lemma get_after_expiry:
  assumes "inv s" "key_ok k" "set_op s k v e = (0, s1)" "expired now e"
  shows "fst (get_op now s1 k) = VNull" "abs (snd (get_op now s1 k)) k = None"
proof -
  obtain r s2 where g: "get_op now s1 k = (r, s2)" by (cases "get_op now s1 k")
  from set_law [OF assms(1-3)] have s1: "inv s1" "abs s1 k = Some (v, e)" by auto
  from get_law [OF s1(1) assms(2) g] s1(2) assms(4)
  show "fst (get_op now s1 k) = VNull" "abs (snd (get_op now s1 k)) k = None"
    by (auto simp: g view_def)
qed

lemma get_after_del:
  assumes "inv s" "key_ok k" "del_op s k = (r, s1)"
  shows "fst (get_op now s1 k) = VNull"
proof -
  obtain r' s2 where g: "get_op now s1 k = (r', s2)" by (cases "get_op now s1 k")
  from del_law [OF assms] have "inv s1" "abs s1 k = None" by auto
  with get_law [OF _ assms(2) g] show ?thesis by (simp add: g view_def)
qed

lemma ttl_after_set:
  assumes "inv s" "key_ok k" "set_op s k v e = (0, s1)"
  shows "ttl_op now s1 k = ttl_of now e"
  using set_law [OF assms] ttl_law [of s1 k now] assms(2) by simp

lemma exist_iff_get:
  assumes "inv s" "key_ok k"
  shows "fst (exist_op now s k) = 0 \<longleftrightarrow> fst (get_op now s k) \<noteq> VNull"
proof -
  obtain r s1 where x: "exist_op now s k = (r, s1)" by (cases "exist_op now s k")
  obtain v s2 where g: "get_op now s k = (v, s2)" by (cases "get_op now s k")
  from exist_law [OF assms x] get_law [OF assms g] show ?thesis
    by (simp add: x g)
qed

text \<open>An entry that has expired but not been removed yet comes back to life.\<close>

lemma expire_revives:
  assumes "inv s" "key_ok k" "abs s k = Some (v, e0)" "e \<noteq> 0" "\<not> expired now e"
    and "expire_op s k e = (r, s1)"
  shows "r = 0" "fst (get_op now s1 k) = VStr v"
proof -
  obtain x s2 where g: "get_op now s1 k = (x, s2)" by (cases "get_op now s1 k")
  from expire_law [OF assms(1,2,6)] assms(3,4)
  have s1: "inv s1" "r = 0" "abs s1 k = Some (v, e)" by auto
  from get_law [OF s1(1) assms(2) g] s1(3) assms(5) have "x = VStr v" by (simp add: view_def)
  with g s1(2) show "r = 0" "fst (get_op now s1 k) = VStr v" by auto
qed

abbreviation call :: "kv_call \<Rightarrow> 's \<Rightarrow> kv_res \<times> 's" where
  "call \<equiv> kv_dispatch set_op get_op del_op mod_op exist_op expire_op ttl_op"

lemma set_refines:
  assumes "inv s" "key_ok k" "set_op s k v e = (r, s')"
    and fr: "same_entries k (abs s) (abs s')"
  shows "spec_step (abs s) (KSet k v e) (RInt r) (abs s')"
proof (cases "r = 0")
  case True
  with set_law [OF assms(1-3)] same_entriesD [OF fr] show ?thesis by (auto intro: spec_step.set_stored)
next
  case False
  with set_law [OF assms(1-3)] show ?thesis by (auto intro: spec_step.set_refused)
qed

lemma get_refines:
  assumes "inv s" "key_ok k" "get_op now s k = (p, s')"
    and fr: "same_entries k (abs s) (abs s')"
  shows "spec_step (abs s) (KGet now k) (RPtr p) (abs s')"
proof (cases "view now (abs s) k")
  case None
  with get_law [OF assms(1-3)] same_entriesD [OF fr refl] show ?thesis by (auto intro: spec_step.get_miss)
next
  case (Some v)
  with get_law [OF assms(1-3)] same_entriesD [OF fr refl] show ?thesis
    by (auto simp: fun_upd_idem intro: spec_step.get_hit)
qed

lemma del_refines:
  assumes "inv s" "key_ok k" "del_op s k = (r, s')"
    and fr: "same_entries k (abs s) (abs s')"
  shows "spec_step (abs s) (KDel k) (RInt r) (abs s')"
proof (cases "abs s k")
  case None
  then have "(abs s)(k := None) = abs s" by (simp add: fun_upd_idem_iff)
  with None del_law [OF assms(1-3)] same_entriesD [OF fr refl] show ?thesis by (simp add: spec_step.del_miss)
next
  case (Some y)
  with del_law [OF assms(1-3)] same_entriesD [OF fr refl] show ?thesis by (simp add: spec_step.del_hit)
qed

lemma mod_refines:
  assumes "inv s" "key_ok k" "mod_op now s k v = (r, s')"
    and fr: "same_entries k (abs s) (abs s')"
  shows "spec_step (abs s) (KMod now k v) (RInt r) (abs s')"
proof -
  note law = mod_law [OF assms(1-3)]
  have upd: "abs s' k = x \<Longrightarrow> abs s' = (abs s)(k := x)" for x
    by (rule same_entriesD [OF fr])
  show ?thesis
  proof (cases "abs s k")
    case None
    with law have "abs s' k = None" "0 < r" by simp_all
    with upd have "abs s' = (abs s)(k := None)" "0 < r" by blast+
    with None show ?thesis by (simp add: spec_step.mod_miss fun_upd_idem)
  next
    case (Some y)
    obtain v0 e where y: "abs s k = Some (v0, e)" using Some by (cases y) auto
    show ?thesis
    proof (cases "expired now e")
      case True
      with law y have "0 \<le> r" "abs s' k = None \<or> (\<exists>v'. abs s' k = Some (v', e))" by simp_all
      with upd show ?thesis
        using spec_step.mod_stale_kept [of "abs s", OF y True, of r v]
          spec_step.mod_stale_dropped [of "abs s", OF y True, of r v] by metis
    next
      case False
      with law y have "r = 0" "abs s' k = Some (v, e)" by simp_all
      with upd have "r = 0" "abs s' = (abs s)(k \<mapsto> (v, e))" by blast+
      with y False show ?thesis by (simp add: spec_step.mod_hit)
    qed
  qed
qed

lemma exist_refines:
  assumes "inv s" "key_ok k" "exist_op now s k = (r, s')"
    and fr: "same_entries k (abs s) (abs s')"
  shows "spec_step (abs s) (KExist now k) (RInt r) (abs s')"
proof -
  note law = exist_law [OF assms(1-3)]
  have upd: "abs s' k = x \<Longrightarrow> abs s' = (abs s)(k := x)" for x
    by (rule same_entriesD [OF fr])
  from law consider "abs s' k = abs s k" | "abs s' k = None" "view now (abs s) k = None" by metis
  then show ?thesis
  proof cases
    case 1
    from upd [OF 1] have "abs s' = abs s" by simp
    with law show ?thesis by (simp add: spec_step.exist_hit spec_step.exist_miss)
  next
    case 2
    with upd [OF 2(1)] law show ?thesis by (simp add: spec_step.exist_miss_dropped)
  qed
qed

lemma expire_refines:
  assumes "inv s" "key_ok k" "expire_op s k e = (r, s')"
    and fr: "same_entries k (abs s) (abs s')"
  shows "spec_step (abs s) (KExpire k e) (RInt r) (abs s')"
proof (cases "abs s k")
  case None
  with expire_law [OF assms(1-3)] same_entriesD [OF fr refl] show ?thesis
    by (simp add: spec_step.expire_miss fun_upd_idem)
next
  case (Some y)
  then obtain v e0 where y: "abs s k = Some (v, e0)" by (cases y) auto
  with expire_law [OF assms(1-3)] same_entriesD [OF fr refl] spec_step.expire_hit [of "abs s", OF y] show ?thesis
    by simp
qed

lemma ttl_refines: "inv s \<Longrightarrow> key_ok k \<Longrightarrow> spec_step (abs s) (KTtl now k) (RInt (ttl_op now s k)) (abs s)"
  by (cases "abs s k") (auto simp: ttl_law intro: spec_step.intros)

text \<open>A call that leaves the entries of the other keys alone is a step of the store.\<close>

theorem call_refines_framed:
  assumes "inv s" "key_ok (call_key c)" "call c s = (r, s')"
    and fr: "same_entries (call_key c) (abs s) (abs s')"
  shows "inv s' \<and> spec_step (abs s) c r (abs s')"
proof (cases c)
  case (KSet k v e)
  with assms(2) have ok: "key_ok k" by simp
  obtain r1 s1 where o: "set_op s k v e = (r1, s1)" by (cases "set_op s k v e")
  with assms KSet set_law [OF assms(1) ok o] set_refines [OF assms(1) ok o] show ?thesis
    by (auto simp: kv_dispatch_def)
next
  case (KGet now k)
  with assms(2) have ok: "key_ok k" by simp
  obtain r1 s1 where o: "get_op now s k = (r1, s1)" by (cases "get_op now s k")
  with assms KGet get_law [OF assms(1) ok o] get_refines [OF assms(1) ok o] show ?thesis
    by (auto simp: kv_dispatch_def)
next
  case (KDel k)
  with assms(2) have ok: "key_ok k" by simp
  obtain r1 s1 where o: "del_op s k = (r1, s1)" by (cases "del_op s k")
  with assms KDel del_law [OF assms(1) ok o] del_refines [OF assms(1) ok o] show ?thesis
    by (auto simp: kv_dispatch_def)
next
  case (KMod now k v)
  with assms(2) have ok: "key_ok k" by simp
  obtain r1 s1 where o: "mod_op now s k v = (r1, s1)" by (cases "mod_op now s k v")
  with assms KMod mod_law [OF assms(1) ok o] mod_refines [OF assms(1) ok o] show ?thesis
    by (auto simp: kv_dispatch_def)
next
  case (KExist now k)
  with assms(2) have ok: "key_ok k" by simp
  obtain r1 s1 where o: "exist_op now s k = (r1, s1)" by (cases "exist_op now s k")
  with assms KExist exist_law [OF assms(1) ok o] exist_refines [OF assms(1) ok o] show ?thesis
    by (auto simp: kv_dispatch_def)
next
  case (KExpire k e)
  with assms(2) have ok: "key_ok k" by simp
  obtain r1 s1 where o: "expire_op s k e = (r1, s1)" by (cases "expire_op s k e")
  with assms KExpire expire_law [OF assms(1) ok o] expire_refines [OF assms(1) ok o] show ?thesis
    by (auto simp: kv_dispatch_def)
next
  case (KTtl now k)
  with assms ttl_refines [OF assms(1), of k now] show ?thesis by (auto simp: kv_dispatch_def)
qed

end

locale kv_engine = kv_store +
  assumes set_frame: "inv s \<Longrightarrow> key_ok k \<Longrightarrow> set_op s k v e = (r, s') \<Longrightarrow>
      same_entries k (abs s) (abs s')"
    and get_frame: "inv s \<Longrightarrow> key_ok k \<Longrightarrow> get_op now s k = (p, s') \<Longrightarrow>
      same_entries k (abs s) (abs s')"
    and del_frame: "inv s \<Longrightarrow> key_ok k \<Longrightarrow> del_op s k = (r, s') \<Longrightarrow>
      same_entries k (abs s) (abs s')"
    and mod_frame: "inv s \<Longrightarrow> key_ok k \<Longrightarrow> mod_op now s k v = (r, s') \<Longrightarrow>
      same_entries k (abs s) (abs s')"
    and exist_frame: "inv s \<Longrightarrow> key_ok k \<Longrightarrow> exist_op now s k = (r, s') \<Longrightarrow>
      same_entries k (abs s) (abs s')"
    and expire_frame: "inv s \<Longrightarrow> key_ok k \<Longrightarrow> expire_op s k e = (r, s') \<Longrightarrow>
      same_entries k (abs s) (abs s')"
begin

lemma abs_set: "inv s \<Longrightarrow> key_ok k \<Longrightarrow> set_op s k v e = (0, s') \<Longrightarrow> abs s' = (abs s)(k \<mapsto> (v, e))"
  using set_law [of s k v e 0 s'] by (blast intro: same_entriesD set_frame)

lemma abs_del: "inv s \<Longrightarrow> key_ok k \<Longrightarrow> del_op s k = (r, s') \<Longrightarrow> abs s' = (abs s)(k := None)"
  using del_law [of s k r s'] by (blast intro: same_entriesD del_frame)

lemma abs_get:
  assumes "inv s" "key_ok k" "get_op now s k = (p, s')"
  shows "abs s' = (if p = VNull then (abs s)(k := None) else abs s)"
  using same_entriesD [OF get_frame [OF assms] refl] get_law [OF assms]
  by (metis fun_upd_triv)

lemma abs_expire:
  assumes "inv s" "key_ok k" "expire_op s k e = (r, s')"
  shows "abs s' = (case abs s k of None \<Rightarrow> abs s
               | Some (v, e0) \<Rightarrow> (abs s)(k := if e = 0 then None else Some (v, e)))"
proof -
  have "abs s' = (abs s)(k := (case abs s k of None \<Rightarrow> None
                   | Some (v, e0) \<Rightarrow> if e = 0 then None else Some (v, e)))"
    using expire_law [OF assms] by (blast intro: same_entriesD expire_frame [OF assms])
  then show ?thesis by (auto split: option.splits simp: fun_upd_idem_iff)
qed

lemma view_mod:
  assumes "inv s" "key_ok k" "mod_op now s k v = (r, s')"
  shows "view now (abs s') =
    (if view now (abs s) k = None then view now (abs s) else (view now (abs s))(k \<mapsto> v))"
proof
  fix x
  show "view now (abs s') x =
    (if view now (abs s) k = None then view now (abs s) else (view now (abs s))(k \<mapsto> v)) x"
  proof (cases "x = k")
    case True
    with mod_law [OF assms] show ?thesis
      by (auto simp: view_def split: option.splits if_splits)
  next
    case False
    with view_frame [OF mod_frame [OF assms] False] show ?thesis by simp
  qed
qed

lemma view_exist:
  assumes "inv s" "key_ok k" "exist_op now s k = (r, s')"
  shows "view now (abs s') = view now (abs s)"
proof
  fix x
  show "view now (abs s') x = view now (abs s) x"
  proof (cases "x = k")
    case True
    with exist_law [OF assms] show ?thesis by (auto simp: view_def)
  next
    case False
    with view_frame [OF exist_frame [OF assms] False] show ?thesis by simp
  qed
qed

lemma get_other_after_set:
  assumes "inv s" "key_ok k" "set_op s k v e = (r, s1)" "key_ok k'" "k' \<noteq> k"
  shows "fst (get_op now s1 k') = fst (get_op now s k')"
proof -
  obtain p s2 where g1: "get_op now s1 k' = (p, s2)" by (cases "get_op now s1 k'")
  obtain q s3 where g: "get_op now s k' = (q, s3)" by (cases "get_op now s k'")
  from set_law [OF assms(1-3)] have "inv s1" by simp
  from get_law [OF this assms(4) g1] get_law [OF assms(1,4) g]
    view_frame [OF set_frame [OF assms(1-3)] assms(5)]
  show ?thesis by (simp add: g g1)
qed

lemma get_other_after_del:
  assumes "inv s" "key_ok k" "del_op s k = (r, s1)" "key_ok k'" "k' \<noteq> k"
  shows "fst (get_op now s1 k') = fst (get_op now s k')"
proof -
  obtain p s2 where g1: "get_op now s1 k' = (p, s2)" by (cases "get_op now s1 k'")
  obtain q s3 where g: "get_op now s k' = (q, s3)" by (cases "get_op now s k'")
  from del_law [OF assms(1-3)] have "inv s1" by simp
  from get_law [OF this assms(4) g1] get_law [OF assms(1,4) g]
    view_frame [OF del_frame [OF assms(1-3)] assms(5)]
  show ?thesis by (simp add: g g1)
qed

lemma call_frame:
  assumes "inv s" "key_ok (call_key c)" "call c s = (r, s')"
  shows "same_entries (call_key c) (abs s) (abs s')"
  using assms
  by (cases c) (auto simp: kv_dispatch_def map_prod_def split: prod.splits
      intro: set_frame get_frame del_frame mod_frame exist_frame expire_frame)

theorem call_refines:
  assumes "inv s" "key_ok (call_key c)" "call c s = (r, s')"
  shows "inv s' \<and> spec_step (abs s) c r (abs s')"
  using call_refines_framed [OF assms] call_frame [OF assms] by blast

theorem run_refines:
  assumes "inv s" "\<forall>c \<in> set cs. key_ok (call_key c)" "run_calls call cs s = (rs, s')"
  shows "inv s' \<and> spec_run (abs s) cs rs (abs s')"
  using call_refines assms by (rule run_calls_refines)

end

text \<open>An engine whose scan removes the expired entries and nothing else.\<close>

locale kv_scanned = kv_engine +
  fixes scan_op :: "int \<Rightarrow> 'a \<Rightarrow> 'a"
  assumes scan_law: "inv s \<Longrightarrow> inv (scan_op now s) \<and> abs (scan_op now s) = purge now (abs s)"
begin

lemma scan_invisible:
  "inv s \<Longrightarrow> key_ok k \<Longrightarrow> fst (get_op now (scan_op now s) k) = fst (get_op now s k)"
  using scan_law [of s now] get_law [of "scan_op now s" k now] get_law [of s k now]
  by (metis prod.collapse view_purge)

lemma scan_idem: "inv s \<Longrightarrow> abs (scan_op now (scan_op now s)) = abs (scan_op now s)"
  using scan_law [of s now] scan_law [of "scan_op now s" now]
  by (auto simp: fun_eq_iff purge_def split: option.splits)

end

end
