(* ===== verification/KVS_Array.thy ===== *)
theory KVS_Array
  imports KVS_Engine
begin

text \<open>
  The array engine (\<open>kvs_array.c\<close>): a table of \<open>KVS_ARRAY_SIZE\<close> items of which the
  first \<open>total\<close> are in use, searched linearly, with the last item moved into the
  gap a deletion leaves. The table is modelled as its cells plus a flag for the table
  pointer being non-NULL. A cell's key and value are pointers that may be NULL: a
  failed allocation during an update leaves a NULL value behind.
\<close>

subsection \<open>Data and operations\<close>

record kvs_array_item =
  it_key :: cptr
  it_value :: vptr
  it_expire :: int

record kvs_array =
  table_alloc :: bool
  cells :: "nat \<Rightarrow> kvs_array_item"
  total :: nat

definition KVS_ARRAY_SIZE :: nat where
  "KVS_ARRAY_SIZE = 1024 * 1024"

text \<open>A zeroed cell, as \<open>memset\<close> leaves it.\<close>

definition null_item :: kvs_array_item where
  "null_item = \<lparr>it_key = None, it_value = VNull, it_expire = 0\<rparr>"

definition zero_array :: kvs_array where
  "zero_array = \<lparr>table_alloc = False, cells = (\<lambda>_. null_item), total = 0\<rparr>"

definition kvs_array_create :: "mallocs \<Rightarrow> kvs_array \<Rightarrow> int \<times> kvs_array" where
  "kvs_array_create mok a =
     (if table_alloc a then (-1, a)
      else if \<not> mok 0 then (-1, a)
      else (0, a\<lparr>table_alloc := True, cells := (\<lambda>_. null_item), total := 0\<rparr>))"

definition kvs_array_destory :: "kvs_array \<Rightarrow> kvs_array" where
  "kvs_array_destory a =
     (if table_alloc a
      then a\<lparr>cells := (\<lambda>i. if i < total a then (cells a i)\<lparr>it_key := None, it_value := VNull\<rparr>
                           else cells a i),
             table_alloc := False, total := 0\<rparr>
      else a\<lparr>total := 0\<rparr>)"

text \<open>The search loop of every operation: the first used cell whose key matches.\<close>

definition key_is :: "kvs_array_item \<Rightarrow> string \<Rightarrow> bool" where
  "key_is it key \<longleftrightarrow> (case it_key it of None \<Rightarrow> False | Some k \<Rightarrow> strcmp k key = 0)"

definition array_find :: "kvs_array \<Rightarrow> string \<Rightarrow> nat option" where
  "array_find a key = find (\<lambda>i. key_is (cells a i) key) [0..<total a]"

definition kvs_array_set ::
    "mallocs \<Rightarrow> kvs_array \<Rightarrow> cptr \<Rightarrow> cptr \<Rightarrow> int \<Rightarrow> int \<times> kvs_array" where
  "kvs_array_set mok a key value expire_ms =
     (case (key, value) of
        (Some k, Some v) \<Rightarrow>
          if total a \<ge> KVS_ARRAY_SIZE then (-1, a)
          else (case array_find a k of
             Some i \<Rightarrow>
               if \<not> mok 0
               then (-2, a\<lparr>cells := (cells a)(i := (cells a i)\<lparr>it_value := VNull\<rparr>)\<rparr>)
               else (0, a\<lparr>cells := (cells a)(i := (cells a i)\<lparr>it_value := VStr v,
                                                    it_expire := expire_ms\<rparr>)\<rparr>)
           | None \<Rightarrow>
               if \<not> mok 0 then (-2, a)
               else if \<not> mok 1 then (-2, a)
               else (0, a\<lparr>cells := (cells a)(total a :=
                            \<lparr>it_key = Some k, it_value = VStr v, it_expire = expire_ms\<rparr>),
                          total := total a + 1\<rparr>))
      | _ \<Rightarrow> (-1, a))"

definition kvs_array_get :: "int \<Rightarrow> kvs_array \<Rightarrow> cptr \<Rightarrow> vptr \<times> kvs_array" where
  "kvs_array_get now a key =
     (case key of None \<Rightarrow> (VNull, a)
      | Some k \<Rightarrow>
         (case array_find a k of None \<Rightarrow> (VNull, a)
          | Some i \<Rightarrow>
              if expired now (it_expire (cells a i))
              then (VNull, a\<lparr>cells := (cells a)(i := cells a (total a - 1)),
                            total := total a - 1\<rparr>)
              else (it_value (cells a i), a)))"

definition kvs_array_del :: "kvs_array \<Rightarrow> cptr \<Rightarrow> int \<times> kvs_array" where
  "kvs_array_del a key =
     (case key of None \<Rightarrow> (-1, a)
      | Some k \<Rightarrow>
         (case array_find a k of None \<Rightarrow> (1, a)
          | Some i \<Rightarrow>
              let last = total a - 1;
                  c = (if i < last then (cells a)(i := cells a last) else cells a)
              in (0, a\<lparr>cells := c(last := (c last)\<lparr>it_key := None, it_value := VNull\<rparr>),
                       total := last\<rparr>)))"

definition kvs_array_expire :: "kvs_array \<Rightarrow> cptr \<Rightarrow> int \<Rightarrow> int \<times> kvs_array" where
  "kvs_array_expire a key expire_ms =
     (case key of None \<Rightarrow> (-1, a)
      | Some k \<Rightarrow>
         (case array_find a k of None \<Rightarrow> (1, a)
          | Some i \<Rightarrow>
              if expire_ms = 0 then kvs_array_del a key
              else (0, a\<lparr>cells := (cells a)(i := (cells a i)\<lparr>it_expire := expire_ms\<rparr>)\<rparr>)))"

definition kvs_array_ttl :: "int \<Rightarrow> kvs_array \<Rightarrow> cptr \<Rightarrow> int" where
  "kvs_array_ttl now a key =
     (case key of None \<Rightarrow> -2
      | Some k \<Rightarrow>
         (case array_find a k of None \<Rightarrow> -2
          | Some i \<Rightarrow> ttl_of now (it_expire (cells a i))))"

text \<open>The scan walks the indices downwards from the last used cell.\<close>

definition array_scan_step :: "int \<Rightarrow> nat \<Rightarrow> kvs_array \<Rightarrow> kvs_array" where
  "array_scan_step now i a =
     (if it_key (cells a i) \<noteq> None \<and> expired now (it_expire (cells a i))
      then snd (kvs_array_del a (it_key (cells a i))) else a)"

definition kvs_array_scan_expired :: "int \<Rightarrow> kvs_array \<Rightarrow> kvs_array" where
  "kvs_array_scan_expired now a = fold (array_scan_step now) (rev [0..<total a]) a"

definition kvs_array_mod ::
    "mallocs \<Rightarrow> kvs_array \<Rightarrow> cptr \<Rightarrow> cptr \<Rightarrow> int \<times> kvs_array" where
  "kvs_array_mod mok a key value =
     (case (key, value) of
        (Some k, Some v) \<Rightarrow>
          if total a = 0 then (int KVS_ARRAY_SIZE, a)
          else (case array_find a k of
             Some i \<Rightarrow>
               if \<not> mok 0
               then (-2, a\<lparr>cells := (cells a)(i := (cells a i)\<lparr>it_value := VFreed\<rparr>)\<rparr>)
               else (0, a\<lparr>cells := (cells a)(i := (cells a i)\<lparr>it_value := VStr v\<rparr>)\<rparr>)
           | None \<Rightarrow> (int (total a), a))
      | _ \<Rightarrow> (-1, a))"

definition kvs_array_exist :: "int \<Rightarrow> kvs_array \<Rightarrow> cptr \<Rightarrow> int" where
  "kvs_array_exist now a key =
     (case key of None \<Rightarrow> -1
      | Some k \<Rightarrow>
         (case array_find a k of None \<Rightarrow> 1
          | Some i \<Rightarrow> if expired now (it_expire (cells a i)) then 1 else 0))"

subsection \<open>Invariant and abstraction\<close>

text \<open>
  Every used cell has a key and a value, and no key occurs twice. The bound on
  \<open>total\<close> is what keeps every index the code computes inside the table.
\<close>

definition kvs_array_inv :: "kvs_array \<Rightarrow> bool" where
  "kvs_array_inv a \<longleftrightarrow> table_alloc a \<and> total a \<le> KVS_ARRAY_SIZE \<and>
     (\<forall>i < total a. it_key (cells a i) \<noteq> None \<and> (\<exists>v. it_value (cells a i) = VStr v)) \<and>
     inj_on (\<lambda>i. it_key (cells a i)) {..<total a}"

definition kvs_array_abs :: "kvs_array \<Rightarrow> store" where
  "kvs_array_abs a k =
     (case array_find a k of None \<Rightarrow> None
      | Some i \<Rightarrow> (case it_value (cells a i) of VStr v \<Rightarrow> Some (v, it_expire (cells a i))
                   | _ \<Rightarrow> None))"

lemma key_is_iff [simp]: "key_is it k \<longleftrightarrow> it_key it = Some k"
  by (auto simp: key_is_def split: option.splits)

lemma array_find_None: "array_find a k = None \<longleftrightarrow> (\<forall>i < total a. it_key (cells a i) \<noteq> Some k)"
  by (simp add: array_find_def loop_simps)

lemma array_find_Some:
  assumes "inj_on (\<lambda>i. it_key (cells a i)) {..<total a}"
  shows "array_find a k = Some i \<longleftrightarrow> i < total a \<and> it_key (cells a i) = Some k"
  using assms unfolding array_find_def find_upt_Some_iff key_is_iff
  by (metis (mono_tags, lifting) inj_onD lessThan_iff order.strict_trans less_irrefl)

lemma array_find_SomeD: "array_find a k = Some i \<Longrightarrow> i < total a \<and> it_key (cells a i) = Some k"
  by (simp add: array_find_def loop_simps)

lemma invD:
  assumes "kvs_array_inv a"
  shows "table_alloc a" "total a \<le> KVS_ARRAY_SIZE"
    "i < total a \<Longrightarrow> \<exists>k v. it_key (cells a i) = Some k \<and> it_value (cells a i) = VStr v"
    "i < total a \<Longrightarrow> j < total a \<Longrightarrow> it_key (cells a i) = it_key (cells a j) \<Longrightarrow> i = j"
    "array_find a k = Some i \<longleftrightarrow> i < total a \<and> it_key (cells a i) = Some k"
  using assms array_find_Some [of a k i]
  by (auto simp: kvs_array_inv_def inj_on_def)

text \<open>The abstract store, read off the used cells.\<close>

lemma abs_Some_iff:
  assumes "kvs_array_inv a"
  shows "kvs_array_abs a k = Some (v, e) \<longleftrightarrow>
    (\<exists>i < total a. cells a i = \<lparr>it_key = Some k, it_value = VStr v, it_expire = e\<rparr>)"
proof
  assume "kvs_array_abs a k = Some (v, e)"
  then obtain i where "array_find a k = Some i" "it_value (cells a i) = VStr v"
    "it_expire (cells a i) = e"
    by (auto simp: kvs_array_abs_def split: option.splits vptr.splits)
  moreover from this invD(5) [OF assms] have "i < total a" "it_key (cells a i) = Some k" by auto
  ultimately show "\<exists>i < total a. cells a i = \<lparr>it_key = Some k, it_value = VStr v, it_expire = e\<rparr>"
    by (intro exI [of _ i]) (auto intro: kvs_array_item.equality)
next
  assume "\<exists>i < total a. cells a i = \<lparr>it_key = Some k, it_value = VStr v, it_expire = e\<rparr>"
  then obtain i where i: "i < total a"
    "cells a i = \<lparr>it_key = Some k, it_value = VStr v, it_expire = e\<rparr>" by blast
  then have "array_find a k = Some i" using invD(5) [OF assms] by simp
  with i show "kvs_array_abs a k = Some (v, e)" by (simp add: kvs_array_abs_def)
qed

lemma abs_None_iff:
  assumes "kvs_array_inv a"
  shows "kvs_array_abs a k = None \<longleftrightarrow> array_find a k = None"
proof (cases "array_find a k")
  case (Some i)
  with invD(5) [OF assms] have "i < total a" by blast
  from invD(3) [OF assms this] Some show ?thesis by (auto simp: kvs_array_abs_def)
qed (simp add: kvs_array_abs_def)

lemma abs_upd_None: "kvs_array_inv a \<Longrightarrow> array_find a k = None \<Longrightarrow>
    kvs_array_abs a k = None \<and> (kvs_array_abs a)(k := None) = kvs_array_abs a"
  by (simp add: abs_None_iff fun_upd_idem_iff)

lemma item_upd:
  "it_key it = Some k \<Longrightarrow> it\<lparr>it_value := VStr v, it_expire := e\<rparr> =
     \<lparr>it_key = Some k, it_value = VStr v, it_expire = e\<rparr>"
  "it_key it = Some k \<Longrightarrow> it\<lparr>it_value := VStr v\<rparr> =
     \<lparr>it_key = Some k, it_value = VStr v, it_expire = it_expire it\<rparr>"
  "it_key it = Some k \<Longrightarrow> it_value it = VStr v \<Longrightarrow> it\<lparr>it_expire := e\<rparr> =
     \<lparr>it_key = Some k, it_value = VStr v, it_expire = e\<rparr>"
  by (cases it; simp)+

lemma abs_find:
  assumes "kvs_array_inv a" "array_find a k = Some i"
  obtains v where "i < total a"
    "it_key (cells a i) = Some k" "it_value (cells a i) = VStr v"
    "kvs_array_abs a k = Some (v, it_expire (cells a i))"
proof -
  from assms invD(5) have i: "i < total a" "it_key (cells a i) = Some k" by blast+
  with invD(3) [OF assms(1)] obtain v where v: "it_value (cells a i) = VStr v" by blast
  with i that [of v] assms(2) show ?thesis
    by (simp add: kvs_array_abs_def)
qed

subsection \<open>Each operation on the abstract store\<close>

text \<open>
  Overwriting the entry of a used cell, appending a cell, and moving the last cell into
  a gap: the three ways the operations change the table.
\<close>

lemma overwrite:
  assumes "kvs_array_inv a" "array_find a k = Some i"
    and "a' = a\<lparr>cells := (cells a)(i := \<lparr>it_key = Some k, it_value = VStr v, it_expire = e\<rparr>)\<rparr>"
  shows "kvs_array_inv a'" "kvs_array_abs a' = (kvs_array_abs a)(k \<mapsto> (v, e))"
proof -
  from assms(1,2) invD(5) have i: "i < total a" "it_key (cells a i) = Some k" by blast+
  have keys: "it_key (cells a' j) = it_key (cells a j)" for j
    using i by (simp add: assms(3))
  have c: "cells a' = (cells a)(i := \<lparr>it_key = Some k, it_value = VStr v, it_expire = e\<rparr>)"
    "total a' = total a"
    by (simp_all add: assms(3))
  show inv: "kvs_array_inv a'"
    using assms(1) keys unfolding kvs_array_inv_def inj_on_def by (auto simp: assms(3))
  show "kvs_array_abs a' = (kvs_array_abs a)(k \<mapsto> (v, e))"
  proof (rule store_eqI)
    fix k' v' e'
    show "kvs_array_abs a' k' = Some (v', e') \<longleftrightarrow>
        ((kvs_array_abs a)(k \<mapsto> (v, e))) k' = Some (v', e')"
    proof (cases "k' = k")
      case True
      with i invD(4) [OF assms(1)] show ?thesis
        unfolding abs_Some_iff [OF inv] by (auto simp: assms(3))
    next
      case False
      with i have "cells a i \<noteq> \<lparr>it_key = Some k', it_value = VStr v', it_expire = e'\<rparr>"
        by (metis kvs_array_item.select_convs(1) option.inject)
      with False show ?thesis
        by (simp add: abs_Some_iff [OF inv] abs_Some_iff [OF assms(1)] c ex_less_upd ex_less_neq
          del: fun_upd_apply) (simp add: abs_Some_iff [OF assms(1)])
    qed
  qed
qed

lemma append_cell:
  assumes "kvs_array_inv a" "array_find a k = None" "total a < KVS_ARRAY_SIZE"
    and "a' = a\<lparr>cells := (cells a)(total a :=
            \<lparr>it_key = Some k, it_value = VStr v, it_expire = e\<rparr>), total := total a + 1\<rparr>"
  shows "kvs_array_inv a'" "kvs_array_abs a' = (kvs_array_abs a)(k \<mapsto> (v, e))"
proof -
  from assms(2) have fresh: "\<And>i. i < total a \<Longrightarrow> it_key (cells a i) \<noteq> Some k"
    by (simp add: array_find_None)
  show inv: "kvs_array_inv a'"
    using assms(1,3) fresh unfolding kvs_array_inv_def inj_on_def
    by (auto simp: assms(4) less_Suc_eq)
  show "kvs_array_abs a' = (kvs_array_abs a)(k \<mapsto> (v, e))"
  proof (rule store_eqI)
    fix k' v' e'
    show "kvs_array_abs a' k' = Some (v', e') \<longleftrightarrow>
        ((kvs_array_abs a)(k \<mapsto> (v, e))) k' = Some (v', e')"
      unfolding abs_Some_iff [OF inv] using fresh assms(4)
      by (auto simp: abs_Some_iff [OF assms(1)] less_Suc_eq) force+
  qed
qed

lemma remove_cell:
  assumes inv: "kvs_array_inv a" and find: "array_find a k = Some i"
    and alloc: "table_alloc a'" and tot: "total a' = total a - 1"
    and cells: "\<And>j. j < total a - 1 \<Longrightarrow>
      cells a' j = (if j = i then cells a (total a - 1) else cells a j)"
  shows "kvs_array_inv a'" "kvs_array_abs a' = (kvs_array_abs a)(k := None)"
proof -
  from inv find invD(5) have i: "i < total a" "it_key (cells a i) = Some k" by blast+
  define n where "n = total a - 1"
  have n: "n < total a" "total a' = n" using i tot by (auto simp: n_def)
  define \<pi> where "\<pi> = (\<lambda>j. if j = i then n else j)"
  have c: "cells a' j = cells a (\<pi> j)" "\<pi> j < total a" "\<pi> j \<noteq> i" if "j < n" for j
    using cells that n i by (auto simp: n_def \<pi>_def)
  have \<pi>_inj: "j = j'" if "\<pi> j = \<pi> j'" "j < n" "j' < n" for j j'
    using that by (auto simp: \<pi>_def split: if_splits)
  have \<pi>_surj: "\<exists>j' < n. \<pi> j' = j" if "j < total a" "j \<noteq> i" for j
  proof (cases "j = n")
    case True
    with that i n show ?thesis by (intro exI [of _ i]) (auto simp: \<pi>_def n_def)
  next
    case False
    with that show ?thesis by (intro exI [of _ j]) (auto simp: \<pi>_def n_def)
  qed
  show inv': "kvs_array_inv a'"
    unfolding kvs_array_inv_def n
  proof (intro conjI allI impI inj_onI)
    show "table_alloc a'" by (rule alloc)
    show "n \<le> KVS_ARRAY_SIZE" using invD(2) [OF inv] n by simp
    fix j assume "j < n"
    with c invD(3) [OF inv] show "it_key (cells a' j) \<noteq> None"
      "\<exists>v. it_value (cells a' j) = VStr v" by (metis option.distinct(1))+
  next
    fix j j' assume "j \<in> {..<n}" "j' \<in> {..<n}" "it_key (cells a' j) = it_key (cells a' j')"
    with c invD(4) [OF inv] \<pi>_inj show "j = j'" by (metis lessThan_iff)
  qed
  show "kvs_array_abs a' = (kvs_array_abs a)(k := None)"
  proof (rule store_eqI)
    fix k' v' e'
    have "(\<exists>j < n. cells a' j = x) \<longleftrightarrow> (\<exists>j < total a. j \<noteq> i \<and> cells a j = x)" for x
      using c \<pi>_surj by metis
    then show "kvs_array_abs a' k' = Some (v', e') \<longleftrightarrow>
        ((kvs_array_abs a)(k := None)) k' = Some (v', e')"
      unfolding abs_Some_iff [OF inv'] n(2) using i invD(4) [OF inv]
      by (auto simp: abs_Some_iff [OF inv])
  qed
qed

lemma array_del_spec:
  assumes "kvs_array_inv a" "kvs_array_del a (Some k) = (r, a')"
  shows "kvs_array_inv a'" "kvs_array_abs a' = (kvs_array_abs a)(k := None)"
    "r = (if kvs_array_abs a k = None then 1 else 0)"
proof -
  have "kvs_array_inv a' \<and> kvs_array_abs a' = (kvs_array_abs a)(k := None) \<and>
    r = (if kvs_array_abs a k = None then 1 else 0)"
  proof (cases "array_find a k")
    case None
    with assms abs_upd_None [OF assms(1) None] show ?thesis
      by (auto simp: kvs_array_del_def)
  next
    case (Some i)
    with invD(5) [OF assms(1)] have i: "i < total a" by blast
    have a': "r = 0" "table_alloc a'" "total a' = total a - 1"
      "\<And>j. j < total a - 1 \<Longrightarrow> cells a' j = (if j = i then cells a (total a - 1) else cells a j)"
      using assms Some i invD(1) by (auto simp: kvs_array_del_def Let_def)
    have "kvs_array_abs a k \<noteq> None" using abs_None_iff [OF assms(1), of k] Some by simp
    with a'(1) remove_cell [OF assms(1) Some a'(2-4)] show ?thesis by simp
  qed
  then show "kvs_array_inv a'" "kvs_array_abs a' = (kvs_array_abs a)(k := None)"
    "r = (if kvs_array_abs a k = None then 1 else 0)" by auto
qed

lemma array_get_spec:
  assumes "kvs_array_inv a" "kvs_array_get now a (Some k) = (p, a')"
  shows "kvs_array_inv a' \<and> p = vptr_of (view now (kvs_array_abs a) k) \<and>
    kvs_array_abs a' = (if p = VNull then (kvs_array_abs a)(k := None) else kvs_array_abs a)"
proof (cases "array_find a k")
  case None
  with assms abs_upd_None [OF assms(1) None] show ?thesis
    by (auto simp: kvs_array_get_def view_def)
next
  case (Some i)
  from abs_find [OF assms(1) Some] obtain v where v: "i < total a"
    "it_key (cells a i) = Some k" "it_value (cells a i) = VStr v"
    "kvs_array_abs a k = Some (v, it_expire (cells a i))" .
  show ?thesis
  proof (cases "expired now (it_expire (cells a i))")
    case True
    with assms Some v invD(1) have a': "p = VNull" "table_alloc a'" "total a' = total a - 1"
      "\<And>j. j < total a - 1 \<Longrightarrow> cells a' j = (if j = i then cells a (total a - 1) else cells a j)"
      by (auto simp: kvs_array_get_def)
    from remove_cell [OF assms(1) Some a'(2-4)] a'(1) v True show ?thesis
      by (simp add: view_def)
  next
    case False
    then have "p = it_value (cells a i)" "a' = a"
      using assms(2) Some by (auto simp: kvs_array_get_def)
    with v False assms(1) show ?thesis by (simp add: view_def)
  qed
qed

lemma array_set_spec:
  assumes "kvs_array_inv a" "kvs_array_set all_ok a (Some k) (Some v) e = (r, a')"
  shows "kvs_array_inv a' \<and>
    (if total a < KVS_ARRAY_SIZE then r = 0 \<and> kvs_array_abs a' = (kvs_array_abs a)(k \<mapsto> (v, e))
     else r = -1 \<and> a' = a)"
proof (cases "total a < KVS_ARRAY_SIZE")
  case True
  show ?thesis
  proof (cases "array_find a k")
    case None
    with assms True have "r = 0" "a' = a\<lparr>cells := (cells a)(total a :=
        \<lparr>it_key = Some k, it_value = VStr v, it_expire = e\<rparr>), total := total a + 1\<rparr>"
      by (auto simp: kvs_array_set_def)
    with append_cell [OF assms(1) None True] True show ?thesis by simp
  next
    case (Some i)
    with invD(5) [OF assms(1)] have "it_key (cells a i) = Some k" by blast
    with assms True Some have "r = 0" "a' = a\<lparr>cells := (cells a)(i :=
        \<lparr>it_key = Some k, it_value = VStr v, it_expire = e\<rparr>)\<rparr>"
      by (auto simp: kvs_array_set_def item_upd)
    with overwrite [OF assms(1) Some] True show ?thesis by simp
  qed
next
  case False
  with assms show ?thesis by (simp add: kvs_array_set_def)
qed

lemma array_mod_spec:
  assumes "kvs_array_inv a" "kvs_array_mod all_ok a (Some k) (Some v) = (r, a')"
  shows "kvs_array_inv a' \<and> (case kvs_array_abs a k of
       None \<Rightarrow> 0 < r \<and> kvs_array_abs a' = kvs_array_abs a
     | Some (v0, e) \<Rightarrow> r = 0 \<and> kvs_array_abs a' = (kvs_array_abs a)(k \<mapsto> (v, e)))"
proof (cases "array_find a k")
  case None
  with assms abs_None_iff [OF assms(1), of k] show ?thesis
    by (auto simp: kvs_array_mod_def KVS_ARRAY_SIZE_def split: if_splits)
next
  case (Some i)
  from abs_find [OF assms(1) Some] obtain v0 where v: "i < total a"
    "it_key (cells a i) = Some k" "it_value (cells a i) = VStr v0"
    "kvs_array_abs a k = Some (v0, it_expire (cells a i))" .
  with assms Some have "r = 0" "a' = a\<lparr>cells := (cells a)(i :=
        \<lparr>it_key = Some k, it_value = VStr v, it_expire = it_expire (cells a i)\<rparr>)\<rparr>"
    by (auto simp: kvs_array_mod_def item_upd)
  with overwrite [OF assms(1) Some] v(4) show ?thesis by simp
qed

lemma array_expire_spec:
  assumes "kvs_array_inv a" "kvs_array_expire a (Some k) e = (r, a')"
  shows "kvs_array_inv a' \<and> (case kvs_array_abs a k of
       None \<Rightarrow> r = 1 \<and> kvs_array_abs a' = kvs_array_abs a
     | Some (v, e0) \<Rightarrow> r = 0 \<and>
         kvs_array_abs a' = (kvs_array_abs a)(k := if e = 0 then None else Some (v, e)))"
proof (cases "array_find a k")
  case None
  with assms abs_None_iff [OF assms(1), of k] show ?thesis
    by (auto simp: kvs_array_expire_def)
next
  case (Some i)
  from abs_find [OF assms(1) Some] obtain v where v: "i < total a"
    "it_key (cells a i) = Some k" "it_value (cells a i) = VStr v"
    "kvs_array_abs a k = Some (v, it_expire (cells a i))" .
  show ?thesis
  proof (cases "e = 0")
    case True
    with assms(2) Some have "kvs_array_del a (Some k) = (r, a')"
      by (simp add: kvs_array_expire_def)
    from array_del_spec [OF assms(1) this] v(4) True show ?thesis by simp
  next
    case False
    with assms Some v have "r = 0" "a' = a\<lparr>cells := (cells a)(i :=
          \<lparr>it_key = Some k, it_value = VStr v, it_expire = e\<rparr>)\<rparr>"
      by (auto simp: kvs_array_expire_def item_upd)
    with overwrite [OF assms(1) Some] v(4) False show ?thesis by simp
  qed
qed

lemma array_exist_spec:
  assumes "kvs_array_inv a"
  shows "kvs_array_exist now a (Some k) = (if view now (kvs_array_abs a) k = None then 1 else 0)"
proof (cases "array_find a k")
  case None
  with abs_None_iff [OF assms, of k] show ?thesis by (simp add: kvs_array_exist_def view_def)
next
  case (Some i)
  from abs_find [OF assms Some] obtain v where
    "kvs_array_abs a k = Some (v, it_expire (cells a i))" .
  with Some show ?thesis by (simp add: kvs_array_exist_def view_def)
qed

lemma array_ttl_spec:
  assumes "kvs_array_inv a"
  shows "kvs_array_ttl now a (Some k) =
    (case kvs_array_abs a k of None \<Rightarrow> -2 | Some (v, e) \<Rightarrow> ttl_of now e)"
proof (cases "array_find a k")
  case None
  with abs_None_iff [OF assms, of k] show ?thesis by (simp add: kvs_array_ttl_def)
next
  case (Some i)
  from abs_find [OF assms Some] obtain v where
    "kvs_array_abs a k = Some (v, it_expire (cells a i))" .
  with Some show ?thesis by (simp add: kvs_array_ttl_def)
qed

text \<open>
  The downward scan: when it reaches index \<open>n\<close> every cell above has been kept because
  it has not expired, and such a cell is what a deletion moves into the gap.
\<close>

lemma scan_step_spec:
  assumes "kvs_array_inv a" "n < total a"
    and "\<forall>j. n < j \<and> j < total a \<longrightarrow> \<not> expired now (it_expire (cells a j))"
    and "a' = array_scan_step now n a"
  shows "kvs_array_inv a'" "purge now (kvs_array_abs a') = purge now (kvs_array_abs a)"
    "n \<le> total a'" "\<forall>j. n \<le> j \<and> j < total a' \<longrightarrow> \<not> expired now (it_expire (cells a' j))"
proof -
  obtain k v where kv: "it_key (cells a n) = Some k" "it_value (cells a n) = VStr v"
    using invD(3) [OF assms(1,2)] by blast
  with invD(5) [OF assms(1)] assms(2) have find: "array_find a k = Some n" by simp
  with kv have abs: "kvs_array_abs a k = Some (v, it_expire (cells a n))"
    by (simp add: kvs_array_abs_def)
  have "kvs_array_inv a' \<and> purge now (kvs_array_abs a') = purge now (kvs_array_abs a) \<and>
    n \<le> total a' \<and> (\<forall>j. n \<le> j \<and> j < total a' \<longrightarrow> \<not> expired now (it_expire (cells a' j)))"
  proof (cases "expired now (it_expire (cells a n))")
    case True
    obtain r where del: "kvs_array_del a (Some k) = (r, a')"
      using assms(4) kv True by (cases "kvs_array_del a (Some k)") (simp add: array_scan_step_def)
    with find have tot: "total a' = total a - 1"
      and cell: "\<And>j. j < total a - 1 \<Longrightarrow>
        cells a' j = (if j = n then cells a (total a - 1) else cells a j)"
      using assms(2) by (auto simp: kvs_array_del_def Let_def)
    have "\<not> expired now (it_expire (cells a' j))" if "n \<le> j" "j < total a'" for j
      using that tot cell [of j] assms(2,3) by (cases "j = n") auto
    with array_del_spec [OF assms(1) del] purge_del_expired [of "kvs_array_abs a", OF abs True] tot assms(2)
    show ?thesis by auto
  next
    case False
    with assms kv show ?thesis by (auto simp: array_scan_step_def le_less)
  qed
  then show "kvs_array_inv a'" "purge now (kvs_array_abs a') = purge now (kvs_array_abs a)"
    "n \<le> total a'" "\<forall>j. n \<le> j \<and> j < total a' \<longrightarrow> \<not> expired now (it_expire (cells a' j))"
    by blast+
qed

lemma scan_down:
  assumes "kvs_array_inv a" "n \<le> total a"
    and "\<forall>j. n \<le> j \<and> j < total a \<longrightarrow> \<not> expired now (it_expire (cells a j))"
    and "a' = fold (array_scan_step now) (rev [0..<n]) a"
  shows "kvs_array_inv a' \<and> purge now (kvs_array_abs a') = purge now (kvs_array_abs a) \<and>
    (\<forall>j < total a'. \<not> expired now (it_expire (cells a' j)))"
  using assms
proof (induction n arbitrary: a)
  case 0
  then show ?case by auto
next
  case (Suc n)
  let ?b = "array_scan_step now n a"
  have st: "kvs_array_inv ?b" "purge now (kvs_array_abs ?b) = purge now (kvs_array_abs a)"
    "n \<le> total ?b" "\<forall>j. n \<le> j \<and> j < total ?b \<longrightarrow> \<not> expired now (it_expire (cells ?b j))"
    using scan_step_spec [OF Suc.prems(1), of n now ?b] Suc.prems(2,3)
    by (auto simp: Suc_le_eq)
  from Suc.IH [OF st(1,3,4)] Suc.prems(4) st(2) show ?case by simp
qed

lemma array_scan_spec:
  assumes "kvs_array_inv a"
  shows "kvs_array_inv (kvs_array_scan_expired now a) \<and>
    kvs_array_abs (kvs_array_scan_expired now a) = purge now (kvs_array_abs a)"
proof -
  let ?b = "kvs_array_scan_expired now a"
  have "\<forall>j. total a \<le> j \<and> j < total a \<longrightarrow> \<not> expired now (it_expire (cells a j))" by auto
  from scan_down [OF assms order_refl this kvs_array_scan_expired_def]
  have b: "kvs_array_inv ?b" "purge now (kvs_array_abs ?b) = purge now (kvs_array_abs a)"
    "\<forall>j < total ?b. \<not> expired now (it_expire (cells ?b j))"
    by blast+
  have "purge now (kvs_array_abs ?b) = kvs_array_abs ?b"
    by (rule store_eqI) (use b(1,3) in \<open>auto simp: purge_Some_iff abs_Some_iff\<close>)
  with b show ?thesis by simp
qed

text \<open>What the commands can ask of this engine, as one step function.\<close>

definition array_call :: "kv_call \<Rightarrow> kvs_array \<Rightarrow> kv_res \<times> kvs_array" where
  "array_call = kv_dispatch
     (\<lambda>a k v e. kvs_array_set all_ok a (Some k) (Some v) e)
     (\<lambda>now a k. kvs_array_get now a (Some k))
     (\<lambda>a k. kvs_array_del a (Some k))
     (\<lambda>now a k v. kvs_array_mod all_ok a (Some k) (Some v))
     (\<lambda>now a k. (kvs_array_exist now a (Some k), a))
     (\<lambda>a k e. kvs_array_expire a (Some k) e)
     (\<lambda>now a k. kvs_array_ttl now a (Some k))"

interpretation arr: kv_scanned "\<lambda>_. True" kvs_array_inv kvs_array_abs
  "\<lambda>a k v e. kvs_array_set all_ok a (Some k) (Some v) e"
  "\<lambda>now a k. kvs_array_get now a (Some k)"
  "\<lambda>a k. kvs_array_del a (Some k)"
  "\<lambda>now a k v. kvs_array_mod all_ok a (Some k) (Some v)"
  "\<lambda>now a k. (kvs_array_exist now a (Some k), a)"
  "\<lambda>a k e. kvs_array_expire a (Some k) e"
  "\<lambda>now a k. kvs_array_ttl now a (Some k)"
  kvs_array_scan_expired
proof (unfold_locales, goal_cases)
  case (1 s k v e r s')
  from array_set_spec [OF 1(1,3)] show ?case by (auto simp: same_vals_def split: if_splits)
next
  case (2 s k now p s')
  from array_get_spec [OF 2(1,3)] show ?case by (auto simp: same_vals_def)
next
  case (3 s k r s')
  from array_del_spec [OF 3(1,3)] show ?case by (auto simp: same_vals_def)
next
  case (4 s k now v r s')
  from array_mod_spec [OF 4(1,3)] show ?case
    by (auto simp: same_vals_def split: option.splits)
next
  case (5 s k now r s')
  then show ?case by (auto simp: array_exist_spec)
next
  case (6 s k e r s')
  from array_expire_spec [OF 6(1,3)] show ?case
    by (auto simp: same_vals_def split: option.splits)
next
  case (7 s k now)
  then show ?case by (simp add: array_ttl_spec)
next
  case (8 s k v e r s')
  from array_set_spec [OF 8(1,3)] show ?case by (auto split: if_splits)
next
  case (9 s now k p s')
  from array_get_spec [OF 9(1,3)] show ?case by auto
next
  case (10 s k r s')
  from array_del_spec [OF 10(1,3)] show ?case by simp
next
  case (11 s now k v r s')
  from array_mod_spec [OF 11(1,3)] show ?case by (auto split: option.splits)
next
  case (12 s now k r s')
  then show ?case by auto
next
  case (13 s k e r s')
  from array_expire_spec [OF 13(1,3)] show ?case by (auto split: option.splits)
next
  case (14 s now)
  then show ?case by (rule array_scan_spec)
qed

subsection \<open>Properties\<close>

lemma array_create_inv:
  assumes "\<not> table_alloc a"
  shows "fst (kvs_array_create all_ok a) = 0" "kvs_array_inv (snd (kvs_array_create all_ok a))"
    "kvs_array_abs (snd (kvs_array_create all_ok a)) = Map.empty"
  using assms
  by (auto simp: kvs_array_create_def kvs_array_inv_def kvs_array_abs_def array_find_def fun_eq_iff)

lemma fresh_array:
  "kvs_array_inv (snd (kvs_array_create all_ok zero_array))"
  "kvs_array_abs (snd (kvs_array_create all_ok zero_array)) = Map.empty"
  using array_create_inv [of zero_array] by (simp_all add: zero_array_def)

lemma array_call_inv: "kvs_array_inv a \<Longrightarrow> kvs_array_inv (snd (array_call c a))"
  using arr.call_refines [of a c "fst (array_call c a)" "snd (array_call c a)"]
  by (simp add: array_call_def)

text \<open>C17: every sequence of calls on an array engine gives results the abstract key-value
  store allows, and leaves the engine well formed and representing the abstract store the
  sequence leads to.\<close>

theorem array_refines_store:
  assumes "kvs_array_inv a" "run_calls array_call cs a = (rs, a')"
  shows "kvs_array_inv a' \<and> spec_run (kvs_array_abs a) cs rs (kvs_array_abs a')"
  using arr.run_refines [OF assms(1), of cs] assms(2) by (simp add: array_call_def)

theorem array_refines_store_witness:
  "\<exists>a'. run_calls array_call [KSet ''k'' ''v'' (-1), KGet 5 ''k'', KDel ''k'', KGet 5 ''k'']
       (snd (kvs_array_create all_ok zero_array)) =
       ([RInt 0, RPtr (VStr ''v''), RInt 0, RPtr VNull], a') \<and>
     kvs_array_inv a' \<and> spec_run Map.empty
       [KSet ''k'' ''v'' (-1), KGet 5 ''k'', KDel ''k'', KGet 5 ''k'']
       [RInt 0, RPtr (VStr ''v''), RInt 0, RPtr VNull] (kvs_array_abs a')"
proof -
  let ?a = "snd (kvs_array_create all_ok zero_array)"
  obtain a' where "run_calls array_call
      [KSet ''k'' ''v'' (-1), KGet 5 ''k'', KDel ''k'', KGet 5 ''k''] ?a =
      ([RInt 0, RPtr (VStr ''v''), RInt 0, RPtr VNull], a')"
    by (simp add: array_call_def kv_dispatch_def kvs_array_set_def kvs_array_get_def
      kvs_array_del_def array_find_def kvs_array_create_def zero_array_def KVS_ARRAY_SIZE_def
      Let_def)
  with array_refines_store [OF fresh_array(1) this] fresh_array(2) show ?thesis by auto
qed

text \<open>C21: the expiry scan of the array engine removes exactly the expired entries, so that
  no get can tell whether the scan has run.\<close>

theorem array_scan_exact:
  assumes "kvs_array_inv a"
  shows "kvs_array_abs (kvs_array_scan_expired now a) = purge now (kvs_array_abs a) \<and>
    fst (kvs_array_get now (kvs_array_scan_expired now a) (Some k)) =
    fst (kvs_array_get now a (Some k))"
  using arr.scan_law [OF assms] arr.scan_invisible [OF assms] by simp

theorem array_scan_exact_witness:
  "let a = snd (array_call (KSet ''y'' ''2'' 10) (snd (array_call (KSet ''x'' ''1'' 3)
      (snd (kvs_array_create all_ok zero_array))))) in
    total a = 2 \<and> total (kvs_array_scan_expired 5 a) = 1 \<and>
    fst (kvs_array_get 5 (kvs_array_scan_expired 5 a) (Some ''y'')) =
    fst (kvs_array_get 5 a (Some ''y''))"
proof -
  let ?c = "snd (kvs_array_create all_ok zero_array)"
  let ?a = "snd (array_call (KSet ''y'' ''2'' 10) (snd (array_call (KSet ''x'' ''1'' 3) ?c)))"
  have "kvs_array_inv ?a" by (intro array_call_inv fresh_array)
  from array_scan_exact [OF this, of 5 "''y''"] show ?thesis
    by (simp add: array_call_def kv_dispatch_def kvs_array_set_def kvs_array_del_def
      kvs_array_scan_expired_def array_scan_step_def expired_def
      array_find_def kvs_array_create_def zero_array_def KVS_ARRAY_SIZE_def Let_def
      upt_conv_Cons numeral_2_eq_2)
qed

text \<open>once the table is full a set is refused for every key, also for a key that is
  stored already and would only be overwritten; the table is left as it was.\<close>

theorem array_set_full:
  "total a = KVS_ARRAY_SIZE \<Longrightarrow> kvs_array_set mok a key value e = (-1, a)"
  by (auto simp: kvs_array_set_def split: option.splits)

theorem array_set_full_witness:
  "kvs_array_set all_ok (zero_array\<lparr>total := KVS_ARRAY_SIZE\<rparr>) (Some ''k'') (Some ''v'') 0 =
     (-1, zero_array\<lparr>total := KVS_ARRAY_SIZE\<rparr>)"
  by (rule array_set_full) simp

text \<open>when the allocation of the new value fails, \<open>kvs_array_mod\<close> has already freed the
  old one and leaves the entry pointing at it: the next get returns a dangling pointer.\<close>

theorem array_mod_dangling:
  assumes "kvs_array_inv a" "kvs_array_abs a k = Some (v0, e)" "\<not> expired now e" "\<not> mok 0"
    and "kvs_array_mod mok a (Some k) (Some v) = (r, a')"
  shows "r = -2 \<and> fst (kvs_array_get now a' (Some k)) = VFreed"
proof -
  from abs_None_iff [OF assms(1), of k] assms(2) obtain i where i: "array_find a k = Some i"
    by (cases "array_find a k") auto
  from abs_find [OF assms(1) i] have ix: "i < total a" "it_key (cells a i) = Some k"
    "it_expire (cells a i) = e" using assms(2) by auto
  from assms(4,5) i ix have r: "r = -2"
    and c: "cells a' = (cells a)(i := (cells a i)\<lparr>it_value := VFreed\<rparr>)" "total a' = total a"
    by (auto simp: kvs_array_mod_def)
  have "array_find a' k = array_find a k"
    by (simp add: array_find_def c) (rule arg_cong [where f = "\<lambda>P. find P _"], auto)
  with r i ix c assms(3) show ?thesis by (simp add: kvs_array_get_def)
qed

theorem array_mod_dangling_witness:
  "let a = snd (array_call (KSet ''k'' ''v'' (-1)) (snd (kvs_array_create all_ok zero_array)));
       a' = snd (kvs_array_mod (\<lambda>_. False) a (Some ''k'') (Some ''w''))
   in fst (kvs_array_get 7 a' (Some ''k'')) = VFreed"
proof -
  let ?c = "snd (kvs_array_create all_ok zero_array)"
  let ?a = "snd (array_call (KSet ''k'' ''v'' (-1)) ?c)"
  have a: "kvs_array_inv ?a" by (intro array_call_inv fresh_array)
  have k: "kvs_array_abs ?a ''k'' = Some (''v'', -1)"
    by (simp add: array_call_def kv_dispatch_def kvs_array_set_def kvs_array_abs_def
      array_find_def kvs_array_create_def zero_array_def KVS_ARRAY_SIZE_def)
  show ?thesis
    using array_mod_dangling [OF a k _ _ surjective_pairing, of 7 "\<lambda>_. False" "''w''"]
    by (simp add: Let_def)
qed

end
