(* ===== verification/KVS_Hash.thy ===== *)
theory KVS_Hash
  imports KVS_Engine
begin

text \<open>
  The hash engine (\<open>kvs_hash.c\<close>): \<open>MAX_TABLE_SIZE\<close> buckets, each a singly linked chain
  that only its bucket owns, so a chain is a list of nodes. A bucket pointer is \<open>None\<close>
  when it has never been written (\<open>kvs_hash_create\<close> does not clear the memory it gets)
  or dangles; following it, or indexing the table outside its bounds, is undefined in C
  and gives \<open>None\<close> here.
\<close>

subsection \<open>Data and operations\<close>

record hashnode =
  hn_key :: string
  hn_value :: vptr
  hn_expire :: int

record hashtable =
  nodes :: "nat \<Rightarrow> hashnode list option"
  max_slots :: int
  hcount :: int

text \<open>The zero-initialised \<open>global_hash\<close>: its table pointer is NULL.\<close>

definition zero_hash :: hashtable where
  "zero_hash = \<lparr>nodes = (\<lambda>_. None), max_slots = 0, hcount = 0\<rparr>"

definition MAX_TABLE_SIZE :: int where
  "MAX_TABLE_SIZE = 1024"

text \<open>\<open>_hash\<close>: the wrapped sum of the key's (signed) characters, reduced with C's \<open>%\<close>.\<close>

definition hash_fn :: "cptr \<Rightarrow> int \<Rightarrow> int" where
  "hash_fn key sz = (case key of None \<Rightarrow> -1
     | Some k \<Rightarrow> c_rem (foldl (\<lambda>sum c. int_wrap (sum + schar c)) 0 k) sz)"

definition create_node :: "mallocs \<Rightarrow> string \<Rightarrow> string \<Rightarrow> int \<Rightarrow> hashnode option" where
  "create_node mok key value junk =
     (if \<not> mok 0 then None
      else if \<not> mok 1 then None
      else if \<not> mok 2 then None
      else Some \<lparr>hn_key = key, hn_value = VStr value, hn_expire = junk\<rparr>)"

definition kvs_hash_create ::
    "mallocs \<Rightarrow> (nat \<Rightarrow> hashnode list option) \<Rightarrow> hashtable \<Rightarrow> int \<times> hashtable" where
  "kvs_hash_create mok region h =
     (if \<not> mok 0 then (-1, h)
      else (0, h\<lparr>nodes := region, max_slots := MAX_TABLE_SIZE, hcount := 0\<rparr>))"

text \<open>After the table itself is freed every bucket pointer is gone.\<close>

definition kvs_hash_destory :: "hashtable \<Rightarrow> hashtable option" where
  "kvs_hash_destory h =
     (if list_all (\<lambda>i. nodes h i \<noteq> None) [0..<nat (max_slots h)]
      then Some (h\<lparr>nodes := (\<lambda>_. None)\<rparr>) else None)"

definition slot :: "hashtable \<Rightarrow> int \<Rightarrow> hashnode list option" where
  "slot h idx = (if 0 \<le> idx \<and> idx < MAX_TABLE_SIZE then nodes h (nat idx) else None)"

definition put_slot :: "hashtable \<Rightarrow> int \<Rightarrow> hashnode list \<Rightarrow> hashtable" where
  "put_slot h idx ch = h\<lparr>nodes := (nodes h)(nat idx \<mapsto> ch)\<rparr>"

definition chain_find :: "hashnode list \<Rightarrow> string \<Rightarrow> hashnode option" where
  "chain_find ch key = find (\<lambda>n. strcmp (hn_key n) key = 0) ch"

text \<open>Writing through the pointer to the first node with the key, and unlinking that node.\<close>

primrec chain_update :: "(hashnode \<Rightarrow> hashnode) \<Rightarrow> string \<Rightarrow> hashnode list \<Rightarrow> hashnode list" where
  "chain_update f key [] = []"
| "chain_update f key (n # ch) =
     (if strcmp (hn_key n) key = 0 then f n # ch else n # chain_update f key ch)"

primrec chain_remove :: "string \<Rightarrow> hashnode list \<Rightarrow> hashnode list" where
  "chain_remove key [] = []"
| "chain_remove key (n # ch) =
     (if strcmp (hn_key n) key = 0 then ch else n # chain_remove key ch)"

definition kvs_hash_set ::
    "mallocs \<Rightarrow> hashtable \<Rightarrow> cptr \<Rightarrow> cptr \<Rightarrow> int \<Rightarrow> (int \<times> hashtable) option" where
  "kvs_hash_set mok h key value expire_ms =
     (case (key, value) of
        (Some k, Some v) \<Rightarrow>
          (let idx = hash_fn key MAX_TABLE_SIZE in
           case slot h idx of None \<Rightarrow> None
           | Some ch \<Rightarrow>
              (case chain_find ch k of
                 Some node \<Rightarrow>
                   if \<not> mok 0
                   then Some (-2, put_slot h idx
                          (chain_update (\<lambda>n. n\<lparr>hn_value := VNull\<rparr>) k ch))
                   else Some (0, put_slot h idx
                          (chain_update (\<lambda>n. n\<lparr>hn_value := VStr v, hn_expire := expire_ms\<rparr>) k ch))
               | None \<Rightarrow>
                   (case create_node mok k v 0 of
                      None \<Rightarrow> Some (-2, h)
                    | Some new_node \<Rightarrow>
                        Some (0, (put_slot h idx (new_node\<lparr>hn_expire := expire_ms\<rparr> # ch))
                                   \<lparr>hcount := int_wrap (hcount h + 1)\<rparr>))))
      | _ \<Rightarrow> Some (-1, h))"

definition kvs_hash_get :: "int \<Rightarrow> hashtable \<Rightarrow> cptr \<Rightarrow> (vptr \<times> hashtable) option" where
  "kvs_hash_get now h key =
     (case key of None \<Rightarrow> Some (VNull, h)
      | Some k \<Rightarrow>
         (let idx = hash_fn key MAX_TABLE_SIZE in
          case slot h idx of None \<Rightarrow> None
          | Some ch \<Rightarrow>
             (case chain_find ch k of
                None \<Rightarrow> Some (VNull, h)
              | Some node \<Rightarrow>
                  if expired now (hn_expire node)
                  then Some (VNull, (put_slot h idx (chain_remove k ch))
                                      \<lparr>hcount := int_wrap (hcount h - 1)\<rparr>)
                  else Some (hn_value node, h))))"

definition kvs_hash_del :: "hashtable \<Rightarrow> cptr \<Rightarrow> (int \<times> hashtable) option" where
  "kvs_hash_del h key =
     (case key of None \<Rightarrow> Some (-2, h)
      | Some k \<Rightarrow>
         (let idx = hash_fn key MAX_TABLE_SIZE in
          case slot h idx of None \<Rightarrow> None
          | Some ch \<Rightarrow>
             (case chain_find ch k of
                None \<Rightarrow> Some (1, h)
              | Some node \<Rightarrow> Some (0, (put_slot h idx (chain_remove k ch))
                                       \<lparr>hcount := int_wrap (hcount h - 1)\<rparr>))))"

text \<open>
  \<open>kvs_hash_mod\<close> does not test its value pointer: with NULL it reaches \<open>strlen(NULL)\<close>
  once it has found a live node.
\<close>

definition kvs_hash_mod ::
    "mallocs \<Rightarrow> int \<Rightarrow> hashtable \<Rightarrow> cptr \<Rightarrow> cptr \<Rightarrow> (int \<times> hashtable) option" where
  "kvs_hash_mod mok now h key value =
     (case key of None \<Rightarrow> Some (-1, h)
      | Some k \<Rightarrow>
         (let idx = hash_fn key MAX_TABLE_SIZE in
          case slot h idx of None \<Rightarrow> None
          | Some ch \<Rightarrow>
             (case chain_find ch k of
                None \<Rightarrow> Some (1, h)
              | Some node \<Rightarrow>
                  if expired now (hn_expire node)
                  then map_option (\<lambda>(r, h'). (1, h')) (kvs_hash_del h key)
                  else (case value of None \<Rightarrow> None
                        | Some v \<Rightarrow>
                           if \<not> mok 0
                           then Some (-2, put_slot h idx
                                  (chain_update (\<lambda>n. n\<lparr>hn_value := VFreed\<rparr>) k ch))
                           else Some (0, put_slot h idx
                                  (chain_update (\<lambda>n. n\<lparr>hn_value := VStr v\<rparr>) k ch))))))"

definition kvs_hash_count :: "hashtable \<Rightarrow> int" where
  "kvs_hash_count h = hcount h"

definition kvs_hash_exist :: "int \<Rightarrow> hashtable \<Rightarrow> cptr \<Rightarrow> int option" where
  "kvs_hash_exist now h key =
     (case key of None \<Rightarrow> Some (-1)
      | Some k \<Rightarrow>
         (case slot h (hash_fn key MAX_TABLE_SIZE) of None \<Rightarrow> None
          | Some ch \<Rightarrow>
             (case chain_find ch k of
                None \<Rightarrow> Some 1
              | Some node \<Rightarrow> if expired now (hn_expire node) then Some 1 else Some 0)))"

definition kvs_hash_expire :: "hashtable \<Rightarrow> cptr \<Rightarrow> int \<Rightarrow> (int \<times> hashtable) option" where
  "kvs_hash_expire h key expire_ms =
     (case key of None \<Rightarrow> Some (-1, h)
      | Some k \<Rightarrow>
         (let idx = hash_fn key MAX_TABLE_SIZE in
          case slot h idx of None \<Rightarrow> None
          | Some ch \<Rightarrow>
             (case chain_find ch k of
                None \<Rightarrow> Some (1, h)
              | Some node \<Rightarrow>
                  if expire_ms = 0 then kvs_hash_del h key
                  else Some (0, put_slot h idx
                         (chain_update (\<lambda>n. n\<lparr>hn_expire := expire_ms\<rparr>) k ch)))))"

definition kvs_hash_ttl :: "int \<Rightarrow> hashtable \<Rightarrow> cptr \<Rightarrow> int option" where
  "kvs_hash_ttl now h key =
     (case key of None \<Rightarrow> Some (-2)
      | Some k \<Rightarrow>
         (case slot h (hash_fn key MAX_TABLE_SIZE) of None \<Rightarrow> None
          | Some ch \<Rightarrow>
             (case chain_find ch k of
                None \<Rightarrow> Some (-2)
              | Some node \<Rightarrow> Some (ttl_of now (hn_expire node)))))"

text \<open>The scan: the walk over one chain, which also counts down, and the loop over the slots.\<close>

primrec scan_chain :: "int \<Rightarrow> hashnode list \<Rightarrow> int \<Rightarrow> hashnode list \<times> int" where
  "scan_chain now [] cnt = ([], cnt)"
| "scan_chain now (n # ch) cnt =
     (if expired now (hn_expire n) then scan_chain now ch (int_wrap (cnt - 1))
      else let (ch', cnt') = scan_chain now ch cnt in (n # ch', cnt'))"

definition scan_slot :: "int \<Rightarrow> nat \<Rightarrow> hashtable option \<Rightarrow> hashtable option" where
  "scan_slot now i oh =
     (case oh of None \<Rightarrow> None
      | Some h \<Rightarrow>
         (case nodes h i of None \<Rightarrow> None
          | Some ch \<Rightarrow>
             let (ch', cnt) = scan_chain now ch (hcount h)
             in Some ((put_slot h (int i) ch')\<lparr>hcount := cnt\<rparr>)))"

definition kvs_hash_scan_expired :: "int \<Rightarrow> hashtable \<Rightarrow> hashtable option" where
  "kvs_hash_scan_expired now h = fold (scan_slot now) [0..<nat (max_slots h)] (Some h)"

subsection \<open>Invariant and abstraction\<close>

abbreviation bucket :: "string \<Rightarrow> int" where
  "bucket k \<equiv> hash_fn (Some k) MAX_TABLE_SIZE"

text \<open>The keys that index the table inside its bounds.\<close>

definition hash_key_ok :: "string \<Rightarrow> bool" where
  "hash_key_ok k \<longleftrightarrow> 0 \<le> bucket k"

text \<open>A chain of bucket \<open>i\<close>: keys that hash there, no key twice, every value present.\<close>

definition wf_chain :: "nat \<Rightarrow> hashnode list \<Rightarrow> bool" where
  "wf_chain i ch \<longleftrightarrow> distinct (map hn_key ch) \<and>
     (\<forall>n \<in> set ch. bucket (hn_key n) = int i \<and> (\<exists>v. hn_value n = VStr v))"

definition hash_size :: "hashtable \<Rightarrow> nat" where
  "hash_size h = (\<Sum>i < 1024. length (the (nodes h i)))"

definition kvs_hash_inv :: "hashtable \<Rightarrow> bool" where
  "kvs_hash_inv h \<longleftrightarrow> max_slots h = MAX_TABLE_SIZE \<and>
     (\<forall>i < 1024. \<exists>ch. nodes h i = Some ch \<and> wf_chain i ch) \<and>
     hcount h = int_wrap (int (hash_size h))"

definition chain_look :: "hashnode list \<Rightarrow> store" where
  "chain_look ch k = (case chain_find ch k of None \<Rightarrow> None
     | Some n \<Rightarrow> (case hn_value n of VStr v \<Rightarrow> Some (v, hn_expire n) | _ \<Rightarrow> None))"

definition kvs_hash_abs :: "hashtable \<Rightarrow> store" where
  "kvs_hash_abs h k = (case slot h (bucket k) of None \<Rightarrow> None | Some ch \<Rightarrow> chain_look ch k)"

lemma c_rem_less: "0 < b \<Longrightarrow> c_rem a b < b"
proof -
  assume b: "0 < b"
  then have "0 \<le> \<bar>a\<bar> mod b" "\<bar>a\<bar> mod b < b" by simp_all
  with b show ?thesis by (cases a "0::int" rule: linorder_cases) (simp_all add: c_rem_def)
qed

lemma bucket_less: "bucket k < MAX_TABLE_SIZE"
  by (simp add: hash_fn_def MAX_TABLE_SIZE_def c_rem_less)

lemma slot_ok:
  assumes "kvs_hash_inv h" "hash_key_ok k"
  obtains ch where "slot h (bucket k) = Some ch" "nodes h (nat (bucket k)) = Some ch"
    "wf_chain (nat (bucket k)) ch" "nat (bucket k) < 1024"
proof -
  have b: "0 \<le> bucket k" "bucket k < MAX_TABLE_SIZE" "nat (bucket k) < 1024"
    using assms(2) bucket_less [of k] by (auto simp: hash_key_ok_def MAX_TABLE_SIZE_def)
  with assms(1) obtain ch where "nodes h (nat (bucket k)) = Some ch" "wf_chain (nat (bucket k)) ch"
    unfolding kvs_hash_inv_def by blast
  with b that show ?thesis by (simp add: slot_def)
qed

subsection \<open>Chains\<close>

lemma chain_find_Some:
  "distinct (map hn_key ch) \<Longrightarrow> chain_find ch k = Some n \<longleftrightarrow> n \<in> set ch \<and> hn_key n = k"
  unfolding chain_find_def by (induction ch) force+

lemma chain_find_None: "chain_find ch k = None \<longleftrightarrow> k \<notin> hn_key ` set ch"
  unfolding chain_find_def by (auto simp: find_None_iff)

lemma chain_find_SomeD: "chain_find ch k = Some n \<Longrightarrow> n \<in> set ch \<and> hn_key n = k"
  unfolding chain_find_def by (auto simp: find_Some_iff)

lemma chain_look_find:
  assumes "wf_chain i ch"
  shows "chain_find ch k = None \<Longrightarrow> chain_look ch k = None"
    "chain_find ch k = Some n \<Longrightarrow> \<exists>v. hn_value n = VStr v \<and> chain_look ch k = Some (v, hn_expire n)"
  using assms chain_find_SomeD [of ch k n] by (auto simp: chain_look_def wf_chain_def)

lemma chain_update_keys:
  "(\<And>n. hn_key (f n) = hn_key n) \<Longrightarrow> map hn_key (chain_update f k ch) = map hn_key ch"
  by (induction ch) auto

lemma chain_find_update:
  assumes "\<And>n. hn_key (f n) = hn_key n"
  shows "chain_find (chain_update f k ch) k' =
    (if k' = k then map_option f (chain_find ch k) else chain_find ch k')"
  using assms by (induction ch) (auto simp: chain_find_def)

lemma set_chain_update: "set (chain_update f k ch) \<subseteq> f ` set ch \<union> set ch"
  by (induction ch) auto

lemma length_chain_update [simp]: "length (chain_update f k ch) = length ch"
  by (induction ch) auto

lemma chain_update_spec:
  assumes "wf_chain i ch" "chain_find ch k = Some n"
    and f: "\<And>n. hn_key (f n) = hn_key n" "\<And>n. (\<exists>v. hn_value n = VStr v) \<Longrightarrow> \<exists>v. hn_value (f n) = VStr v"
    and y: "hn_value (f n) = VStr v" "hn_expire (f n) = e"
  shows "wf_chain i (chain_update f k ch)"
    "chain_look (chain_update f k ch) = (chain_look ch)(k \<mapsto> (v, e))"
proof -
  show "wf_chain i (chain_update f k ch)"
    unfolding wf_chain_def chain_update_keys [of f k ch, OF f(1)]
  proof (intro conjI ballI)
    show "distinct (map hn_key ch)" using assms(1) by (simp add: wf_chain_def)
    fix x assume "x \<in> set (chain_update f k ch)"
    then have "x \<in> f ` set ch \<union> set ch" using set_chain_update by blast
    then obtain y where y: "y \<in> set ch" "x = f y \<or> x = y" by blast
    with assms(1) have "bucket (hn_key y) = int i" "\<exists>v. hn_value y = VStr v"
      by (auto simp: wf_chain_def)
    with y(2) f(1) f(2) [of y] show "bucket (hn_key x) = int i" "\<exists>v. hn_value x = VStr v"
      by metis+
  qed
  show "chain_look (chain_update f k ch) = (chain_look ch)(k \<mapsto> (v, e))"
    by (rule ext) (simp add: chain_look_def chain_find_update [of f, OF f(1)] assms(2) y)
qed

lemma set_chain_remove: "set (chain_remove k ch) \<subseteq> set ch"
  by (induction ch) auto

lemma chain_remove_keys:
  "distinct (map hn_key ch) \<Longrightarrow> map hn_key (chain_remove k ch) = filter (\<lambda>x. x \<noteq> k) (map hn_key ch)"
  by (induction ch) (auto intro!: filter_True [symmetric])

lemma chain_find_remove:
  "distinct (map hn_key ch) \<Longrightarrow>
    chain_find (chain_remove k ch) k' = (if k' = k then None else chain_find ch k')"
  by (induction ch) (auto simp: chain_find_def find_None_iff, metis image_eqI)

lemma length_chain_remove:
  "chain_find ch k = Some n \<Longrightarrow> length ch = Suc (length (chain_remove k ch))"
  by (induction ch) (auto simp: chain_find_def split: if_splits)

lemma chain_remove_spec:
  assumes "wf_chain i ch"
  shows "wf_chain i (chain_remove k ch)" "chain_look (chain_remove k ch) = (chain_look ch)(k := None)"
proof -
  from assms have d: "distinct (map hn_key ch)" by (simp add: wf_chain_def)
  with assms set_chain_remove [of k ch] show "wf_chain i (chain_remove k ch)"
    unfolding wf_chain_def chain_remove_keys [OF d] by auto
  show "chain_look (chain_remove k ch) = (chain_look ch)(k := None)"
    by (rule ext) (simp add: chain_look_def chain_find_remove [OF d])
qed

lemma chain_cons_spec:
  assumes "wf_chain (nat (bucket k)) ch" "hash_key_ok k" "chain_find ch k = None"
    and n: "n = \<lparr>hn_key = k, hn_value = VStr v, hn_expire = e\<rparr>"
  shows "wf_chain (nat (bucket k)) (n # ch)" "chain_look (n # ch) = (chain_look ch)(k \<mapsto> (v, e))"
proof -
  show "wf_chain (nat (bucket k)) (n # ch)"
    using assms by (auto simp: wf_chain_def chain_find_None hash_key_ok_def)
  show "chain_look (n # ch) = (chain_look ch)(k \<mapsto> (v, e))"
    by (rule ext) (simp add: chain_look_def chain_find_def n)
qed

subsection \<open>Each operation on the abstract store\<close>

lemma hash_size_put:
  assumes "i < 1024" "nodes h' = (nodes h)(i \<mapsto> ch')" "nodes h i = Some ch"
  shows "hash_size h' + length ch = hash_size h + length ch'"
proof -
  have split: "hash_size g = (\<Sum>j \<in> {..<1024} - {i}. length (the (nodes g j))) + length (the (nodes g i))"
    for g unfolding hash_size_def using assms(1) by (simp add: sum.remove add.commute)
  have "(\<Sum>j \<in> {..<1024} - {i}. length (the (nodes h' j))) =
        (\<Sum>j \<in> {..<1024} - {i}. length (the (nodes h j)))"
    by (rule sum.cong) (auto simp: assms(2))
  then show ?thesis by (simp add: split [of h] split [of h'] assms(2,3))
qed

lemma put_inv:
  assumes inv: "kvs_hash_inv h" and i: "i < 1024" and ch: "nodes h i = Some ch" "wf_chain i ch'"
    and h': "nodes h' = (nodes h)(i \<mapsto> ch')" "max_slots h' = max_slots h"
      "hcount h' = int_wrap (hcount h + int (length ch') - int (length ch))"
  shows "kvs_hash_inv h'"
proof -
  have "hcount h' = int_wrap (int (hash_size h) + (int (length ch') - int (length ch)))"
    using inv h'(3) int_wrap_add by (simp add: kvs_hash_inv_def add_diff_eq [symmetric])
  also have "int (hash_size h) + (int (length ch') - int (length ch)) = int (hash_size h')"
    using hash_size_put [OF i h'(1) ch(1)] by linarith
  finally show ?thesis using inv ch(2) by (auto simp: kvs_hash_inv_def h')
qed

text \<open>Replacing one chain by another changes the abstract store at the operation's key only.\<close>

lemma put_chain:
  assumes inv: "kvs_hash_inv h" and ok: "hash_key_ok k"
    and ch: "nodes h (nat (bucket k)) = Some ch"
    and ch': "wf_chain (nat (bucket k)) ch'" "chain_look ch' = (chain_look ch)(k := x)"
    and h': "nodes h' = (nodes h)(nat (bucket k) \<mapsto> ch')" "max_slots h' = max_slots h"
      "hcount h' = int_wrap (hcount h + int (length ch') - int (length ch))"
  shows "kvs_hash_inv h' \<and> kvs_hash_abs h' = (kvs_hash_abs h)(k := x)"
proof
  from ok bucket_less [of k] have b: "0 \<le> bucket k" "bucket k < MAX_TABLE_SIZE"
    "nat (bucket k) < 1024"
    by (auto simp: hash_key_ok_def MAX_TABLE_SIZE_def)
  show "kvs_hash_inv h'" by (rule put_inv [OF inv b(3) ch ch'(1) h'])
  show "kvs_hash_abs h' = (kvs_hash_abs h)(k := x)"
  proof
    fix k'
    show "kvs_hash_abs h' k' = ((kvs_hash_abs h)(k := x)) k'"
    proof (cases "bucket k' = bucket k")
      case True
      with b ch ch'(2) show ?thesis by (simp add: kvs_hash_abs_def slot_def h')
    next
      case False
      then have "k' \<noteq> k" "0 \<le> bucket k' \<Longrightarrow> nat (bucket k') \<noteq> nat (bucket k)"
        using b by (auto simp: nat_eq_iff)
      then show ?thesis by (simp add: kvs_hash_abs_def slot_def h')
    qed
  qed
qed

lemma hash_lookup:
  assumes "kvs_hash_inv h" "hash_key_ok k"
  obtains (absent) ch where "slot h (bucket k) = Some ch" "nodes h (nat (bucket k)) = Some ch"
      "wf_chain (nat (bucket k)) ch" "chain_find ch k = None" "kvs_hash_abs h k = None"
    | (present) ch n v where "slot h (bucket k) = Some ch" "nodes h (nat (bucket k)) = Some ch"
      "wf_chain (nat (bucket k)) ch" "chain_find ch k = Some n" "hn_value n = VStr v"
      "kvs_hash_abs h k = Some (v, hn_expire n)"
proof -
  obtain ch where ch: "slot h (bucket k) = Some ch" "nodes h (nat (bucket k)) = Some ch"
    "wf_chain (nat (bucket k)) ch" by (rule slot_ok [OF assms])
  show ?thesis
  proof (cases "chain_find ch k")
    case None
    with ch chain_look_find(1) [OF ch(3)] absent show ?thesis by (simp add: kvs_hash_abs_def)
  next
    case (Some n)
    from chain_look_find(2) [OF ch(3) this] obtain v where
      "hn_value n = VStr v" "chain_look ch k = Some (v, hn_expire n)" by blast
    with Some ch present show ?thesis by (simp add: kvs_hash_abs_def)
  qed
qed

lemma hash_update:
  assumes "kvs_hash_inv h" "hash_key_ok k" "nodes h (nat (bucket k)) = Some ch"
    "wf_chain (nat (bucket k)) ch" "chain_find ch k = Some n"
    and f: "\<And>n. hn_key (f n) = hn_key n" "\<And>n. (\<exists>v. hn_value n = VStr v) \<Longrightarrow> \<exists>v. hn_value (f n) = VStr v"
      "hn_value (f n) = VStr v" "hn_expire (f n) = e"
  shows "kvs_hash_inv (put_slot h (bucket k) (chain_update f k ch)) \<and>
    kvs_hash_abs (put_slot h (bucket k) (chain_update f k ch)) = (kvs_hash_abs h)(k \<mapsto> (v, e))"
proof (rule put_chain [OF assms(1-3) chain_update_spec [OF assms(4,5) f]])
  show "hcount (put_slot h (bucket k) (chain_update f k ch)) =
    int_wrap (hcount h + int (length (chain_update f k ch)) - int (length ch))"
    using assms(1) by (simp add: put_slot_def kvs_hash_inv_def)
qed (simp_all add: put_slot_def)

lemma hash_unlink:
  assumes "kvs_hash_inv h" "hash_key_ok k" "nodes h (nat (bucket k)) = Some ch"
    "wf_chain (nat (bucket k)) ch" "chain_find ch k = Some n"
    and "h' = (put_slot h (bucket k) (chain_remove k ch))\<lparr>hcount := int_wrap (hcount h - 1)\<rparr>"
  shows "kvs_hash_inv h' \<and> kvs_hash_abs h' = (kvs_hash_abs h)(k := None)"
  by (rule put_chain [OF assms(1-3) chain_remove_spec [OF assms(4), of k]])
    (use length_chain_remove [OF assms(5)] in \<open>simp_all add: assms(6) put_slot_def\<close>)

lemma hash_link:
  assumes "kvs_hash_inv h" "hash_key_ok k" "nodes h (nat (bucket k)) = Some ch"
    "wf_chain (nat (bucket k)) ch" "chain_find ch k = None"
    and "h' = (put_slot h (bucket k) (\<lparr>hn_key = k, hn_value = VStr v, hn_expire = e\<rparr> # ch))
               \<lparr>hcount := int_wrap (hcount h + 1)\<rparr>"
  shows "kvs_hash_inv h' \<and> kvs_hash_abs h' = (kvs_hash_abs h)(k \<mapsto> (v, e))"
  by (rule put_chain [OF assms(1-3) chain_cons_spec [OF assms(4,2,5) refl]])
    (simp_all add: assms(6) put_slot_def)

lemma hash_del_spec:
  assumes "kvs_hash_inv h" "hash_key_ok k"
  obtains r h' where "kvs_hash_del h (Some k) = Some (r, h')" "kvs_hash_inv h'"
    "kvs_hash_abs h' = (kvs_hash_abs h)(k := None)" "r = (if kvs_hash_abs h k = None then 1 else 0)"
  using assms
proof (cases rule: hash_lookup)
  case (absent ch)
  then have "(kvs_hash_abs h)(k := None) = kvs_hash_abs h" by (simp add: fun_upd_idem_iff)
  with absent assms that [of 1 h] show ?thesis by (simp add: kvs_hash_del_def Let_def)
next
  case (present ch n v)
  from hash_unlink [OF assms present(2-4) refl] present that show ?thesis
    by (simp add: kvs_hash_del_def Let_def)
qed

lemma hash_set_spec:
  assumes "kvs_hash_inv h" "hash_key_ok k"
  obtains h' where "kvs_hash_set all_ok h (Some k) (Some v) e = Some (0, h')" "kvs_hash_inv h'"
    "kvs_hash_abs h' = (kvs_hash_abs h)(k \<mapsto> (v, e))"
  using assms
proof (cases rule: hash_lookup)
  case (absent ch)
  from hash_link [OF assms absent(2-4) refl, of v e] absent that show ?thesis
    by (simp add: kvs_hash_set_def Let_def create_node_def)
next
  case (present ch n v0)
  from hash_update [OF assms present(2-4), of "\<lambda>n. n\<lparr>hn_value := VStr v, hn_expire := e\<rparr>" v e]
    present that show ?thesis
    by (simp add: kvs_hash_set_def Let_def)
qed

lemma hash_get_spec:
  assumes "kvs_hash_inv h" "hash_key_ok k"
  obtains p h' where "kvs_hash_get now h (Some k) = Some (p, h')" "kvs_hash_inv h'"
    "p = vptr_of (view now (kvs_hash_abs h) k)"
    "kvs_hash_abs h' = (if p = VNull then (kvs_hash_abs h)(k := None) else kvs_hash_abs h)"
  using assms
proof (cases rule: hash_lookup)
  case (absent ch)
  then have "(kvs_hash_abs h)(k := None) = kvs_hash_abs h" by (simp add: fun_upd_idem_iff)
  with absent assms that [of VNull h] show ?thesis
    by (simp add: kvs_hash_get_def Let_def view_def)
next
  case (present ch n v)
  from hash_unlink [OF assms present(2-4) refl] present that assms show ?thesis
    by (cases "expired now (hn_expire n)") (simp_all add: kvs_hash_get_def Let_def view_def)
qed

lemma hash_mod_spec:
  assumes "kvs_hash_inv h" "hash_key_ok k"
  obtains r h' where "kvs_hash_mod all_ok now h (Some k) (Some v) = Some (r, h')" "kvs_hash_inv h'"
    "case kvs_hash_abs h k of
       None \<Rightarrow> r = 1 \<and> kvs_hash_abs h' = kvs_hash_abs h
     | Some (v0, e) \<Rightarrow>
         if expired now e then r = 1 \<and> kvs_hash_abs h' = (kvs_hash_abs h)(k := None)
         else r = 0 \<and> kvs_hash_abs h' = (kvs_hash_abs h)(k \<mapsto> (v, e))"
  using assms
proof (cases rule: hash_lookup)
  case (absent ch)
  with assms that [of 1 h] show ?thesis by (simp add: kvs_hash_mod_def Let_def)
next
  case (present ch n v0)
  obtain r' h' where d: "kvs_hash_del h (Some k) = Some (r', h')" "kvs_hash_inv h'"
    "kvs_hash_abs h' = (kvs_hash_abs h)(k := None)" by (rule hash_del_spec [OF assms])
  from hash_update [OF assms present(2-4), of "\<lambda>n. n\<lparr>hn_value := VStr v\<rparr>" v "hn_expire n"]
    d present that show ?thesis
    by (cases "expired now (hn_expire n)") (simp_all add: kvs_hash_mod_def Let_def)
qed

lemma hash_expire_spec:
  assumes "kvs_hash_inv h" "hash_key_ok k"
  obtains r h' where "kvs_hash_expire h (Some k) e = Some (r, h')" "kvs_hash_inv h'"
    "case kvs_hash_abs h k of
       None \<Rightarrow> r = 1 \<and> kvs_hash_abs h' = kvs_hash_abs h
     | Some (v, e0) \<Rightarrow> r = 0 \<and>
         kvs_hash_abs h' = (kvs_hash_abs h)(k := if e = 0 then None else Some (v, e))"
  using assms
proof (cases rule: hash_lookup)
  case (absent ch)
  with assms that [of 1 h] show ?thesis by (simp add: kvs_hash_expire_def Let_def)
next
  case (present ch n v)
  obtain r' h' where d: "kvs_hash_del h (Some k) = Some (r', h')" "kvs_hash_inv h'"
    "kvs_hash_abs h' = (kvs_hash_abs h)(k := None)" "r' = (if kvs_hash_abs h k = None then 1 else 0)"
    by (rule hash_del_spec [OF assms])
  from hash_update [OF assms present(2-4), of "\<lambda>n. n\<lparr>hn_expire := e\<rparr>" v e] d present that
  show ?thesis
    by (cases "e = 0") (simp_all add: kvs_hash_expire_def Let_def)
qed

lemma hash_exist_spec:
  assumes "kvs_hash_inv h" "hash_key_ok k"
  shows "kvs_hash_exist now h (Some k) = Some (if view now (kvs_hash_abs h) k = None then 1 else 0)"
  using assms by (cases rule: hash_lookup) (simp_all add: kvs_hash_exist_def view_def)

lemma hash_ttl_spec:
  assumes "kvs_hash_inv h" "hash_key_ok k"
  shows "kvs_hash_ttl now h (Some k) =
    Some (case kvs_hash_abs h k of None \<Rightarrow> -2 | Some (v, e) \<Rightarrow> ttl_of now e)"
  using assms by (cases rule: hash_lookup) (simp_all add: kvs_hash_ttl_def)

text \<open>The scan keeps, in order, the nodes that have not expired.\<close>

abbreviation live_nodes :: "int \<Rightarrow> hashnode list \<Rightarrow> hashnode list" where
  "live_nodes now ch \<equiv> filter (\<lambda>n. \<not> expired now (hn_expire n)) ch"

lemma scan_chain_eq:
  "in_int cnt \<Longrightarrow> scan_chain now ch cnt =
     (live_nodes now ch, int_wrap (cnt + int (length (live_nodes now ch)) - int (length ch)))"
proof (induction ch arbitrary: cnt)
  case (Cons n ch)
  show ?case
  proof (cases "expired now (hn_expire n)")
    case True
    with Cons.IH [of "int_wrap (cnt - 1)"]
      int_wrap_add [of "cnt - 1" "int (length (live_nodes now ch)) - int (length ch)"]
    show ?thesis by (simp add: algebra_simps)
  next
    case False
    with Cons show ?thesis by (simp add: add_diff_eq)
  qed
qed simp

lemma wf_live_nodes: "wf_chain i ch \<Longrightarrow> wf_chain i (live_nodes now ch)"
  unfolding wf_chain_def by (auto simp: distinct_map_filter)

lemma chain_look_live:
  assumes "wf_chain i ch"
  shows "chain_look (live_nodes now ch) = purge now (chain_look ch)"
proof
  fix k
  from assms have d: "distinct (map hn_key ch)" by (simp add: wf_chain_def)
  then have d': "distinct (map hn_key (live_nodes now ch))" by (rule distinct_map_filter)
  show "chain_look (live_nodes now ch) k = purge now (chain_look ch) k"
  proof (cases "chain_find ch k")
    case None
    then have "chain_find (live_nodes now ch) k = None" by (auto simp: chain_find_None)
    with None show ?thesis by (simp add: chain_look_def purge_def)
  next
    case (Some n)
    show ?thesis
    proof (cases "expired now (hn_expire n)")
      case True
      have "chain_find (live_nodes now ch) k \<noteq> Some a" for a
        using Some True chain_find_Some [OF d, of k a] chain_find_Some [OF d', of k a] by auto
      then have "chain_find (live_nodes now ch) k = None" by (metis not_None_eq)
      with Some True chain_look_find(2) [OF assms Some] show ?thesis
        by (auto simp: chain_look_def purge_def)
    next
      case False
      with Some have "chain_find (live_nodes now ch) k = Some n"
        by (simp add: chain_find_Some [OF d] chain_find_Some [OF d'])
      with Some False chain_look_find(2) [OF assms Some] show ?thesis
        by (auto simp: chain_look_def purge_def)
    qed
  qed
qed

lemma scan_slot_spec:
  assumes "kvs_hash_inv h" "i < 1024"
  obtains h' where "scan_slot now i (Some h) = Some h'" "kvs_hash_inv h'"
    "nodes h' = (nodes h)(i := map_option (live_nodes now) (nodes h i))"
proof -
  from assms obtain ch where ch: "nodes h i = Some ch" "wf_chain i ch" "in_int (hcount h)"
    by (auto simp: kvs_hash_inv_def)
  let ?h = "(put_slot h (int i) (live_nodes now ch))\<lparr>hcount :=
    int_wrap (hcount h + int (length (live_nodes now ch)) - int (length ch))\<rparr>"
  have "kvs_hash_inv ?h"
    by (rule put_inv [OF assms ch(1) wf_live_nodes [OF ch(2), of now]]) (simp_all add: put_slot_def)
  moreover have "scan_slot now i (Some h) = Some ?h"
    by (simp add: scan_slot_def ch scan_chain_eq)
  ultimately show ?thesis using that ch(1) by (simp add: put_slot_def)
qed

lemma scan_slots:
  assumes "kvs_hash_inv h" "n \<le> 1024"
  shows "\<exists>h'. fold (scan_slot now) [0..<n] (Some h) = Some h' \<and> kvs_hash_inv h' \<and>
    nodes h' = (\<lambda>i. if i < n then map_option (live_nodes now) (nodes h i) else nodes h i)"
  using assms(2)
proof (induction n)
  case 0
  with assms(1) show ?case by simp
next
  case (Suc n)
  then obtain h1 where h1: "fold (scan_slot now) [0..<n] (Some h) = Some h1" "kvs_hash_inv h1"
    "nodes h1 = (\<lambda>i. if i < n then map_option (live_nodes now) (nodes h i) else nodes h i)" by auto
  obtain h2 where "scan_slot now n (Some h1) = Some h2" "kvs_hash_inv h2"
    "nodes h2 = (nodes h1)(n := map_option (live_nodes now) (nodes h1 n))"
    using scan_slot_spec [OF h1(2), of n now] Suc.prems by auto
  with h1 show ?case by (auto simp: fun_eq_iff)
qed

lemma hash_scan_spec:
  assumes "kvs_hash_inv h"
  obtains h' where "kvs_hash_scan_expired now h = Some h'" "kvs_hash_inv h'"
    "kvs_hash_abs h' = purge now (kvs_hash_abs h)"
proof -
  have "nat (max_slots h) = 1024" using assms by (simp add: kvs_hash_inv_def MAX_TABLE_SIZE_def)
  with scan_slots [OF assms, of 1024 now] obtain h' where
    h': "kvs_hash_scan_expired now h = Some h'" "kvs_hash_inv h'"
    "nodes h' = (\<lambda>i. if i < 1024 then map_option (live_nodes now) (nodes h i) else nodes h i)"
    by (auto simp: kvs_hash_scan_expired_def)
  have "kvs_hash_abs h' k = purge now (kvs_hash_abs h) k" for k
  proof (cases "hash_key_ok k")
    case True
    obtain ch where ch: "slot h (bucket k) = Some ch" "nodes h (nat (bucket k)) = Some ch"
      "wf_chain (nat (bucket k)) ch" "nat (bucket k) < 1024" by (rule slot_ok [OF assms True])
    then have "slot h' (bucket k) = Some (live_nodes now ch)"
      by (auto simp: slot_def h'(3) split: if_splits)
    with ch chain_look_live [OF ch(3), of now] show ?thesis
      by (simp add: kvs_hash_abs_def purge_def)
  next
    case False
    then show ?thesis by (simp add: kvs_hash_abs_def slot_def hash_key_ok_def purge_def)
  qed
  with h' that show ?thesis by blast
qed

definition hash_call :: "kv_call \<Rightarrow> hashtable \<Rightarrow> kv_res \<times> hashtable" where
  "hash_call = kv_dispatch
     (\<lambda>h k v e. the (kvs_hash_set all_ok h (Some k) (Some v) e))
     (\<lambda>now h k. the (kvs_hash_get now h (Some k)))
     (\<lambda>h k. the (kvs_hash_del h (Some k)))
     (\<lambda>now h k v. the (kvs_hash_mod all_ok now h (Some k) (Some v)))
     (\<lambda>now h k. (the (kvs_hash_exist now h (Some k)), h))
     (\<lambda>h k e. the (kvs_hash_expire h (Some k) e))
     (\<lambda>now h k. the (kvs_hash_ttl now h (Some k)))"

interpretation hsh: kv_scanned hash_key_ok kvs_hash_inv kvs_hash_abs
  "\<lambda>h k v e. the (kvs_hash_set all_ok h (Some k) (Some v) e)"
  "\<lambda>now h k. the (kvs_hash_get now h (Some k))"
  "\<lambda>h k. the (kvs_hash_del h (Some k))"
  "\<lambda>now h k v. the (kvs_hash_mod all_ok now h (Some k) (Some v))"
  "\<lambda>now h k. (the (kvs_hash_exist now h (Some k)), h)"
  "\<lambda>h k e. the (kvs_hash_expire h (Some k) e)"
  "\<lambda>now h k. the (kvs_hash_ttl now h (Some k))"
  "\<lambda>now h. the (kvs_hash_scan_expired now h)"
proof (unfold_locales, goal_cases)
  case (1 s k v e r s')
  show ?case by (rule hash_set_spec [OF 1(1,2), of v e]) (use 1(3) in \<open>auto simp: same_vals_def\<close>)
next
  case (2 s k now p s')
  show ?case by (rule hash_get_spec [OF 2(1,2), of now]) (use 2(3) in \<open>auto simp: same_vals_def\<close>)
next
  case (3 s k r s')
  show ?case by (rule hash_del_spec [OF 3(1,2)]) (use 3(3) in \<open>auto simp: same_vals_def\<close>)
next
  case (4 s k now v r s')
  show ?case by (rule hash_mod_spec [OF 4(1,2), of now v])
    (use 4(3) in \<open>auto simp: same_vals_def split: option.splits if_splits\<close>)
next
  case (5 s k now r s')
  then show ?case by (auto simp: hash_exist_spec)
next
  case (6 s k e r s')
  show ?case by (rule hash_expire_spec [OF 6(1,2), of e])
    (use 6(3) in \<open>auto simp: same_vals_def split: option.splits\<close>)
next
  case (7 s k now)
  then show ?case by (simp add: hash_ttl_spec)
next
  case (8 s k v e r s')
  show ?case by (rule hash_set_spec [OF 8(1,2), of v e]) (use 8(3) in auto)
next
  case (9 s k now p s')
  show ?case by (rule hash_get_spec [OF 9(1,2), of now]) (use 9(3) in auto)
next
  case (10 s k r s')
  show ?case by (rule hash_del_spec [OF 10(1,2)]) (use 10(3) in auto)
next
  case (11 s k now v r s')
  show ?case by (rule hash_mod_spec [OF 11(1,2), of now v])
    (use 11(3) in \<open>auto split: option.splits if_splits\<close>)
next
  case (12 s k now r s')
  then show ?case by auto
next
  case (13 s k e r s')
  show ?case by (rule hash_expire_spec [OF 13(1,2), of e])
    (use 13(3) in \<open>auto split: option.splits\<close>)
next
  case (14 s now)
  show ?case by (rule hash_scan_spec [OF 14, of now]) auto
qed

subsection \<open>Keys and buckets\<close>

lemma schar_ascii: "of_char c < (128::int) \<Longrightarrow> 0 \<le> schar c \<and> schar c \<le> 127"
  by (simp add: schar_def Let_def)

lemma schar_high: "(128::int) \<le> of_char c \<Longrightarrow> -128 \<le> schar c \<and> schar c \<le> -1"
  using int_of_char_bounds(2) [of c] by (simp add: schar_def Let_def del: int_of_char_bounds)

lemma foldl_schar_ascii:
  assumes "\<forall>c \<in> set k. of_char c < (128::int)" "0 \<le> s" "s + 127 * int (length k) < 2 ^ 31"
  shows "0 \<le> foldl (\<lambda>sum c. int_wrap (sum + schar c)) s k"
  using assms
proof (induction k arbitrary: s)
  case (Cons c k)
  from Cons.prems(1) have c: "0 \<le> schar c" "schar c \<le> 127" using schar_ascii [of c] by auto
  with Cons.prems have "in_int (s + schar c)" by (simp add: in_int_def)
  with Cons.IH [of "s + schar c"] Cons.prems c show ?case by simp
qed simp

lemma foldl_schar_high:
  assumes "\<forall>c \<in> set k. (128::int) \<le> of_char c" "-1024 < s - 128 * int (length k)" "s \<le> 0"
  shows "foldl (\<lambda>sum c. int_wrap (sum + schar c)) s k \<le> s - int (length k) \<and>
    -1024 < foldl (\<lambda>sum c. int_wrap (sum + schar c)) s k"
  using assms
proof (induction k arbitrary: s)
  case (Cons c k)
  from Cons.prems(1) have c: "-128 \<le> schar c" "schar c \<le> -1" using schar_high [of c] by auto
  with Cons.prems have "in_int (s + schar c)" by (simp add: in_int_def)
  with Cons.IH [of "s + schar c"] Cons.prems c show ?case by simp
qed simp

lemma ascii_key_ok:
  assumes "\<forall>c \<in> set k. of_char c < (128::int)" "length k < 2 ^ 24"
  shows "hash_key_ok k"
proof -
  have "0 \<le> foldl (\<lambda>sum c. int_wrap (sum + schar c)) 0 k"
    using foldl_schar_ascii [OF assms(1), of 0] assms(2) by simp
  then show ?thesis
    by (simp add: hash_key_ok_def hash_fn_def c_rem_bounds MAX_TABLE_SIZE_def)
qed

lemma high_bucket_negative:
  assumes "k \<noteq> []" "length k < 8" "\<forall>c \<in> set k. (128::int) \<le> of_char c"
  shows "bucket k < 0"
proof -
  let ?s = "foldl (\<lambda>sum c. int_wrap (sum + schar c)) 0 k"
  from assms(1) have "1 \<le> int (length k)" by (cases k) auto
  with assms(2) foldl_schar_high [OF assms(3), of 0] have "?s < 0" "-1024 < ?s" by linarith+
  then have "c_rem ?s MAX_TABLE_SIZE = ?s" by (simp add: c_rem_def MAX_TABLE_SIZE_def)
  with \<open>?s < 0\<close> show ?thesis by (simp add: hash_fn_def)
qed

lemma hash_create_inv:
  assumes "\<forall>i < 1024. region i = Some []"
  shows "kvs_hash_inv (snd (kvs_hash_create all_ok region h))"
    "kvs_hash_abs (snd (kvs_hash_create all_ok region h)) = Map.empty"
proof -
  show "kvs_hash_inv (snd (kvs_hash_create all_ok region h))"
    using assms by (simp add: kvs_hash_create_def kvs_hash_inv_def wf_chain_def hash_size_def
      in_int_def)
  show "kvs_hash_abs (snd (kvs_hash_create all_ok region h)) = Map.empty"
    using assms by (auto simp: kvs_hash_create_def kvs_hash_abs_def slot_def MAX_TABLE_SIZE_def
      chain_look_def chain_find_def fun_eq_iff split: option.splits)
qed

text \<open>The stored keys are the keys of the chains, which are disjoint.\<close>

lemma dom_hash_abs:
  assumes "kvs_hash_inv h"
  shows "dom (kvs_hash_abs h) = (\<Union>i < 1024. hn_key ` set (the (nodes h i)))"
proof (intro set_eqI iffI)
  fix k assume "k \<in> dom (kvs_hash_abs h)"
  then obtain ch y where ch: "slot h (bucket k) = Some ch" "chain_look ch k = Some y"
    by (auto simp: kvs_hash_abs_def split: option.splits)
  then have "k \<in> hn_key ` set ch" "nodes h (nat (bucket k)) = Some ch" "nat (bucket k) < 1024"
    using chain_find_None [of ch k]
    by (auto simp: chain_look_def slot_def MAX_TABLE_SIZE_def split: option.splits if_splits)
  then show "k \<in> (\<Union>i < 1024. hn_key ` set (the (nodes h i)))" by force
next
  fix k assume "k \<in> (\<Union>i < 1024. hn_key ` set (the (nodes h i)))"
  then obtain i where i: "i < 1024" "k \<in> hn_key ` set (the (nodes h i))" by blast
  with assms obtain ch where ch: "nodes h i = Some ch" "wf_chain i ch"
    by (auto simp: kvs_hash_inv_def)
  with i have b: "bucket k = int i" by (auto simp: wf_chain_def)
  from i ch obtain n where n: "chain_find ch k = Some n" using chain_find_None [of ch k] by auto
  with chain_look_find(2) [OF ch(2) n] b i ch show "k \<in> dom (kvs_hash_abs h)"
    by (auto simp: kvs_hash_abs_def slot_def MAX_TABLE_SIZE_def)
qed

lemma card_hash_abs:
  assumes "kvs_hash_inv h"
  shows "card (dom (kvs_hash_abs h)) = hash_size h"
proof -
  have wf: "wf_chain i (the (nodes h i))" if "i < 1024" for i
    using assms that by (auto simp: kvs_hash_inv_def)
  have "card (\<Union>i < 1024. hn_key ` set (the (nodes h i))) =
      (\<Sum>i < 1024. card (hn_key ` set (the (nodes h i))))"
  proof (rule card_UN_disjoint)
    show "\<forall>i \<in> {..<1024}. \<forall>j \<in> {..<1024}. i \<noteq> j \<longrightarrow>
      hn_key ` set (the (nodes h i)) \<inter> hn_key ` set (the (nodes h j)) = {}"
    proof (intro ballI impI)
      fix i j :: nat assume ij: "i \<in> {..<1024}" "j \<in> {..<1024}" "i \<noteq> j"
      with wf [of i] wf [of j] show
        "hn_key ` set (the (nodes h i)) \<inter> hn_key ` set (the (nodes h j)) = {}"
        unfolding wf_chain_def by force
    qed
  qed auto
  also have "\<dots> = hash_size h"
    unfolding hash_size_def
  proof (rule sum.cong)
    fix i :: nat assume "i \<in> {..<1024}"
    with wf [of i] have "distinct (map hn_key (the (nodes h i)))" by (simp add: wf_chain_def)
    from distinct_card [OF this] show
      "card (hn_key ` set (the (nodes h i))) = length (the (nodes h i))" by simp
  qed simp
  finally show ?thesis using dom_hash_abs [OF assms] by simp
qed

subsection \<open>Properties\<close>

lemma zeroed_table:
  "kvs_hash_inv (snd (kvs_hash_create all_ok (\<lambda>_. Some []) h))"
  "kvs_hash_abs (snd (kvs_hash_create all_ok (\<lambda>_. Some []) h)) = Map.empty"
  by (rule hash_create_inv; simp)+

text \<open>C18: on keys that hash inside the table, every sequence of calls on a hash engine gives
  results the abstract key-value store allows, and leaves the engine well formed and
  representing the abstract store the sequence leads to.\<close>

theorem hash_refines_store:
  assumes "kvs_hash_inv h" "\<forall>c \<in> set cs. hash_key_ok (call_key c)"
    and "run_calls hash_call cs h = (rs, h')"
  shows "kvs_hash_inv h' \<and> spec_run (kvs_hash_abs h) cs rs (kvs_hash_abs h')"
  using hsh.run_refines [OF assms(1,2)] assms(3) by (simp add: hash_call_def)

theorem hash_refines_store_witness:
  "let h = snd (kvs_hash_create all_ok (\<lambda>_. Some []) zero_hash);
       cs = [KSet ''a'' ''v'' 9, KSet ''b'' ''w'' (-1), KTtl 5 ''a'', KDel ''b''];
       (rs, h') = run_calls hash_call cs h
   in kvs_hash_inv h' \<and> spec_run Map.empty cs rs (kvs_hash_abs h')"
proof -
  let ?h = "snd (kvs_hash_create all_ok (\<lambda>_. Some []) zero_hash)"
  let ?cs = "[KSet ''a'' ''v'' 9, KSet ''b'' ''w'' (-1), KTtl 5 ''a'', KDel ''b'']"
  have ok: "\<forall>c \<in> set ?cs. hash_key_ok (call_key c)" by (auto intro: ascii_key_ok)
  obtain rs h' where run: "run_calls hash_call ?cs ?h = (rs, h')"
    by (cases "run_calls hash_call ?cs ?h")
  from hash_refines_store [OF zeroed_table(1) ok run] run zeroed_table(2) show ?thesis
    by (simp add: Let_def)
qed







text \<open>the counter of a well-formed hash engine is the number of stored keys, as long as that
  number fits an \<open>int\<close>.\<close>

theorem hash_count_exact:
  assumes "kvs_hash_inv h" "card (dom (kvs_hash_abs h)) < 2 ^ 31"
  shows "kvs_hash_count h = int (card (dom (kvs_hash_abs h)))"
  using assms card_hash_abs [OF assms(1)]
  by (simp add: kvs_hash_count_def kvs_hash_inv_def in_int_def)

theorem hash_count_exact_witness:
  "let h = snd (hash_call (KSet ''a'' ''v'' 9) (snd (kvs_hash_create all_ok (\<lambda>_. Some []) zero_hash)))
   in kvs_hash_count h = int (card (dom (kvs_hash_abs h))) \<and> dom (kvs_hash_abs h) = {''a''}"
proof -
  let ?h0 = "snd (kvs_hash_create all_ok (\<lambda>_. Some []) zero_hash)"
  have ok: "hash_key_ok ''a''" by (rule ascii_key_ok) auto
  obtain h where h: "kvs_hash_set all_ok ?h0 (Some ''a'') (Some ''v'') 9 = Some (0, h)"
    "kvs_hash_inv h" "kvs_hash_abs h = (kvs_hash_abs ?h0)(''a'' \<mapsto> (''v'', 9))"
    by (rule hash_set_spec [OF zeroed_table(1) ok])
  with hash_count_exact [OF h(2)] zeroed_table(2) show ?thesis
    by (simp add: Let_def hash_call_def kv_dispatch_def)
qed

end
