(* ===== verification/KVS_Skiplist.thy ===== *)
theory KVS_Skiplist
  imports KVS_Engine "HOL-Library.Monad_Syntax"
begin

text \<open>
  The skip list engine (\<open>kvs_skiplist.c\<close>) on an explicit heap: a node is reached through
  its address and holds its forward pointers as a list of \<open>level + 1\<close> entries. Following
  a pointer to a freed or unallocated node, indexing a forward array outside its length
  and comparing a NULL key are undefined in C and give \<open>None\<close>; so does a loop that does
  not end. Addresses come from a counter, \<open>next_ptr\<close>, and the results of \<open>rand\<close> from a
  sequence \<open>rnd\<close> read at \<open>rand_pos\<close>.
\<close>

subsection \<open>Data\<close>

type_synonym ptr = nat

record sl_node =
  sn_key :: cptr
  sn_value :: vptr
  sn_forward :: "ptr option list"
  sn_expire :: int

type_synonym sl_heap = "ptr \<Rightarrow> sl_node option"

record skiplist =
  header :: "ptr option"
  slevel :: nat
  ssize :: int
  heap :: sl_heap
  next_ptr :: ptr
  rand_pos :: nat

definition SKIPLIST_MAX_LEVEL :: nat where
  "SKIPLIST_MAX_LEVEL = 16"

definition RAND_MAX :: nat where
  "RAND_MAX = 2147483647"

definition zero_skiplist :: skiplist where
  "zero_skiplist = \<lparr>header = None, slevel = 0, ssize = 0, heap = (\<lambda>_. None), next_ptr = 0,
     rand_pos = 0\<rparr>"

subsection \<open>Operations\<close>

text \<open>\<open>p->forward[i]\<close> as a value and as an assignment.\<close>

definition fwd :: "sl_heap \<Rightarrow> ptr \<Rightarrow> nat \<Rightarrow> ptr option option" where
  "fwd h p i = (case h p of None \<Rightarrow> None
     | Some n \<Rightarrow> if i < length (sn_forward n) then Some (sn_forward n ! i) else None)"

definition set_fwd :: "sl_heap \<Rightarrow> ptr \<Rightarrow> nat \<Rightarrow> ptr option \<Rightarrow> sl_heap option" where
  "set_fwd h p i v = (case h p of None \<Rightarrow> None
     | Some n \<Rightarrow> if i < length (sn_forward n)
               then Some (h(p \<mapsto> n\<lparr>sn_forward := (sn_forward n)[i := v]\<rparr>)) else None)"

function random_level_from :: "(nat \<Rightarrow> nat) \<Rightarrow> nat \<Rightarrow> nat \<Rightarrow> nat \<times> nat" where
  "random_level_from rnd pos level =
     (if rnd pos < RAND_MAX div 2 \<and> level < SKIPLIST_MAX_LEVEL
      then random_level_from rnd (pos + 1) (level + 1) else (level, pos + 1))"
  by auto

termination random_level_from
  by (relation "measure (\<lambda>(rnd, pos, level). SKIPLIST_MAX_LEVEL - level)") auto

definition random_level :: "(nat \<Rightarrow> nat) \<Rightarrow> nat \<Rightarrow> nat \<times> nat" where
  "random_level rnd pos = random_level_from rnd pos 0"

text \<open>The allocations of a node: the node, the key and value copies if any, the array.\<close>

definition skiplist_new_node ::
    "mallocs \<Rightarrow> nat \<Rightarrow> cptr \<Rightarrow> cptr \<Rightarrow> int \<Rightarrow> sl_node option" where
  "skiplist_new_node mok level key value expire_ms =
     (let ik = 1; iv = (if key = None then ik else ik + 1); ia = (if value = None then iv else iv + 1)
      in if \<not> mok 0 then None
         else if key \<noteq> None \<and> \<not> mok ik then None
         else if value \<noteq> None \<and> \<not> mok iv then None
         else if \<not> mok ia then None
         else Some \<lparr>sn_key = key, sn_value = vptr_of value,
                sn_forward = replicate (level + 1) None, sn_expire = expire_ms\<rparr>)"

definition skiplist_free_node :: "sl_heap \<Rightarrow> ptr \<Rightarrow> sl_heap option" where
  "skiplist_free_node h p = (if h p = None then None else Some (h(p := None)))"

definition kvs_skiplist_create :: "mallocs \<Rightarrow> skiplist \<Rightarrow> int \<times> skiplist" where
  "kvs_skiplist_create mok s =
     (case skiplist_new_node mok SKIPLIST_MAX_LEVEL None None (-1) of
        None \<Rightarrow> (-1, s\<lparr>slevel := 0, ssize := 0, header := None\<rparr>)
      | Some n \<Rightarrow> (0, s\<lparr>slevel := 0, ssize := 0, header := Some (next_ptr s),
                       heap := (heap s)(next_ptr s \<mapsto> n), next_ptr := next_ptr s + 1\<rparr>))"

partial_function (option) free_chain :: "sl_heap \<Rightarrow> ptr option \<Rightarrow> sl_heap option" where
  "free_chain h current =
     (case current of None \<Rightarrow> Some h
      | Some p \<Rightarrow> Option.bind (fwd h p 0) (\<lambda>next.
          Option.bind (skiplist_free_node h p) (\<lambda>h'. free_chain h' next)))"

definition kvs_skiplist_destroy :: "skiplist \<Rightarrow> skiplist option" where
  "kvs_skiplist_destroy s = do {
     hdr \<leftarrow> header s;
     first \<leftarrow> fwd (heap s) hdr 0;
     h \<leftarrow> free_chain (heap s) first;
     h' \<leftarrow> skiplist_free_node h hdr;
     Some (s\<lparr>heap := h', header := None, slevel := 0, ssize := 0\<rparr>) }"

text \<open>The inner loop on one level, and the descent from the top level.\<close>

partial_function (option) sl_walk :: "sl_heap \<Rightarrow> string \<Rightarrow> nat \<Rightarrow> ptr \<Rightarrow> ptr option" where
  "sl_walk h key i current =
     Option.bind (fwd h current i) (\<lambda>next.
       (case next of None \<Rightarrow> Some current
        | Some p \<Rightarrow> Option.bind (Option.bind (h p) sn_key) (\<lambda>k.
            if strcmp k key < 0 then sl_walk h key i p else Some current)))"

primrec sl_seek :: "sl_heap \<Rightarrow> string \<Rightarrow> nat \<Rightarrow> ptr \<Rightarrow> ptr option" where
  "sl_seek h key 0 current = sl_walk h key 0 current"
| "sl_seek h key (Suc i) current =
     Option.bind (sl_walk h key (Suc i) current) (\<lambda>c. sl_seek h key i c)"

primrec preds_from ::
    "sl_heap \<Rightarrow> string \<Rightarrow> nat \<Rightarrow> ptr \<Rightarrow> (nat \<Rightarrow> ptr option) \<Rightarrow> (nat \<Rightarrow> ptr option) option" where
  "preds_from h key 0 current update =
     Option.bind (sl_walk h key 0 current) (\<lambda>c. Some (update(0 := Some c)))"
| "preds_from h key (Suc i) current update =
     Option.bind (sl_walk h key (Suc i) current)
       (\<lambda>c. preds_from h key i c (update(Suc i := Some c)))"

definition skiplist_find_predecessors :: "skiplist \<Rightarrow> string \<Rightarrow> (nat \<Rightarrow> ptr option) option" where
  "skiplist_find_predecessors s key = do {
     hdr \<leftarrow> header s;
     preds_from (heap s) key (slevel s) hdr (\<lambda>_. None) }"

text \<open>Linking a new node in, and the target out, on the levels below \<open>n\<close>.\<close>

primrec link_levels ::
    "ptr \<Rightarrow> (nat \<Rightarrow> ptr option) \<Rightarrow> nat \<Rightarrow> sl_heap \<Rightarrow> sl_heap option" where
  "link_levels new update 0 h = Some h"
| "link_levels new update (Suc i) h = do {
     h1 \<leftarrow> link_levels new update i h;
     u \<leftarrow> update i;
     nxt \<leftarrow> fwd h1 u i;
     h2 \<leftarrow> set_fwd h1 new i nxt;
     set_fwd h2 u i (Some new) }"

primrec unlink_levels ::
    "ptr \<Rightarrow> (nat \<Rightarrow> ptr option) \<Rightarrow> nat \<Rightarrow> sl_heap \<Rightarrow> sl_heap option" where
  "unlink_levels target update 0 h = Some h"
| "unlink_levels target update (Suc i) h = do {
     h1 \<leftarrow> unlink_levels target update i h;
     u \<leftarrow> update i;
     nxt \<leftarrow> fwd h1 u i;
     if nxt = Some target then do {
       t \<leftarrow> fwd h1 target i;
       set_fwd h1 u i t }
     else Some h1 }"

text \<open>The loop that lowers the level of the list.\<close>

primrec shrink_level :: "sl_heap \<Rightarrow> ptr \<Rightarrow> nat \<Rightarrow> nat option" where
  "shrink_level h hdr 0 = Some 0"
| "shrink_level h hdr (Suc l) =
     Option.bind (fwd h hdr (Suc l))
       (\<lambda>p. if p = None then shrink_level h hdr l else Some (Suc l))"

text \<open>The node after the last predecessor, if its key is the one searched for.\<close>

definition key_match :: "sl_heap \<Rightarrow> ptr option \<Rightarrow> string \<Rightarrow> sl_node option option" where
  "key_match h target key =
     (case target of None \<Rightarrow> Some None
      | Some p \<Rightarrow> Option.bind (h p) (\<lambda>n. Option.bind (sn_key n) (\<lambda>k.
          if strcmp k key = 0 then Some (Some n) else Some None)))"

definition kvs_skiplist_set ::
    "mallocs \<Rightarrow> (nat \<Rightarrow> nat) \<Rightarrow> skiplist \<Rightarrow> cptr \<Rightarrow> cptr \<Rightarrow> int \<Rightarrow> (int \<times> skiplist) option" where
  "kvs_skiplist_set mok rnd s key value expire_ms =
     (case (key, value) of
        (Some k, Some v) \<Rightarrow> do {
          hdr \<leftarrow> header s;
          update \<leftarrow> skiplist_find_predecessors s k;
          u0 \<leftarrow> update 0;
          target \<leftarrow> fwd (heap s) u0 0;
          m \<leftarrow> key_match (heap s) target k;
          (case m of
             Some n \<Rightarrow>
               if \<not> mok 0
               then Some (-2, s\<lparr>heap := (heap s)(the target \<mapsto> n\<lparr>sn_value := VNull\<rparr>)\<rparr>)
               else Some (0, s\<lparr>heap := (heap s)(the target \<mapsto>
                              n\<lparr>sn_value := VStr v, sn_expire := expire_ms\<rparr>)\<rparr>)
           | None \<Rightarrow>
               (let (level, pos) = random_level rnd (rand_pos s);
                    update' = (\<lambda>i. if slevel s < i \<and> i \<le> level then Some hdr else update i);
                    s1 = s\<lparr>slevel := max (slevel s) level, rand_pos := pos\<rparr>
                in case skiplist_new_node mok level key value expire_ms of
                     None \<Rightarrow> Some (-2, s1)
                   | Some n \<Rightarrow>
                      let new = next_ptr s in do {
                        h \<leftarrow> link_levels new update' (level + 1) ((heap s)(new \<mapsto> n));
                        Some (0, s1\<lparr>heap := h, next_ptr := new + 1,
                                    ssize := int_wrap (ssize s + 1)\<rparr>) })) }
      | _ \<Rightarrow> Some (-1, s))"

definition kvs_skiplist_del :: "skiplist \<Rightarrow> cptr \<Rightarrow> (int \<times> skiplist) option" where
  "kvs_skiplist_del s key =
     (case key of None \<Rightarrow> Some (-1, s)
      | Some k \<Rightarrow> do {
          hdr \<leftarrow> header s;
          update \<leftarrow> skiplist_find_predecessors s k;
          u0 \<leftarrow> update 0;
          target \<leftarrow> fwd (heap s) u0 0;
          m \<leftarrow> key_match (heap s) target k;
          (case m of
             None \<Rightarrow> Some (1, s)
           | Some n \<Rightarrow> do {
               h \<leftarrow> unlink_levels (the target) update (slevel s + 1) (heap s);
               l \<leftarrow> shrink_level h hdr (slevel s);
               h' \<leftarrow> skiplist_free_node h (the target);
               Some (0, s\<lparr>heap := h', slevel := l, ssize := int_wrap (ssize s - 1)\<rparr>) }) })"

text \<open>The search that get, mod, expire and ttl repeat: the address and node found, if any.\<close>

definition sl_find :: "skiplist \<Rightarrow> string \<Rightarrow> (ptr \<times> sl_node) option option" where
  "sl_find s key = do {
     hdr \<leftarrow> header s;
     c \<leftarrow> sl_seek (heap s) key (slevel s) hdr;
     target \<leftarrow> fwd (heap s) c 0;
     m \<leftarrow> key_match (heap s) target key;
     Some (case m of None \<Rightarrow> None | Some n \<Rightarrow> Some (the target, n)) }"

definition kvs_skiplist_get :: "int \<Rightarrow> skiplist \<Rightarrow> cptr \<Rightarrow> (vptr \<times> skiplist) option" where
  "kvs_skiplist_get now s key =
     (case key of None \<Rightarrow> Some (VNull, s)
      | Some k \<Rightarrow> do {
          f \<leftarrow> sl_find s k;
          (case f of None \<Rightarrow> Some (VNull, s)
           | Some (p, n) \<Rightarrow>
               if expired now (sn_expire n) then do {
                 (r, s') \<leftarrow> kvs_skiplist_del s key;
                 Some (VNull, s') }
               else Some (sn_value n, s)) })"

definition kvs_skiplist_mod ::
    "mallocs \<Rightarrow> skiplist \<Rightarrow> cptr \<Rightarrow> cptr \<Rightarrow> (int \<times> skiplist) option" where
  "kvs_skiplist_mod mok s key value =
     (case (key, value) of
        (Some k, Some v) \<Rightarrow> do {
          f \<leftarrow> sl_find s k;
          (case f of None \<Rightarrow> Some (1, s)
           | Some (p, n) \<Rightarrow>
               if \<not> mok 0 then Some (-2, s\<lparr>heap := (heap s)(p \<mapsto> n\<lparr>sn_value := VNull\<rparr>)\<rparr>)
               else Some (0, s\<lparr>heap := (heap s)(p \<mapsto> n\<lparr>sn_value := VStr v\<rparr>)\<rparr>)) }
      | _ \<Rightarrow> Some (-1, s))"

definition kvs_skiplist_exist :: "int \<Rightarrow> skiplist \<Rightarrow> cptr \<Rightarrow> (int \<times> skiplist) option" where
  "kvs_skiplist_exist now s key =
     (if key = None then Some (-1, s)
      else do {
        (val, s') \<leftarrow> kvs_skiplist_get now s key;
        Some (if val \<noteq> VNull then 0 else 1, s') })"

definition kvs_skiplist_expire :: "skiplist \<Rightarrow> cptr \<Rightarrow> int \<Rightarrow> (int \<times> skiplist) option" where
  "kvs_skiplist_expire s key expire_ms =
     (case key of None \<Rightarrow> Some (-1, s)
      | Some k \<Rightarrow> do {
          f \<leftarrow> sl_find s k;
          (case f of None \<Rightarrow> Some (1, s)
           | Some (p, n) \<Rightarrow>
               if expire_ms = 0 then kvs_skiplist_del s key
               else Some (0, s\<lparr>heap := (heap s)(p \<mapsto> n\<lparr>sn_expire := expire_ms\<rparr>)\<rparr>)) })"

definition kvs_skiplist_ttl :: "int \<Rightarrow> skiplist \<Rightarrow> cptr \<Rightarrow> int option" where
  "kvs_skiplist_ttl now s key =
     (case key of None \<Rightarrow> Some (-2)
      | Some k \<Rightarrow> do {
          f \<leftarrow> sl_find s k;
          Some (case f of None \<Rightarrow> -2 | Some (p, n) \<Rightarrow> ttl_of now (sn_expire n)) })"

partial_function (option) scan_loop :: "int \<Rightarrow> skiplist \<Rightarrow> ptr option \<Rightarrow> skiplist option" where
  "scan_loop now s node =
     (case node of None \<Rightarrow> Some s
      | Some p \<Rightarrow> Option.bind (heap s p) (\<lambda>n.
          Option.bind (fwd (heap s) p 0) (\<lambda>next.
          Option.bind (if expired now (sn_expire n) then map_option snd (kvs_skiplist_del s (sn_key n))
                       else Some s)
            (\<lambda>s'. scan_loop now s' next))))"

definition kvs_skiplist_scan_expired :: "int \<Rightarrow> skiplist \<Rightarrow> skiplist option" where
  "kvs_skiplist_scan_expired now s = do {
     hdr \<leftarrow> header s;
     first \<leftarrow> fwd (heap s) hdr 0;
     scan_loop now s first }"

subsection \<open>Heaps as data and forward links\<close>

text \<open>
  The proofs look at a heap through two functions that the operations change one at a
  time: the links (\<^const>\<open>fwd\<close>) and everything else a node holds.
\<close>

definition ndata :: "sl_heap \<Rightarrow> ptr \<Rightarrow> (cptr \<times> vptr \<times> int \<times> nat) option" where
  "ndata h p = map_option (\<lambda>n. (sn_key n, sn_value n, sn_expire n, length (sn_forward n))) (h p)"

lemma set_fwd_spec:
  assumes "ndata h p = Some (k, v, e, l)" "i < l"
  obtains h' where "set_fwd h p i x = Some h'" "ndata h' = ndata h"
    "fwd h' = (\<lambda>q j. if q = p \<and> j = i then Some x else fwd h q j)"
proof -
  from assms obtain n where n: "h p = Some n" "i < length (sn_forward n)"
    by (auto simp: ndata_def)
  let ?h = "h(p \<mapsto> n\<lparr>sn_forward := (sn_forward n)[i := x]\<rparr>)"
  have "ndata ?h = ndata h" using n by (auto simp: ndata_def fun_eq_iff)
  moreover have "fwd ?h = (\<lambda>q j. if q = p \<and> j = i then Some x else fwd h q j)"
    using n by (auto simp: fwd_def fun_eq_iff)
  ultimately show ?thesis using that n by (simp add: set_fwd_def)
qed

lemma fwd_defined: "ndata h p = Some (k, v, e, l) \<Longrightarrow> i < l \<Longrightarrow> fwd h p i \<noteq> None"
  by (auto simp: ndata_def fwd_def)

subsection \<open>Chains on one level\<close>

primrec lseg :: "(ptr \<Rightarrow> nat \<Rightarrow> ptr option option) \<Rightarrow> nat \<Rightarrow> ptr \<Rightarrow> ptr list \<Rightarrow> bool" where
  "lseg F i p [] \<longleftrightarrow> True"
| "lseg F i p (y # ys) \<longleftrightarrow> F p i = Some (Some y) \<and> lseg F i y ys"

definition chn :: "(ptr \<Rightarrow> nat \<Rightarrow> ptr option option) \<Rightarrow> nat \<Rightarrow> ptr \<Rightarrow> ptr list \<Rightarrow> bool" where
  "chn F i p ys \<longleftrightarrow> lseg F i p ys \<and> F (last (p # ys)) i = Some None"

definition first_of :: "ptr list \<Rightarrow> ptr option" where
  "first_of zs = (case zs of [] \<Rightarrow> None | z # _ \<Rightarrow> Some z)"

lemma first_of_simps [simp]: "first_of [] = None" "first_of (z # zs) = Some z"
  by (simp_all add: first_of_def)

lemma first_of_in: "first_of zs = Some z \<Longrightarrow> z \<in> set zs"
  by (cases zs) auto

lemma first_of_None: "first_of zs = None \<longleftrightarrow> zs = []"
  by (cases zs) auto

lemma lseg_append: "lseg F i p (ys @ zs) \<longleftrightarrow> lseg F i p ys \<and> lseg F i (last (p # ys)) zs"
  by (induction ys arbitrary: p) auto

lemma chn_append: "chn F i p (ys @ zs) \<longleftrightarrow> lseg F i p ys \<and> chn F i (last (p # ys)) zs"
  by (auto simp: chn_def lseg_append)

lemma chn_Cons: "chn F i p (y # ys) \<longleftrightarrow> F p i = Some (Some y) \<and> chn F i y ys"
  by (auto simp: chn_def)

lemma chn_Nil: "chn F i p [] \<longleftrightarrow> F p i = Some None"
  by (simp add: chn_def)

lemma chn_first: "chn F i p ys \<Longrightarrow> F p i = Some (first_of ys)"
  by (cases ys) (auto simp: chn_def)

lemma lseg_cong: "(\<And>q. q \<in> set (butlast (p # ys)) \<Longrightarrow> F q i = G q i) \<Longrightarrow> lseg F i p ys \<longleftrightarrow> lseg G i p ys"
  by (induction ys arbitrary: p) (auto split: if_splits)

lemma chn_cong: "(\<And>q. q \<in> set (p # ys) \<Longrightarrow> F q i = G q i) \<Longrightarrow> chn F i p ys \<longleftrightarrow> chn G i p ys"
  by (induction ys arbitrary: p) (auto simp: chn_Nil chn_Cons)

lemma last_notin_butlast: "distinct (p # ys) \<Longrightarrow> q \<in> set (butlast (p # ys)) \<Longrightarrow> q \<noteq> last (p # ys)"
  by (metis append_butlast_last_id distinct_butlast list.distinct(1) not_distinct_conv_prefix)

text \<open>Splicing a node in after the last node of a segment, and splicing the next one out.\<close>

lemma chn_insert:
  assumes "chn F i p (ys @ zs)" "distinct (p # ys @ zs)" "new \<notin> set (p # ys @ zs)"
    and "G new i = F (last (p # ys)) i" "G (last (p # ys)) i = Some (Some new)"
    and "\<And>q. q \<noteq> new \<Longrightarrow> q \<noteq> last (p # ys) \<Longrightarrow> G q i = F q i"
  shows "chn G i p (ys @ new # zs)"
proof -
  let ?u = "last (p # ys)"
  from assms(1) have s: "lseg F i p ys" "chn F i ?u zs" by (simp_all add: chn_append)
  have u: "?u \<in> set (p # ys)" by (rule last_in_set) simp
  have "lseg G i p ys \<longleftrightarrow> lseg F i p ys"
  proof (rule lseg_cong)
    fix q assume q: "q \<in> set (butlast (p # ys))"
    then have "q \<in> set (p # ys)" by (rule in_set_butlastD)
    with assms(3) have "q \<noteq> new" by auto
    moreover have "q \<noteq> ?u" using last_notin_butlast [of p ys q] assms(2) q by auto
    ultimately show "G q i = F q i" by (rule assms(6))
  qed
  moreover have "chn G i new zs"
  proof (cases zs)
    case Nil
    with s(2) assms(4) show ?thesis by (simp add: chn_Nil)
  next
    case (Cons z zs')
    with s(2) have "F ?u i = Some (Some z)" "chn F i z zs'" by (simp_all add: chn_Cons)
    moreover have "chn G i z zs' \<longleftrightarrow> chn F i z zs'"
    proof (rule chn_cong)
      fix q assume "q \<in> set (z # zs')"
      with assms(2,3) u Cons show "G q i = F q i" by (intro assms(6)) auto
    qed
    ultimately show ?thesis using Cons assms(4) by (simp add: chn_Cons)
  qed
  ultimately show ?thesis using s(1) assms(5) by (simp add: chn_append chn_Cons)
qed

lemma chn_remove:
  assumes "chn F i p (ys @ t # zs)" "distinct (p # ys @ t # zs)"
    and "G (last (p # ys)) i = F t i"
    and "\<And>q. q \<noteq> t \<Longrightarrow> q \<noteq> last (p # ys) \<Longrightarrow> G q i = F q i"
  shows "chn G i p (ys @ zs)"
proof -
  let ?u = "last (p # ys)"
  from assms(1) have s: "lseg F i p ys" "chn F i t zs" by (simp_all add: chn_append chn_Cons)
  have u: "?u \<in> set (p # ys)" by (rule last_in_set) simp
  have "lseg G i p ys \<longleftrightarrow> lseg F i p ys"
  proof (rule lseg_cong)
    fix q assume q: "q \<in> set (butlast (p # ys))"
    then have "q \<in> set (p # ys)" by (rule in_set_butlastD)
    with assms(2) have "q \<noteq> t" by auto
    moreover have "q \<noteq> ?u" using last_notin_butlast [of p ys q] assms(2) q by auto
    ultimately show "G q i = F q i" by (rule assms(4))
  qed
  moreover have "chn G i ?u zs"
  proof (cases zs)
    case Nil
    with s(2) assms(3) show ?thesis by (simp add: chn_Nil)
  next
    case (Cons z zs')
    with s(2) have "F t i = Some (Some z)" "chn F i z zs'" by (simp_all add: chn_Cons)
    moreover have "chn G i z zs' \<longleftrightarrow> chn F i z zs'"
    proof (rule chn_cong)
      fix q assume "q \<in> set (z # zs')"
      with assms(2) u Cons show "G q i = F q i" by (intro assms(4)) auto
    qed
    ultimately show ?thesis using Cons assms(3) by (simp add: chn_Cons)
  qed
  ultimately show ?thesis using s(1) by (simp add: chn_append)
qed

subsection \<open>Well-formed skip lists\<close>

type_synonym sl_data = "ptr \<Rightarrow> (cptr \<times> vptr \<times> int \<times> nat) option"

definition lvl :: "sl_data \<Rightarrow> ptr \<Rightarrow> nat" where
  "lvl D x = (case D x of None \<Rightarrow> 0 | Some (k, v, e, l) \<Rightarrow> l)"

definition keyof :: "sl_data \<Rightarrow> ptr \<Rightarrow> string" where
  "keyof D x = (case D x of Some (Some k, v, e, l) \<Rightarrow> k | _ \<Rightarrow> [])"

definition wf_node :: "sl_data \<Rightarrow> ptr \<Rightarrow> bool" where
  "wf_node D x \<longleftrightarrow> (\<exists>k v e l. D x = Some (Some k, VStr v, e, l) \<and> 1 \<le> l \<and> l \<le> 17)"

text \<open>The nodes of a list that reach level \<open>i\<close>.\<close>

abbreviation on :: "sl_data \<Rightarrow> nat \<Rightarrow> ptr list \<Rightarrow> ptr list" where
  "on D i xs \<equiv> filter (\<lambda>x. i < lvl D x) xs"

text \<open>
  \<open>xs\<close> are the nodes in key order: together with the header they are the whole heap, and
  the chain of each level visits exactly the nodes tall enough, in that order.
\<close>

definition sl_ok ::
    "sl_data \<Rightarrow> (ptr \<Rightarrow> nat \<Rightarrow> ptr option option) \<Rightarrow> ptr \<Rightarrow> ptr list \<Rightarrow> bool" where
  "sl_ok D F hdr xs \<longleftrightarrow> distinct (hdr # xs) \<and> dom D = set (hdr # xs) \<and>
     (\<exists>v e. D hdr = Some (None, v, e, 17)) \<and> (\<forall>x \<in> set xs. wf_node D x) \<and>
     sorted_wrt (<) (map (keyof D) xs) \<and> (\<forall>i < 17. chn F i hdr (on D i xs))"

lemma sl_okD:
  assumes "sl_ok D F hdr xs"
  shows "distinct (hdr # xs)" "dom D = set (hdr # xs)" "\<exists>v e. D hdr = Some (None, v, e, 17)"
    "x \<in> set xs \<Longrightarrow> wf_node D x" "sorted_wrt (<) (map (keyof D) xs)"
    "i < 17 \<Longrightarrow> chn F i hdr (on D i xs)"
  using assms unfolding sl_ok_def by auto

lemma on_0: "\<forall>x \<in> set xs. wf_node D x \<Longrightarrow> on D 0 xs = xs"
  by (rule filter_True) (auto simp: wf_node_def lvl_def)

lemma on_mono: "i \<le> j \<Longrightarrow> set (on D j xs) \<subseteq> set (on D i xs)"
  by auto

lemma node_key:
  assumes "wf_node (ndata h) x"
  shows "\<exists>n. h x = Some n \<and> sn_key n = Some (keyof (ndata h) x)"
  using assms by (cases "h x") (auto simp: wf_node_def ndata_def keyof_def)

subsection \<open>Searching\<close>

text \<open>Where the key \<open>k\<close> splits the list.\<close>

definition split_at :: "sl_data \<Rightarrow> string \<Rightarrow> ptr list \<Rightarrow> ptr list \<Rightarrow> bool" where
  "split_at D k as bs \<longleftrightarrow> (\<forall>x \<in> set as. keyof D x < k) \<and> (\<forall>x \<in> set bs. \<not> keyof D x < k)"

lemma split_exists:
  assumes "sorted_wrt (<) (map (keyof D) xs)"
  obtains as bs where "xs = as @ bs" "split_at D k as bs"
proof
  let ?P = "\<lambda>x. keyof D x < k"
  show "xs = takeWhile ?P xs @ dropWhile ?P xs" by simp
  have "\<not> keyof D x < k" if x: "x \<in> set (dropWhile ?P xs)" for x
  proof (cases "dropWhile ?P xs")
    case (Cons y ys)
    then have y: "\<not> keyof D y < k" by (metis dropWhile_eq_Cons_conv)
    have "sorted_wrt (<) (map (keyof D) (y # ys))"
      using assms Cons by (metis sorted_wrt_append map_append takeWhile_dropWhile_id)
    with x Cons have "x = y \<or> keyof D y < keyof D x" by auto
    with y show ?thesis by (auto simp: not_less)
  next
    case Nil
    with x show ?thesis by (simp only: Nil) simp
  qed
  then show "split_at D k (takeWhile ?P xs) (dropWhile ?P xs)"
    unfolding split_at_def using set_takeWhileD [of _ ?P xs] by blast
qed

lemma walk_spec:
  assumes "chn (fwd h) i p (ys @ zs)" "\<forall>x \<in> set (ys @ zs). wf_node (ndata h) x"
    and "split_at (ndata h) k ys zs"
  shows "sl_walk h k i p = Some (last (p # ys))"
  using assms
proof (induction ys arbitrary: p)
  case Nil
  show ?case
  proof (cases zs)
    case Nil
    with \<open>chn (fwd h) i p ([] @ zs)\<close> show ?thesis
      by (subst sl_walk.simps) (simp add: chn_Nil)
  next
    case (Cons z zs')
    with Nil.prems have "fwd h p i = Some (Some z)" "wf_node (ndata h) z" "\<not> keyof (ndata h) z < k"
      by (auto simp: chn_Cons split_at_def)
    then show ?thesis by (subst sl_walk.simps) (auto dest!: node_key)
  qed
next
  case (Cons y ys)
  then have "fwd h p i = Some (Some y)" "wf_node (ndata h) y" "keyof (ndata h) y < k"
    by (auto simp: chn_Cons split_at_def)
  then have "sl_walk h k i p = sl_walk h k i y"
    by (subst sl_walk.simps) (auto dest!: node_key)
  also have "\<dots> = Some (last (y # ys))"
    using Cons.prems by (intro Cons.IH) (auto simp: chn_Cons split_at_def)
  finally show ?case by simp
qed

abbreviation pred_at :: "sl_data \<Rightarrow> ptr \<Rightarrow> ptr list \<Rightarrow> nat \<Rightarrow> ptr" where
  "pred_at D hdr as i \<equiv> last (hdr # on D i as)"

lemma walk_from:
  assumes ok: "sl_ok (ndata h) (fwd h) hdr (as @ bs)" "split_at (ndata h) k as bs" "i < 17"
    and cur: "cur \<in> set (hdr # on (ndata h) i as)"
  shows "sl_walk h k i cur = Some (pred_at (ndata h) hdr as i)"
proof -
  let ?A = "on (ndata h) i as" and ?B = "on (ndata h) i bs"
  from cur obtain us vs where s: "hdr # ?A = us @ cur # vs" by (meson split_list)
  then obtain us' where us: "?A = us' @ vs" "last (hdr # us') = cur"
    by (cases us) auto
  have "chn (fwd h) i hdr (us' @ vs @ ?B)" using sl_okD(6) [OF ok(1,3)] us(1) by simp
  then have "chn (fwd h) i cur (vs @ ?B)"
    unfolding chn_append [of _ _ _ us'] us(2) by blast
  moreover have "\<forall>x \<in> set (vs @ ?B). wf_node (ndata h) x"
  proof
    fix x assume "x \<in> set (vs @ ?B)"
    then have "x \<in> set (us' @ vs) \<or> x \<in> set ?B" by auto
    then have "x \<in> set (as @ bs)" unfolding us(1) [symmetric] by auto
    then show "wf_node (ndata h) x" by (rule sl_okD(4) [OF ok(1)])
  qed
  moreover have "split_at (ndata h) k vs ?B"
  proof -
    have "set vs \<subseteq> set ?A" using us(1) by simp
    with ok(2) show ?thesis by (auto simp: split_at_def)
  qed
  ultimately have "sl_walk h k i cur = Some (last (cur # vs))" by (rule walk_spec)
  moreover have "last (cur # vs) = last (hdr # ?A)" using us by (cases vs) auto
  ultimately show ?thesis by simp
qed

lemma pred_in: "i \<le> j \<Longrightarrow> pred_at D hdr as j \<in> set (hdr # on D i as)"
  using last_in_set [of "hdr # on D j as"] on_mono [of i j D as] by auto

lemma preds_from_spec:
  assumes "sl_ok (ndata h) (fwd h) hdr (as @ bs)" "split_at (ndata h) k as bs" "i < 17"
    and "cur \<in> set (hdr # on (ndata h) i as)"
  shows "preds_from h k i cur u =
    Some (\<lambda>j. if j \<le> i then Some (pred_at (ndata h) hdr as j) else u j)"
  using assms(3,4)
proof (induction i arbitrary: cur u)
  case 0
  with walk_from [OF assms(1,2), of 0 cur] show ?case by (auto simp: fun_eq_iff)
next
  case (Suc i)
  let ?c = "pred_at (ndata h) hdr as (Suc i)"
  have "preds_from h k (Suc i) cur u = preds_from h k i ?c (u(Suc i := Some ?c))"
    using walk_from [OF assms(1,2) Suc.prems] by simp
  also have "\<dots> = Some (\<lambda>j. if j \<le> i then Some (pred_at (ndata h) hdr as j)
                           else (u(Suc i := Some ?c)) j)"
    by (rule Suc.IH) (use Suc.prems(1) pred_in [of i "Suc i" hdr "ndata h" as] in auto)
  finally show ?case by (auto simp: fun_eq_iff le_Suc_eq)
qed

lemma sl_seek_spec:
  assumes "sl_ok (ndata h) (fwd h) hdr (as @ bs)" "split_at (ndata h) k as bs" "i < 17"
    and "cur \<in> set (hdr # on (ndata h) i as)"
  shows "sl_seek h k i cur = Some (pred_at (ndata h) hdr as 0)"
  using assms(3,4)
proof (induction i arbitrary: cur)
  case 0
  with walk_from [OF assms(1,2), of 0 cur] show ?case by simp
next
  case (Suc i)
  have "sl_seek h k (Suc i) cur = sl_seek h k i (pred_at (ndata h) hdr as (Suc i))"
    using walk_from [OF assms(1,2) Suc.prems] by simp
  also have "\<dots> = Some (pred_at (ndata h) hdr as 0)"
    by (rule Suc.IH) (use Suc.prems(1) pred_in [of i "Suc i" hdr "ndata h" as] in auto)
  finally show ?case .
qed

lemma chn_at_pred:
  assumes "sl_ok D F hdr (as @ bs)" "i < 17"
  shows "F (pred_at D hdr as i) i = Some (first_of (on D i bs))"
  using sl_okD(6) [OF assms] by (auto simp: chn_append dest: chn_first)

subsection \<open>Linking and unlinking on all levels\<close>

lemma set_fwd_lvl:
  assumes "i < lvl (ndata h) p"
  obtains h' where "set_fwd h p i x = Some h'" "ndata h' = ndata h"
    "fwd h' = (\<lambda>q j. if q = p \<and> j = i then Some x else fwd h q j)"
proof -
  from assms obtain k v e l where "ndata h p = Some (k, v, e, l)" "i < l"
    by (auto simp: lvl_def split: option.splits)
  from set_fwd_spec [OF this] that show ?thesis by metis
qed

lemma fwd_lvl: "i < lvl (ndata h) p \<Longrightarrow> \<exists>x. fwd h p i = Some x"
  by (auto simp: lvl_def ndata_def fwd_def split: option.splits)

lemma link_levels_spec:
  assumes "\<forall>j < n. u j = Some (w j) \<and> w j \<noteq> new \<and> j < lvl (ndata h) (w j)" "n \<le> lvl (ndata h) new"
  shows "\<exists>h'. link_levels new u n h = Some h' \<and> ndata h' = ndata h \<and>
    fwd h' = (\<lambda>p j. if j < n then (if p = new then fwd h (w j) j
                                 else if p = w j then Some (Some new) else fwd h p j)
                    else fwd h p j)"
  using assms
proof (induction n)
  case (Suc i)
  then obtain h1 where h1: "link_levels new u i h = Some h1" "ndata h1 = ndata h"
    "fwd h1 = (\<lambda>p j. if j < i then (if p = new then fwd h (w j) j
                                 else if p = w j then Some (Some new) else fwd h p j)
                    else fwd h p j)" by auto
  from Suc.prems have w: "u i = Some (w i)" "w i \<noteq> new" "i < lvl (ndata h) (w i)"
    "i < lvl (ndata h) new" by auto
  then obtain nxt where nxt: "fwd h (w i) i = Some nxt" using fwd_lvl by blast
  obtain h2 where h2: "set_fwd h1 new i nxt = Some h2" "ndata h2 = ndata h1"
    "fwd h2 = (\<lambda>q j. if q = new \<and> j = i then Some nxt else fwd h1 q j)"
    by (rule set_fwd_lvl [of i h1 new nxt]) (use w h1(2) in auto)
  obtain h3 where h3: "set_fwd h2 (w i) i (Some new) = Some h3" "ndata h3 = ndata h2"
    "fwd h3 = (\<lambda>q j. if q = w i \<and> j = i then Some (Some new) else fwd h2 q j)"
    by (rule set_fwd_lvl [of i h2 "w i" "Some new"]) (use w h1(2) h2(2) in auto)
  have "link_levels new u (Suc i) h = Some h3"
    using h1 w nxt h2 h3 by simp
  moreover have "fwd h3 p j = (if j < Suc i then (if p = new then fwd h (w j) j
      else if p = w j then Some (Some new) else fwd h p j) else fwd h p j)" for p j
    unfolding h3(3) h2(3) h1(3) using w(2) nxt by (auto simp: less_Suc_eq)
  ultimately show ?case using h1(2) h2(2) h3(2) by (auto simp: fun_eq_iff)
qed simp

lemma unlink_levels_spec:
  assumes "\<forall>j < n. u j = Some (w j) \<and> w j \<noteq> t \<and> j < lvl (ndata h) (w j) \<and>
      (fwd h (w j) j = Some (Some t) \<longrightarrow> j < lvl (ndata h) t)"
  shows "\<exists>h'. unlink_levels t u n h = Some h' \<and> ndata h' = ndata h \<and>
    fwd h' = (\<lambda>p j. if j < n \<and> p = w j \<and> fwd h p j = Some (Some t) then fwd h t j else fwd h p j)"
  using assms
proof (induction n)
  case (Suc i)
  then obtain h1 where h1: "unlink_levels t u i h = Some h1" "ndata h1 = ndata h"
    "fwd h1 = (\<lambda>p j. if j < i \<and> p = w j \<and> fwd h p j = Some (Some t) then fwd h t j
                     else fwd h p j)" by auto
  from Suc.prems have w: "u i = Some (w i)" "w i \<noteq> t" "i < lvl (ndata h) (w i)"
    "fwd h (w i) i = Some (Some t) \<Longrightarrow> i < lvl (ndata h) t" by auto
  then obtain nxt where nxt: "fwd h (w i) i = Some nxt" using fwd_lvl by blast
  show ?case
  proof (cases "nxt = Some t")
    case True
    with w(4) nxt obtain x where x: "fwd h t i = Some x" using fwd_lvl by blast
    obtain h2 where h2: "set_fwd h1 (w i) i x = Some h2" "ndata h2 = ndata h1"
      "fwd h2 = (\<lambda>q j. if q = w i \<and> j = i then Some x else fwd h1 q j)"
      by (rule set_fwd_lvl [of i h1 "w i" x]) (use w h1(2) in auto)
    have "unlink_levels t u (Suc i) h = Some h2" using h1 w nxt True x h2 by simp
    moreover have "fwd h2 p j = (if j < Suc i \<and> p = w j \<and> fwd h p j = Some (Some t)
        then fwd h t j else fwd h p j)" for p j
      unfolding h2(3) h1(3) using nxt True x by (auto simp: less_Suc_eq)
    ultimately show ?thesis using h1(2) h2(2) by (auto simp: fun_eq_iff)
  next
    case False
    then have "unlink_levels t u (Suc i) h = Some h1" using h1 w nxt by simp
    moreover have "fwd h1 p j = (if j < Suc i \<and> p = w j \<and> fwd h p j = Some (Some t)
        then fwd h t j else fwd h p j)" for p j
      unfolding h1(3) using nxt False by (auto simp: less_Suc_eq)
    ultimately show ?thesis using h1(2) by (auto simp: fun_eq_iff)
  qed
qed simp

subsection \<open>Insertion, removal and update keep the list well formed\<close>

lemma on_upd: "x \<notin> set xs \<Longrightarrow> on (D(x := y)) i xs = on D i xs"
  by (rule filter_cong) (auto simp: lvl_def)

lemma keyof_upd: "x \<notin> set xs \<Longrightarrow> map (keyof (D(x := y))) xs = map (keyof D) xs"
  by (auto simp: keyof_def)

lemma wf_node_upd: "x' \<noteq> x \<Longrightarrow> wf_node (D(x := y)) x' \<longleftrightarrow> wf_node D x'"
  by (simp add: wf_node_def)

lemma split_sorted:
  assumes "sorted_wrt (<) (map (keyof D) (as @ bs))" "split_at D k as bs" "\<forall>x \<in> set bs. keyof D x \<noteq> k"
  shows "sorted_wrt (<) (map (keyof D) as @ k # map (keyof D) bs)"
proof -
  have "\<forall>x \<in> set bs. k < keyof D x"
    using assms(2,3) unfolding split_at_def by (metis not_less_iff_gr_or_eq)
  with assms(1,2) show ?thesis by (auto simp: sorted_wrt_append split_at_def)
qed

lemma pred_in_list: "pred_at D hdr as i \<in> set (hdr # as)"
  using last_in_set [of "hdr # on D i as"] by auto

lemma sl_ok_insert:
  assumes ok: "sl_ok D F hdr (as @ bs)" and sp: "split_at D k as bs" "\<forall>x \<in> set bs. keyof D x \<noteq> k"
    and new: "D new = None" "1 \<le> L" "L \<le> 17"
    and D': "D' = D(new \<mapsto> (Some k, VStr v, e, L))"
    and F': "\<And>p j. F' p j = (if j < L then (if p = new then F (pred_at D hdr as j) j
        else if p = pred_at D hdr as j then Some (Some new) else F p j)
        else if p = new then G j else F p j)"
  shows "sl_ok D' F' hdr (as @ new # bs)"
proof -
  note okD = sl_okD [OF ok]
  have fresh: "new \<notin> set (hdr # as @ bs)" using new(1) okD(2) by auto
  then have f: "new \<notin> set as" "new \<notin> set bs" "new \<noteq> hdr" by auto
  have lv: "lvl D' new = L" "keyof D' new = k" "wf_node D' new"
    using new by (auto simp: D' lvl_def keyof_def wf_node_def)
  have chn: "chn F' i hdr (on D' i (as @ new # bs))" if i: "i < 17" for i
  proof -
    have c: "chn F i hdr (on D i as @ on D i bs)" using okD(6) [OF i] by simp
    show ?thesis
    proof (cases "i < L")
      case True
      have "chn F' i hdr (on D i as @ new # on D i bs)"
      proof (rule chn_insert [OF c])
        show "distinct (hdr # on D i as @ on D i bs)" using okD(1) by auto
        show "new \<notin> set (hdr # on D i as @ on D i bs)" using fresh by auto
        show "F' new i = F (last (hdr # on D i as)) i" using True by (simp add: F')
        have "pred_at D hdr as i \<noteq> new" using pred_in_list [of hdr i D as] fresh by auto
        then show "F' (last (hdr # on D i as)) i = Some (Some new)" using True by (simp add: F')
      qed (use True in \<open>auto simp: F'\<close>)
      with True lv(1) f show ?thesis by (simp add: D' on_upd)
    next
      case False
      have "chn F' i hdr (on D i as @ on D i bs) \<longleftrightarrow> chn F i hdr (on D i as @ on D i bs)"
        by (rule chn_cong) (use False fresh in \<open>auto simp: F'\<close>)
      with c False lv(1) f show ?thesis by (simp add: D' on_upd)
    qed
  qed
  have sorted: "sorted_wrt (<) (map (keyof D') (as @ new # bs))"
    using split_sorted [OF okD(5) sp] lv(2) f by (simp add: D' keyof_upd)
  have "wf_node D' x" if "x \<in> set (as @ new # bs)" for x
    using that lv(3) okD(4) [of x] by (cases "x = new") (auto simp: D' wf_node_upd)
  with chn sorted fresh okD(1,2,3) show ?thesis
    unfolding sl_ok_def by (auto simp: D')
qed

lemma sl_ok_remove:
  assumes ok: "sl_ok D F hdr (as @ t # bs)" and n: "lvl D t \<le> n"
    and D': "D' = D(t := None)"
    and F': "\<And>p j. F' p j = (if p = t then None
        else if j < n \<and> p = pred_at D hdr as j \<and> F p j = Some (Some t) then F t j else F p j)"
  shows "sl_ok D' F' hdr (as @ bs)"
proof -
  note okD = sl_okD [OF ok]
  have t: "t \<notin> set as" "t \<notin> set bs" "t \<noteq> hdr" "t \<notin> set (hdr # as @ bs)" using okD(1) by auto
  have chn: "chn F' i hdr (on D' i (as @ bs))" if i: "i < 17" for i
  proof -
    have c: "chn F i hdr (on D i as @ on D i (t # bs))" using okD(6) [OF i] by simp
    have on: "on D' i (as @ bs) = on D i as @ on D i bs" using t by (simp add: D' on_upd)
    have p: "F (pred_at D hdr as i) i = Some (first_of (on D i (t # bs)))"
      by (rule chn_at_pred [OF ok i])
    have pt: "pred_at D hdr as i \<noteq> t" using pred_in_list [of hdr i D as] t by auto
    show ?thesis
    proof (cases "i < lvl D t")
      case True
      have "chn F' i hdr (on D i as @ on D i bs)"
      proof (rule chn_remove)
        show "chn F i hdr (on D i as @ t # on D i bs)" using c True by simp
        show "distinct (hdr # on D i as @ t # on D i bs)" using okD(1) by auto
        show "F' (last (hdr # on D i as)) i = F t i" using p pt True n by (simp add: F')
      qed (auto simp: F')
      with on show ?thesis by simp
    next
      case False
      then have "F (pred_at D hdr as i) i \<noteq> Some (Some t)"
        using p t(2) by (auto dest!: first_of_in)
      then have "chn F' i hdr (on D i as @ on D i bs) \<longleftrightarrow> chn F i hdr (on D i as @ on D i bs)"
        by (intro chn_cong) (use t in \<open>auto simp: F'\<close>)
      with c False on show ?thesis by simp
    qed
  qed
  have sorted: "sorted_wrt (<) (map (keyof D') (as @ bs))"
    using okD(5) t by (simp add: D' keyof_upd sorted_wrt_append)
  have "wf_node D' x" if "x \<in> set (as @ bs)" for x
    using that t okD(4) [of x] by (cases "x = t") (auto simp: D' wf_node_upd)
  with chn sorted t okD(1,2,3) show ?thesis
    unfolding sl_ok_def by (auto simp: D')
qed

lemma sl_ok_update:
  assumes ok: "sl_ok D F hdr xs" and p: "p \<in> set xs" "D p = Some (Some k, v0, e0, l)"
    and D': "D' = D(p \<mapsto> (Some k, VStr v, e, l))"
  shows "sl_ok D' F hdr xs"
proof -
  note okD = sl_okD [OF ok]
  have "lvl D' = lvl D" "keyof D' = keyof D"
    using p by (auto simp: D' lvl_def keyof_def fun_eq_iff)
  moreover have "wf_node D' x" if "x \<in> set xs" for x
    using okD(4) [OF that] okD(4) [OF p(1)] p(2) by (cases "x = p") (auto simp: D' wf_node_def)
  moreover have "p \<noteq> hdr" using okD(1) p(1) by auto
  ultimately show ?thesis using ok p unfolding sl_ok_def by (auto simp: D')
qed

subsection \<open>Invariant and abstraction\<close>

definition valof :: "sl_data \<Rightarrow> ptr \<Rightarrow> string \<times> int" where
  "valof D x = (case D x of Some (k, VStr v, e, l) \<Rightarrow> (v, e) | _ \<Rightarrow> ([], 0))"

abbreviation ents :: "sl_data \<Rightarrow> ptr list \<Rightarrow> (string \<times> string \<times> int) list" where
  "ents D xs \<equiv> map (\<lambda>x. (keyof D x, valof D x)) xs"

definition sl_rep :: "skiplist \<Rightarrow> ptr \<Rightarrow> ptr list \<Rightarrow> bool" where
  "sl_rep s hdr xs \<longleftrightarrow> header s = Some hdr \<and> sl_ok (ndata (heap s)) (fwd (heap s)) hdr xs \<and>
     slevel s \<le> 16 \<and> (\<forall>x \<in> set xs. lvl (ndata (heap s)) x \<le> slevel s + 1) \<and>
     (\<forall>p. next_ptr s \<le> p \<longrightarrow> heap s p = None) \<and> ssize s = int_wrap (int (length xs))"

definition kvs_skiplist_inv :: "skiplist \<Rightarrow> bool" where
  "kvs_skiplist_inv s \<longleftrightarrow> (\<exists>hdr xs. sl_rep s hdr xs)"

text \<open>The bottom chain from the header; the number of addresses handed out bounds its length.\<close>

primrec chain_list :: "nat \<Rightarrow> sl_heap \<Rightarrow> ptr option \<Rightarrow> ptr list" where
  "chain_list 0 h p = []"
| "chain_list (Suc f) h p =
     (case p of None \<Rightarrow> [] | Some q \<Rightarrow> q # chain_list f h (the (fwd h q 0)))"

definition kvs_skiplist_abs :: "skiplist \<Rightarrow> store" where
  "kvs_skiplist_abs s =
     map_of (ents (ndata (heap s))
       (chain_list (next_ptr s) (heap s) (the (fwd (heap s) (the (header s)) 0))))"

lemma chain_list_eq:
  "chn (fwd h) 0 p xs \<Longrightarrow> length xs \<le> f \<Longrightarrow> chain_list f h (the (fwd h p 0)) = xs"
proof (induction xs arbitrary: p f)
  case Nil
  then show ?case by (cases f) (auto simp: chn_Nil)
next
  case (Cons x xs)
  then obtain f' where "f = Suc f'" by (cases f) auto
  with Cons show ?case by (auto simp: chn_Cons)
qed

lemma sl_repD:
  assumes "sl_rep s hdr xs"
  shows "header s = Some hdr" "sl_ok (ndata (heap s)) (fwd (heap s)) hdr xs" "slevel s \<le> 16"
    "x \<in> set xs \<Longrightarrow> lvl (ndata (heap s)) x \<le> slevel s + 1"
    "next_ptr s \<le> p \<Longrightarrow> heap s p = None" "ssize s = int_wrap (int (length xs))"
  using assms unfolding sl_rep_def by auto

lemma sl_rep_ptrs:
  assumes "sl_rep s hdr xs"
  shows "x \<in> set (hdr # xs) \<Longrightarrow> x < next_ptr s" "length xs \<le> next_ptr s"
proof -
  have dom: "dom (ndata (heap s)) = set (hdr # xs)" "distinct (hdr # xs)"
    using sl_okD(1,2) [OF sl_repD(2) [OF assms]] by simp_all
  have lt: "x < next_ptr s" if "x \<in> set (hdr # xs)" for x
  proof -
    have "x \<in> dom (ndata (heap s))" unfolding dom(1) by (rule that)
    then have "heap s x \<noteq> None" by (auto simp: ndata_def)
    with assms show ?thesis unfolding sl_rep_def by (metis not_le)
  qed
  then show "x \<in> set (hdr # xs) \<Longrightarrow> x < next_ptr s" by simp
  have "card (set xs) \<le> card {..<next_ptr s}" by (rule card_mono) (use lt in auto)
  with dom(2) show "length xs \<le> next_ptr s" by (simp add: distinct_card)
qed

lemma abs_rep:
  assumes "sl_rep s hdr xs"
  shows "kvs_skiplist_abs s = map_of (ents (ndata (heap s)) xs)"
proof -
  from assms have ok: "header s = Some hdr" "sl_ok (ndata (heap s)) (fwd (heap s)) hdr xs"
    by (simp_all add: sl_rep_def)
  have "on (ndata (heap s)) 0 xs = xs" using sl_okD(4) [OF ok(2)] by (intro on_0) blast
  with sl_okD(6) [OF ok(2), of 0] have "chn (fwd (heap s)) 0 hdr xs" by simp
  from chain_list_eq [OF this sl_rep_ptrs(2) [OF assms]] ok(1) show ?thesis
    by (simp add: kvs_skiplist_abs_def)
qed

lemma map_of_mid:
  assumes "k \<notin> fst ` set as" "k \<notin> fst ` set bs"
  shows "map_of (as @ (k, y) # bs) = (map_of (as @ bs))(k \<mapsto> y)" "map_of (as @ bs) k = None"
proof -
  have "k \<notin> dom (map_of as)" "k \<notin> dom (map_of bs)" using assms by (auto simp: dom_map_of_conv_image_fst)
  then show "map_of (as @ (k, y) # bs) = (map_of (as @ bs))(k \<mapsto> y)" "map_of (as @ bs) k = None"
    by (auto simp: map_add_upd_left domIff)
qed

lemma ents_upd: "x \<notin> set xs \<Longrightarrow> ents (D(x := y)) xs = ents D xs"
  by (auto simp: keyof_def valof_def)

text \<open>What a search for \<open>k\<close> finds: the key is absent, or the first node not before it has it.\<close>

lemma sl_lookup:
  assumes "sl_rep s hdr xs"
  obtains (absent) as bs where "xs = as @ bs" "split_at (ndata (heap s)) k as bs"
      "\<forall>x \<in> set bs. keyof (ndata (heap s)) x \<noteq> k" "kvs_skiplist_abs s k = None"
      "key_match (heap s) (first_of bs) k = Some None"
    | (present) as t bs n v where "xs = as @ t # bs" "split_at (ndata (heap s)) k as (t # bs)"
      "heap s t = Some n" "sn_key n = Some k" "sn_value n = VStr v"
      "k \<notin> fst ` set (ents (ndata (heap s)) as)" "k \<notin> fst ` set (ents (ndata (heap s)) bs)"
      "kvs_skiplist_abs s k = Some (v, sn_expire n)"
      "key_match (heap s) (Some t) k = Some (Some n)"
proof -
  let ?D = "ndata (heap s)"
  from assms have ok: "sl_ok ?D (fwd (heap s)) hdr xs" by (simp add: sl_rep_def)
  obtain as bs where xs: "xs = as @ bs" and sp: "split_at ?D k as bs"
    by (rule split_exists [OF sl_okD(5) [OF ok]])
  have asn: "\<forall>x \<in> set as. keyof ?D x \<noteq> k" using sp by (auto simp: split_at_def)
  show ?thesis
  proof (cases "bs \<noteq> [] \<and> keyof ?D (hd bs) = k")
    case True
    then obtain t bs' where bs: "bs = t # bs'" "keyof ?D t = k" by (cases bs) auto
    with sl_okD(4) [OF ok, of t] xs obtain n v where n: "heap s t = Some n" "sn_key n = Some k"
      "sn_value n = VStr v" by (auto simp: wf_node_def ndata_def keyof_def)
    have d: "distinct (map (keyof ?D) xs)" using sl_okD(5) [OF ok] by (simp add: strict_sorted_iff)
    have nk: "k \<notin> fst ` set (ents ?D as)" "k \<notin> fst ` set (ents ?D bs')"
      using d xs bs by auto
    have "valof ?D t = (v, sn_expire n)" using n by (simp add: valof_def ndata_def)
    then have "kvs_skiplist_abs s k = Some (v, sn_expire n)"
      using abs_rep [OF assms] map_of_mid(1) [OF nk] xs bs by simp
    moreover have "key_match (heap s) (Some t) k = Some (Some n)" using n by (simp add: key_match_def)
    ultimately show ?thesis using present xs bs sp n nk by blast
  next
    case False
    have "keyof ?D x \<noteq> k" if "x \<in> set bs" for x
    proof (cases bs)
      case (Cons y ys)
      with sl_okD(5) [OF ok] xs that have "x = y \<or> keyof ?D y < keyof ?D x"
        by (auto simp: sorted_wrt_append)
      with Cons False sp show ?thesis by (auto simp: split_at_def)
    qed (use that in simp)
    then have bsn: "\<forall>x \<in> set bs. keyof ?D x \<noteq> k" by blast
    have "kvs_skiplist_abs s k = None"
      using abs_rep [OF assms] asn bsn by (auto simp: xs map_of_eq_None_iff)
    moreover have "key_match (heap s) (first_of bs) k = Some None"
    proof (cases bs)
      case (Cons y ys)
      with bsn sl_okD(4) [OF ok, of y] xs node_key [of "heap s" y] show ?thesis
        by (auto simp: key_match_def)
    qed (simp add: key_match_def)
    ultimately show ?thesis using absent xs sp bsn by blast
  qed
qed

lemma sl_search:
  assumes "sl_rep s hdr xs" "xs = as @ bs" "split_at (ndata (heap s)) k as bs"
  shows "skiplist_find_predecessors s k =
      Some (\<lambda>j. if j \<le> slevel s then Some (pred_at (ndata (heap s)) hdr as j) else None)"
    "sl_seek (heap s) k (slevel s) hdr = Some (pred_at (ndata (heap s)) hdr as 0)"
    "fwd (heap s) (pred_at (ndata (heap s)) hdr as 0) 0 = Some (first_of bs)"
proof -
  from assms(1,2) have ok: "sl_ok (ndata (heap s)) (fwd (heap s)) hdr (as @ bs)"
    "header s = Some hdr" "slevel s < 17" by (auto simp: sl_rep_def)
  show "skiplist_find_predecessors s k =
      Some (\<lambda>j. if j \<le> slevel s then Some (pred_at (ndata (heap s)) hdr as j) else None)"
    using preds_from_spec [OF ok(1) assms(3) ok(3), of hdr] ok(2)
    by (simp add: skiplist_find_predecessors_def)
  show "sl_seek (heap s) k (slevel s) hdr = Some (pred_at (ndata (heap s)) hdr as 0)"
    using sl_seek_spec [OF ok(1) assms(3) ok(3), of hdr] by simp
  have "on (ndata (heap s)) 0 bs = bs" using sl_okD(4) [OF ok(1)] by (intro on_0) auto
  with chn_at_pred [OF ok(1), of 0]
  show "fwd (heap s) (pred_at (ndata (heap s)) hdr as 0) 0 = Some (first_of bs)" by simp
qed

subsection \<open>Each operation on the abstract store\<close>

lemma random_level_bound: "fst (random_level rnd pos) \<le> SKIPLIST_MAX_LEVEL"
proof -
  have "level \<le> SKIPLIST_MAX_LEVEL \<Longrightarrow> fst (random_level_from rnd pos level) \<le> SKIPLIST_MAX_LEVEL"
    for level
    by (induction rnd pos level rule: random_level_from.induct)
      (subst random_level_from.simps, auto simp del: random_level_from.simps)
  then show ?thesis by (simp add: random_level_def)
qed

lemma shrink_level_spec:
  assumes "\<forall>i \<le> l. fwd h hdr i \<noteq> None"
  shows "\<exists>l' \<le> l. shrink_level h hdr l = Some l' \<and> (\<forall>i. l' < i \<and> i \<le> l \<longrightarrow> fwd h hdr i = Some None)"
  using assms
proof (induction l)
  case (Suc l)
  then obtain p where p: "fwd h hdr (Suc l) = Some p" by auto
  show ?case
  proof (cases "p = None")
    case True
    from Suc obtain l' where "l' \<le> l" "shrink_level h hdr l = Some l'"
      "\<forall>i. l' < i \<and> i \<le> l \<longrightarrow> fwd h hdr i = Some None" by auto
    with p True show ?thesis by (intro exI [of _ l']) (auto simp: le_Suc_eq)
  next
    case False
    with p show ?thesis by (intro exI [of _ "Suc l"]) auto
  qed
qed simp

lemma lvl_pred:
  assumes "sl_ok D F hdr xs" "i < 17"
  shows "i < lvl D (pred_at D hdr as i)"
proof (cases "on D i as = []")
  case True
  with assms sl_okD(3) [OF assms(1)] show ?thesis by (auto simp: lvl_def)
next
  case False
  then have "pred_at D hdr as i \<in> set (on D i as)" by (simp del: set_filter)
  then show ?thesis by simp
qed

lemma fwd_free: "fwd (h(t := None)) = (\<lambda>p j. if p = t then None else fwd h p j)"
  by (auto simp: fwd_def fun_eq_iff)

lemma ndata_upd: "ndata (h(t := y)) = (ndata h)(t := map_option
    (\<lambda>n. (sn_key n, sn_value n, sn_expire n, length (sn_forward n))) y)"
  by (auto simp: ndata_def fun_eq_iff)

lemma fwd_same: "h t = Some n \<Longrightarrow> sn_forward n' = sn_forward n \<Longrightarrow> fwd (h(t \<mapsto> n')) = fwd h"
  by (auto simp: fwd_def fun_eq_iff)

lemma del_present:
  assumes rep: "sl_rep s hdr (as @ t # bs)" and sp: "split_at (ndata (heap s)) k as (t # bs)"
    and n: "key_match (heap s) (Some t) k = Some (Some n)"
  obtains s' where "kvs_skiplist_del s (Some k) = Some (0, s')" "sl_rep s' hdr (as @ bs)"
    "ndata (heap s') = (ndata (heap s))(t := None)"
proof -
  let ?D = "ndata (heap s)" and ?F = "fwd (heap s)" and ?n = "slevel s + 1"
  let ?w = "\<lambda>j. pred_at ?D hdr as j"
  let ?u = "\<lambda>j. if j \<le> slevel s then Some (?w j) else None"
  note repD = sl_repD [OF rep] and okD = sl_okD [OF sl_repD(2) [OF rep]]
  note search = sl_search [OF rep refl sp]
  have t: "t \<notin> set (hdr # as @ bs)" "lvl ?D t \<le> ?n" using okD(1) repD(4) [of t] by auto
  have pre: "\<forall>j < ?n. ?u j = Some (?w j) \<and> ?w j \<noteq> t \<and> j < lvl ?D (?w j) \<and>
      (?F (?w j) j = Some (Some t) \<longrightarrow> j < lvl ?D t)"
  proof (intro allI impI)
    fix j assume j: "j < ?n"
    with repD(3) have j17: "j < 17" by simp
    have "?w j \<noteq> t" using pred_in_list [of hdr j ?D as] t by auto
    moreover have "j < lvl ?D t" if "?F (?w j) j = Some (Some t)"
    proof -
      have "first_of (on ?D j (t # bs)) = Some t" using chn_at_pred [OF repD(2) j17] that by simp
      from first_of_in [OF this] show ?thesis by (simp split: if_splits)
    qed
    ultimately show "?u j = Some (?w j) \<and> ?w j \<noteq> t \<and> j < lvl ?D (?w j) \<and>
      (?F (?w j) j = Some (Some t) \<longrightarrow> j < lvl ?D t)"
      using j lvl_pred [OF repD(2) j17] by simp
  qed
  from unlink_levels_spec [OF pre] obtain h where h: "unlink_levels t ?u ?n (heap s) = Some h"
    "ndata h = ?D" "fwd h = (\<lambda>p j. if j < ?n \<and> p = ?w j \<and> ?F p j = Some (Some t)
                      then ?F t j else ?F p j)" by blast
  have "\<forall>i \<le> slevel s. fwd h hdr i \<noteq> None"
  proof (intro allI impI)
    fix i assume "i \<le> slevel s"
    with repD(3) okD(3) h(2) have "i < lvl (ndata h) hdr" by (auto simp: lvl_def)
    from fwd_lvl [OF this] show "fwd h hdr i \<noteq> None" by auto
  qed
  from shrink_level_spec [OF this] obtain l where l: "l \<le> slevel s" "shrink_level h hdr (slevel s) = Some l"
    "\<forall>i. l < i \<and> i \<le> slevel s \<longrightarrow> fwd h hdr i = Some None" by blast
  have "?D t \<noteq> None" using okD(4) [of t] by (auto simp: wf_node_def)
  then have "h t \<noteq> None" using h(2) by (metis (no_types, lifting) ndata_def option.map_disc_iff)
  then have fr: "skiplist_free_node h t = Some (h(t := None))" by (simp add: skiplist_free_node_def)
  let ?s = "s\<lparr>heap := h(t := None), slevel := l, ssize := int_wrap (ssize s - 1)\<rparr>"
  have D': "ndata (h(t := None)) = ?D(t := None)" using h(2) by (simp add: ndata_upd)
  have ok': "sl_ok (ndata (h(t := None))) (fwd (h(t := None))) hdr (as @ bs)"
    by (rule sl_ok_remove [OF repD(2) t(2) D']) (simp add: fwd_free h(3))
  have lv: "lvl (ndata (h(t := None))) x \<le> l + 1" if x: "x \<in> set (as @ bs)" for x
  proof (rule ccontr)
    assume c: "\<not> lvl (ndata (h(t := None))) x \<le> l + 1"
    have "x \<noteq> t" using x t(1) by auto
    then have "lvl (ndata (h(t := None))) x = lvl ?D x" by (simp add: D' lvl_def)
    with repD(4) [of x] x c have i: "l + 1 \<le> slevel s" by auto
    then have "chn (fwd (h(t := None))) (l + 1) hdr (on (ndata (h(t := None))) (l + 1) (as @ bs))"
      using repD(3) by (intro sl_okD(6) [OF ok']) simp
    from chn_first [OF this] i l(3) t(1) have
      "first_of (on (ndata (h(t := None))) (l + 1) (as @ bs)) = None" by (simp add: fwd_free)
    moreover have "x \<in> set (on (ndata (h(t := None))) (l + 1) (as @ bs))" using x c by simp
    ultimately show False by (metis first_of_None empty_iff list.set(1))
  qed
  have fresh: "(h(t := None)) p = None" if "next_ptr s \<le> p" for p
    using repD(5) [OF that] h(2) by (metis (no_types, lifting) fun_upd_apply ndata_def option.map_disc_iff)
  have sz: "int_wrap (ssize s - 1) = int_wrap (int (length (as @ bs)))"
    using repD(6) int_wrap_add [of "int (length (as @ t # bs))" "-1"] by simp
  have "sl_rep ?s hdr (as @ bs)"
    using repD(1,3) ok' l(1) lv fresh sz by (simp add: sl_rep_def)
  moreover have "kvs_skiplist_del s (Some k) = Some (0, ?s)"
    using repD(1) search(1,3) n h(1) l(2) fr
    by (simp add: kvs_skiplist_del_def del: unlink_levels.simps last.simps)
  ultimately show ?thesis using that [of ?s] D' by simp
qed

lemma link_new:
  assumes rep: "sl_rep s hdr (as @ bs)" and L: "L \<le> 17"
    and n: "n = \<lparr>sn_key = Some k, sn_value = VStr v, sn_forward = replicate L None, sn_expire = e\<rparr>"
    and u: "\<And>j. j < L \<Longrightarrow> u j = Some (pred_at (ndata (heap s)) hdr as j)"
  obtains h where "link_levels (next_ptr s) u L ((heap s)(next_ptr s \<mapsto> n)) = Some h"
    "ndata h = (ndata (heap s))(next_ptr s \<mapsto> (Some k, VStr v, e, L))"
    "\<And>p j. fwd h p j = (if j < L then (if p = next_ptr s then fwd (heap s) (pred_at (ndata (heap s)) hdr as j) j
        else if p = pred_at (ndata (heap s)) hdr as j then Some (Some (next_ptr s)) else fwd (heap s) p j)
        else if p = next_ptr s then None else fwd (heap s) p j)"
proof -
  let ?D = "ndata (heap s)" and ?new = "next_ptr s"
  let ?h = "(heap s)(?new \<mapsto> n)" and ?w = "\<lambda>j. pred_at ?D hdr as j"
  note repD = sl_repD [OF rep]
  have D: "ndata ?h = ?D(?new \<mapsto> (Some k, VStr v, e, L))" by (simp add: ndata_upd n)
  have F: "fwd ?h = (\<lambda>p j. if p = ?new then (if j < L then Some None else None) else fwd (heap s) p j)"
    by (auto simp: fwd_def n fun_eq_iff)
  have w: "?w j \<noteq> ?new" for j
    using pred_in_list [of hdr j ?D as] sl_rep_ptrs(1) [OF rep, of "?w j"] by auto
  have "\<forall>j < L. u j = Some (?w j) \<and> ?w j \<noteq> ?new \<and> j < lvl (ndata ?h) (?w j)"
  proof (intro allI impI)
    fix j assume j: "j < L"
    have "lvl (ndata ?h) (?w j) = lvl ?D (?w j)" using w [of j] by (simp add: D lvl_def)
    with lvl_pred [OF repD(2), of j as] j L u [OF j] w [of j]
    show "u j = Some (?w j) \<and> ?w j \<noteq> ?new \<and> j < lvl (ndata ?h) (?w j)" by simp
  qed
  moreover have "L \<le> lvl (ndata ?h) ?new" by (simp add: D lvl_def)
  ultimately obtain h where h: "link_levels ?new u L ?h = Some h" "ndata h = ndata ?h"
    "fwd h = (\<lambda>p j. if j < L then (if p = ?new then fwd ?h (?w j) j
        else if p = ?w j then Some (Some ?new) else fwd ?h p j) else fwd ?h p j)"
    using link_levels_spec [of L u ?w ?new ?h] by blast
  show ?thesis
  proof (rule that [OF h(1)])
    show "ndata h = ?D(?new \<mapsto> (Some k, VStr v, e, L))" using h(2) D by simp
    show "fwd h p j = (if j < L then (if p = ?new then fwd (heap s) (?w j) j
        else if p = ?w j then Some (Some ?new) else fwd (heap s) p j)
        else if p = ?new then None else fwd (heap s) p j)" for p j
      unfolding h(3) F using w [of j] by simp
  qed
qed

lemma set_absent:
  assumes rep: "sl_rep s hdr (as @ bs)" and sp: "split_at (ndata (heap s)) k as bs"
    and nk: "\<forall>x \<in> set bs. keyof (ndata (heap s)) x \<noteq> k"
    and km: "key_match (heap s) (first_of bs) k = Some None"
  obtains s' where "kvs_skiplist_set all_ok rnd s (Some k) (Some v) e = Some (0, s')"
    "sl_rep s' hdr (as @ next_ptr s # bs)"
    "\<exists>L. ndata (heap s') = (ndata (heap s))(next_ptr s \<mapsto> (Some k, VStr v, e, L))"
proof -
  let ?D = "ndata (heap s)" and ?new = "next_ptr s" and ?w = "\<lambda>j. pred_at (ndata (heap s)) hdr as j"
  note repD = sl_repD [OF rep] and search = sl_search [OF rep refl sp]
  obtain level pos where rl: "random_level rnd (rand_pos s) = (level, pos)"
    by (cases "random_level rnd (rand_pos s)")
  with random_level_bound [of rnd "rand_pos s"] have lev: "level \<le> 16"
    by (simp add: SKIPLIST_MAX_LEVEL_def)
  let ?n = "\<lparr>sn_key = Some k, sn_value = VStr v, sn_forward = replicate (level + 1) None, sn_expire = e\<rparr>"
  let ?u = "\<lambda>j. if slevel s < j \<and> j \<le> level then Some hdr
              else if j \<le> slevel s then Some (?w j) else None"
  have u: "?u j = Some (?w j)" if "j < level + 1" for j
  proof (cases "slevel s < j")
    case True
    then have "on ?D j as = []" using repD(4) by (force simp: filter_empty_conv)
    with True that show ?thesis by simp
  qed (use that in simp)
  obtain h where h: "link_levels ?new ?u (level + 1) ((heap s)(?new \<mapsto> ?n)) = Some h"
    "ndata h = ?D(?new \<mapsto> (Some k, VStr v, e, level + 1))"
    "\<And>p j. fwd h p j = (if j < level + 1 then (if p = ?new then fwd (heap s) (?w j) j
        else if p = ?w j then Some (Some ?new) else fwd (heap s) p j)
        else if p = ?new then None else fwd (heap s) p j)"
    by (rule link_new [OF rep _ refl u, of "level + 1"]) (use lev in auto)
  let ?s = "s\<lparr>slevel := max (slevel s) level, rand_pos := pos, heap := h, next_ptr := ?new + 1,
              ssize := int_wrap (ssize s + 1)\<rparr>"
  have new: "?D ?new = None" using repD(5) [of ?new] by (simp add: ndata_def)
  have ok: "sl_ok (ndata h) (fwd h) hdr (as @ ?new # bs)"
    by (rule sl_ok_insert [OF repD(2) sp nk new _ _ h(2,3)]) (use lev in auto)
  have lv: "lvl (ndata h) x \<le> max (slevel s) level + 1" if "x \<in> set (as @ ?new # bs)" for x
    using that repD(4) [of x] by (cases "x = ?new") (auto simp: h(2) lvl_def)
  have fresh: "h p = None" if "?new + 1 \<le> p" for p
  proof -
    have "ndata h p = None" using repD(5) [of p] that by (simp add: h(2) ndata_def)
    then show ?thesis by (simp add: ndata_def)
  qed
  have "int_wrap (ssize s + 1) = int_wrap (int (length (as @ ?new # bs)))"
    using repD(6) int_wrap_add [of "int (length (as @ bs))" 1] by (simp add: add.commute)
  then have "sl_rep ?s hdr (as @ ?new # bs)"
    using repD(1,3) ok lv fresh lev by (simp add: sl_rep_def)
  moreover have "kvs_skiplist_set all_ok rnd s (Some k) (Some v) e = Some (0, ?s)"
    using repD(1) search(1,3) km rl h(1)
    by (simp add: kvs_skiplist_set_def skiplist_new_node_def Let_def
        del: link_levels.simps last.simps replicate.simps)
  ultimately show ?thesis using that [of ?s] h(2) by auto
qed

lemma upd_present:
  assumes rep: "sl_rep s hdr xs" and t: "t \<in> set xs" "heap s t = Some n" "sn_key n = Some k"
    and n': "sn_key n' = Some k" "sn_value n' = VStr v" "sn_forward n' = sn_forward n"
    and s': "s' = s\<lparr>heap := (heap s)(t \<mapsto> n')\<rparr>"
  shows "sl_rep s' hdr xs"
    "\<exists>l. ndata (heap s') = (ndata (heap s))(t \<mapsto> (Some k, VStr v, sn_expire n', l))"
proof -
  note repD = sl_repD [OF rep]
  have D: "ndata (heap s') = (ndata (heap s))(t \<mapsto> (Some k, VStr v, sn_expire n', length (sn_forward n)))"
    using n' by (simp add: s' ndata_upd)
  have Dt: "ndata (heap s) t = Some (Some k, sn_value n, sn_expire n, length (sn_forward n))"
    using t by (simp add: ndata_def)
  have F: "fwd (heap s') = fwd (heap s)" using fwd_same [of "heap s", OF t(2) n'(3)] by (simp add: s')
  have ok: "sl_ok (ndata (heap s')) (fwd (heap s')) hdr xs"
    unfolding F by (rule sl_ok_update [OF repD(2) t(1) Dt D])
  have "lvl (ndata (heap s')) = lvl (ndata (heap s))"
    using Dt by (auto simp: D lvl_def fun_eq_iff)
  moreover have "t < next_ptr s" using sl_rep_ptrs(1) [OF rep, of t] t(1) by simp
  ultimately show "sl_rep s' hdr xs" using rep ok by (auto simp: sl_rep_def s')
  show "\<exists>l. ndata (heap s') = (ndata (heap s))(t \<mapsto> (Some k, VStr v, sn_expire n', l))"
    using D by blast
qed

lemma ents_mid:
  assumes "D' = D(t \<mapsto> (Some k, VStr v, e, l))" "distinct (as @ t # bs)"
  shows "ents D' (as @ t # bs) = ents D as @ (k, v, e) # ents D bs"
proof -
  have "keyof D' t = k" "valof D' t = (v, e)" by (simp_all add: assms(1) keyof_def valof_def)
  then show ?thesis using assms(2) ents_upd [of t as D] ents_upd [of t bs D] by (simp add: assms(1))
qed

lemma abs_upd_present:
  assumes rep: "sl_rep s hdr (as @ t # bs)" "sl_rep s' hdr (as @ t # bs)"
    and D: "ndata (heap s') = (ndata (heap s))(t \<mapsto> (Some k, VStr v, e, l))"
    and k: "k \<notin> fst ` set (ents (ndata (heap s)) as)" "k \<notin> fst ` set (ents (ndata (heap s)) bs)"
      "keyof (ndata (heap s)) t = k"
  shows "kvs_skiplist_abs s' = (kvs_skiplist_abs s)(k \<mapsto> (v, e))"
proof -
  have d: "distinct (as @ t # bs)" using sl_okD(1) [OF sl_repD(2) [OF rep(1)]] by simp
  have "kvs_skiplist_abs s' =
      (map_of (ents (ndata (heap s)) as @ ents (ndata (heap s)) bs))(k \<mapsto> (v, e))"
    unfolding abs_rep [OF rep(2)] ents_mid [OF D d] by (rule map_of_mid(1) [OF k(1,2)])
  moreover have "kvs_skiplist_abs s = (map_of (ents (ndata (heap s)) as @ ents (ndata (heap s)) bs))
      (k \<mapsto> valof (ndata (heap s)) t)"
    using abs_rep [OF rep(1)] map_of_mid(1) [OF k(1,2)] k(3) by simp
  ultimately show ?thesis by simp
qed

lemma skl_set_spec:
  assumes "kvs_skiplist_inv s"
  obtains s' where "kvs_skiplist_set all_ok rnd s (Some k) (Some v) e = Some (0, s')"
    "kvs_skiplist_inv s'" "kvs_skiplist_abs s' = (kvs_skiplist_abs s)(k \<mapsto> (v, e))"
proof -
  from assms obtain hdr xs where rep: "sl_rep s hdr xs" by (auto simp: kvs_skiplist_inv_def)
  let ?D = "ndata (heap s)"
  show ?thesis using rep
  proof (cases rule: sl_lookup [where k = k])
    case (absent as bs)
    note rep' = rep [unfolded absent(1)]
    obtain s' L where s': "kvs_skiplist_set all_ok rnd s (Some k) (Some v) e = Some (0, s')"
      "sl_rep s' hdr (as @ next_ptr s # bs)"
      "ndata (heap s') = ?D(next_ptr s \<mapsto> (Some k, VStr v, e, L))"
      using set_absent [OF rep' absent(2,3,5)] by metis
    have d: "distinct (as @ next_ptr s # bs)" using sl_okD(1) [OF sl_repD(2) [OF s'(2)]] by simp
    have "k \<notin> fst ` set (ents ?D as)" "k \<notin> fst ` set (ents ?D bs)"
      using absent(2,3) by (auto simp: split_at_def)
    then have "kvs_skiplist_abs s' = (kvs_skiplist_abs s)(k \<mapsto> (v, e))"
      unfolding abs_rep [OF rep'] abs_rep [OF s'(2)] ents_mid [OF s'(3) d] map_append [of _ as bs]
      by (rule map_of_mid(1))
    with that s' show ?thesis unfolding kvs_skiplist_inv_def by blast
  next
    case (present as t bs n v0)
    let ?n = "n\<lparr>sn_value := VStr v, sn_expire := e\<rparr>"
    let ?s = "s\<lparr>heap := (heap s)(t \<mapsto> ?n)\<rparr>"
    note rep' = rep [unfolded present(1)]
    have r: "sl_rep ?s hdr (as @ t # bs)" "\<exists>l. ndata (heap ?s) = ?D(t \<mapsto> (Some k, VStr v, e, l))"
      using upd_present [OF rep' _ present(3,4), of ?n v ?s] present(4) by auto
    have "keyof ?D t = k" using present(3,4) by (simp add: keyof_def ndata_def)
    with r present(6,7) have "kvs_skiplist_abs ?s = (kvs_skiplist_abs s)(k \<mapsto> (v, e))"
      using abs_upd_present [OF rep' r(1)] by blast
    moreover have "kvs_skiplist_set all_ok rnd s (Some k) (Some v) e = Some (0, ?s)"
      using sl_repD(1) [OF rep] sl_search [OF rep present(1,2)] present(9)
      by (simp add: kvs_skiplist_set_def del: last.simps)
    ultimately show ?thesis using that r(1) unfolding kvs_skiplist_inv_def by blast
  qed
qed

lemma skl_del_spec:
  assumes "kvs_skiplist_inv s"
  obtains r s' where "kvs_skiplist_del s (Some k) = Some (r, s')" "kvs_skiplist_inv s'"
    "kvs_skiplist_abs s' = (kvs_skiplist_abs s)(k := None)"
    "r = (if kvs_skiplist_abs s k = None then 1 else 0)"
proof -
  from assms obtain hdr xs where rep: "sl_rep s hdr xs" by (auto simp: kvs_skiplist_inv_def)
  let ?D = "ndata (heap s)"
  show ?thesis using rep
  proof (cases rule: sl_lookup [where k = k])
    case (absent as bs)
    then have "(kvs_skiplist_abs s)(k := None) = kvs_skiplist_abs s" by (simp add: fun_upd_idem_iff)
    moreover have "kvs_skiplist_del s (Some k) = Some (1, s)"
      using sl_repD(1) [OF rep] sl_search [OF rep absent(1,2)] absent(5)
      by (simp add: kvs_skiplist_del_def del: last.simps)
    ultimately show ?thesis using that assms absent(4) by simp
  next
    case (present as t bs n v)
    note rep' = rep [unfolded present(1)]
    obtain s' where s': "kvs_skiplist_del s (Some k) = Some (0, s')" "sl_rep s' hdr (as @ bs)"
      "ndata (heap s') = ?D(t := None)" by (rule del_present [OF rep' present(2,9)])
    have d: "t \<notin> set as" "t \<notin> set bs" using sl_okD(1) [OF sl_repD(2) [OF rep']] by auto
    have "keyof ?D t = k" "valof ?D t = (v, sn_expire n)"
      using present(3-5) by (simp_all add: keyof_def valof_def ndata_def)
    then have "kvs_skiplist_abs s = (map_of (ents ?D as @ ents ?D bs))(k \<mapsto> (v, sn_expire n))"
      using abs_rep [OF rep'] map_of_mid(1) [OF present(6,7)] by simp
    moreover have "kvs_skiplist_abs s' = map_of (ents ?D as @ ents ?D bs)"
      using abs_rep [OF s'(2)] s'(3) ents_upd [OF d(1), of ?D None] ents_upd [OF d(2), of ?D None]
      by simp
    ultimately have "kvs_skiplist_abs s' = (kvs_skiplist_abs s)(k := None)"
      using map_of_mid(2) [OF present(6,7)] by (simp add: fun_upd_idem)
    with that s' present(8) show ?thesis unfolding kvs_skiplist_inv_def by force
  qed
qed

text \<open>The search shared by get, mod, expire and ttl.\<close>

lemma skl_find_spec:
  assumes "kvs_skiplist_inv s"
  obtains (absent) "sl_find s k = Some None" "kvs_skiplist_abs s k = None"
    | (present) p n v where "sl_find s k = Some (Some (p, n))" "sn_value n = VStr v"
      "kvs_skiplist_abs s k = Some (v, sn_expire n)"
      "\<And>v' e'. kvs_skiplist_inv (s\<lparr>heap := (heap s)(p \<mapsto> n\<lparr>sn_value := VStr v', sn_expire := e'\<rparr>)\<rparr>) \<and>
        kvs_skiplist_abs (s\<lparr>heap := (heap s)(p \<mapsto> n\<lparr>sn_value := VStr v', sn_expire := e'\<rparr>)\<rparr>) =
        (kvs_skiplist_abs s)(k \<mapsto> (v', e'))"
proof -
  from assms obtain hdr xs where rep: "sl_rep s hdr xs" by (auto simp: kvs_skiplist_inv_def)
  let ?D = "ndata (heap s)"
  show ?thesis using rep
  proof (cases rule: sl_lookup [where k = k])
    case (absent as bs)
    then have "sl_find s k = Some None"
      using sl_repD(1) [OF rep] sl_search [OF rep absent(1,2)]
      by (simp add: sl_find_def del: last.simps)
    with absent(4) that(1) show ?thesis by simp
  next
    case (present as t bs n v)
    note rep' = rep [unfolded present(1)]
    have f: "sl_find s k = Some (Some (t, n))"
      using sl_repD(1) [OF rep] sl_search [OF rep present(1,2)] present(9)
      by (simp add: sl_find_def del: last.simps)
    have kt: "keyof ?D t = k" using present(3,4) by (simp add: keyof_def ndata_def)
    show ?thesis
    proof (rule that(2) [OF f present(5,8)])
      fix v' e'
      let ?n = "n\<lparr>sn_value := VStr v', sn_expire := e'\<rparr>"
      let ?s = "s\<lparr>heap := (heap s)(t \<mapsto> ?n)\<rparr>"
      have r: "sl_rep ?s hdr (as @ t # bs)" "\<exists>l. ndata (heap ?s) = ?D(t \<mapsto> (Some k, VStr v', e', l))"
        using upd_present [OF rep' _ present(3,4), of ?n v' ?s] present(4) by auto
      with present(6,7) kt have "kvs_skiplist_abs ?s = (kvs_skiplist_abs s)(k \<mapsto> (v', e'))"
        using abs_upd_present [OF rep' r(1)] by blast
      with r(1) show "kvs_skiplist_inv ?s \<and> kvs_skiplist_abs ?s = (kvs_skiplist_abs s)(k \<mapsto> (v', e'))"
        unfolding kvs_skiplist_inv_def by blast
    qed
  qed
qed

lemma skl_get_spec:
  assumes "kvs_skiplist_inv s"
  obtains p s' where "kvs_skiplist_get now s (Some k) = Some (p, s')" "kvs_skiplist_inv s'"
    "p = vptr_of (view now (kvs_skiplist_abs s) k)"
    "kvs_skiplist_abs s' = (if p = VNull then (kvs_skiplist_abs s)(k := None) else kvs_skiplist_abs s)"
  using assms
proof (cases rule: skl_find_spec [where k = k])
  case absent
  then have "(kvs_skiplist_abs s)(k := None) = kvs_skiplist_abs s" by (simp add: fun_upd_idem_iff)
  with absent assms that [of VNull s] show ?thesis by (simp add: kvs_skiplist_get_def view_def)
next
  case (present p n v)
  obtain r s' where d: "kvs_skiplist_del s (Some k) = Some (r, s')" "kvs_skiplist_inv s'"
    "kvs_skiplist_abs s' = (kvs_skiplist_abs s)(k := None)" by (rule skl_del_spec [OF assms])
  with present that assms show ?thesis
    by (cases "expired now (sn_expire n)") (simp_all add: kvs_skiplist_get_def view_def)
qed

lemma skl_mod_spec:
  assumes "kvs_skiplist_inv s"
  obtains r s' where "kvs_skiplist_mod all_ok s (Some k) (Some v) = Some (r, s')" "kvs_skiplist_inv s'"
    "case kvs_skiplist_abs s k of
       None \<Rightarrow> r = 1 \<and> kvs_skiplist_abs s' = kvs_skiplist_abs s
     | Some (v0, e) \<Rightarrow> r = 0 \<and> kvs_skiplist_abs s' = (kvs_skiplist_abs s)(k \<mapsto> (v, e))"
  using assms
proof (cases rule: skl_find_spec [where k = k])
  case absent
  with assms that [of 1 s] show ?thesis by (simp add: kvs_skiplist_mod_def)
next
  case (present p n v0)
  have "n\<lparr>sn_value := VStr v\<rparr> = n\<lparr>sn_value := VStr v, sn_expire := sn_expire n\<rparr>" by (cases n) simp
  with present(4) [of "sn_expire n" v] present that show ?thesis
    by (simp add: kvs_skiplist_mod_def)
qed

lemma skl_exist_spec:
  assumes "kvs_skiplist_inv s"
  obtains r s' where "kvs_skiplist_exist now s (Some k) = Some (r, s')" "kvs_skiplist_inv s'"
    "r = (if view now (kvs_skiplist_abs s) k = None then 1 else 0)"
    "kvs_skiplist_abs s' = (if view now (kvs_skiplist_abs s) k = None
       then (kvs_skiplist_abs s)(k := None) else kvs_skiplist_abs s)"
proof -
  obtain p s' where "kvs_skiplist_get now s (Some k) = Some (p, s')" "kvs_skiplist_inv s'"
    "p = vptr_of (view now (kvs_skiplist_abs s) k)"
    "kvs_skiplist_abs s' = (if p = VNull then (kvs_skiplist_abs s)(k := None) else kvs_skiplist_abs s)"
    by (rule skl_get_spec [OF assms])
  with that show ?thesis by (auto simp: kvs_skiplist_exist_def)
qed

lemma skl_expire_spec:
  assumes "kvs_skiplist_inv s"
  obtains r s' where "kvs_skiplist_expire s (Some k) e = Some (r, s')" "kvs_skiplist_inv s'"
    "case kvs_skiplist_abs s k of
       None \<Rightarrow> r = 1 \<and> kvs_skiplist_abs s' = kvs_skiplist_abs s
     | Some (v, e0) \<Rightarrow> r = 0 \<and>
         kvs_skiplist_abs s' = (kvs_skiplist_abs s)(k := if e = 0 then None else Some (v, e))"
  using assms
proof (cases rule: skl_find_spec [where k = k])
  case absent
  with assms that [of 1 s] show ?thesis by (simp add: kvs_skiplist_expire_def)
next
  case (present p n v)
  obtain r s' where d: "kvs_skiplist_del s (Some k) = Some (r, s')" "kvs_skiplist_inv s'"
    "kvs_skiplist_abs s' = (kvs_skiplist_abs s)(k := None)"
    "r = (if kvs_skiplist_abs s k = None then 1 else 0)" by (rule skl_del_spec [OF assms])
  have "n\<lparr>sn_expire := e\<rparr> = n\<lparr>sn_value := VStr v, sn_expire := e\<rparr>" using present(2) by (cases n) simp
  with d present(4) [of e v] present that show ?thesis
    by (cases "e = 0") (simp_all add: kvs_skiplist_expire_def)
qed

lemma skl_ttl_spec:
  assumes "kvs_skiplist_inv s"
  shows "kvs_skiplist_ttl now s (Some k) =
    Some (case kvs_skiplist_abs s k of None \<Rightarrow> -2 | Some (v, e) \<Rightarrow> ttl_of now e)"
  using assms by (cases rule: skl_find_spec [where k = k]) (simp_all add: kvs_skiplist_ttl_def)

text \<open>
  The scan: \<open>next\<close> is read before a node is deleted, so the walk always continues in the
  list that is left.
\<close>

lemma bottom_next:
  assumes "sl_rep s hdr (as @ t # bs)"
  shows "fwd (heap s) t 0 = Some (first_of bs)"
proof -
  note ok = sl_repD(2) [OF assms]
  have "on (ndata (heap s)) 0 (as @ t # bs) = as @ t # bs" using sl_okD(4) [OF ok] by (intro on_0) auto
  with sl_okD(6) [OF ok, of 0] have "chn (fwd (heap s)) 0 hdr (as @ t # bs)" by simp
  then show ?thesis by (auto simp: chn_append chn_Cons dest: chn_first)
qed

lemma own_split:
  assumes "sl_rep s hdr (as @ t # bs)" "heap s t = Some n"
  obtains k where "sn_key n = Some k" "split_at (ndata (heap s)) k as (t # bs)"
    "key_match (heap s) (Some t) k = Some (Some n)" "k = keyof (ndata (heap s)) t"
    "valof (ndata (heap s)) t = (the (map_option fst (kvs_skiplist_abs s k)), sn_expire n)"
    "\<exists>v. kvs_skiplist_abs s k = Some (v, sn_expire n)"
proof -
  let ?D = "ndata (heap s)"
  note ok = sl_okD [OF sl_repD(2) [OF assms(1)]]
  from ok(4) [of t] assms(2) obtain k v where n: "sn_key n = Some k" "sn_value n = VStr v"
    by (auto simp: wf_node_def ndata_def)
  have kt: "keyof ?D t = k" "valof ?D t = (v, sn_expire n)"
    using n assms(2) by (simp_all add: keyof_def valof_def ndata_def)
  have sp: "split_at ?D k as (t # bs)"
    using ok(5) kt by (auto simp: split_at_def sorted_wrt_append)
  have d: "distinct (map (keyof ?D) (as @ t # bs))" using ok(5) by (simp add: strict_sorted_iff)
  then have "k \<notin> fst ` set (ents ?D as)" "k \<notin> fst ` set (ents ?D bs)" using kt by auto
  from map_of_mid(1) [OF this] abs_rep [OF assms(1)] kt
  have "kvs_skiplist_abs s k = Some (v, sn_expire n)" by simp
  with n kt sp assms(2) that show ?thesis by (simp add: key_match_def)
qed

lemma scan_loop_spec:
  assumes "sl_rep s hdr (ls @ ns)" "\<forall>x \<in> set ls. \<not> expired now (snd (valof (ndata (heap s)) x))"
  shows "\<exists>s' xs. scan_loop now s (first_of ns) = Some s' \<and> sl_rep s' hdr xs \<and>
    (\<forall>x \<in> set xs. \<not> expired now (snd (valof (ndata (heap s')) x))) \<and>
    purge now (kvs_skiplist_abs s') = purge now (kvs_skiplist_abs s)"
  using assms
proof (induction ns arbitrary: s ls)
  case Nil
  then show ?case by (subst scan_loop.simps) auto
next
  case (Cons t ns)
  let ?D = "ndata (heap s)"
  have "t \<in> dom ?D" using sl_okD(2) [OF sl_repD(2) [OF Cons.prems(1)]] by simp
  then obtain n where n: "heap s t = Some n" by (auto simp: ndata_def)
  note nx = bottom_next [OF Cons.prems(1)]
  obtain k where k: "sn_key n = Some k" "split_at ?D k ls (t # ns)"
    "key_match (heap s) (Some t) k = Some (Some n)"
    "snd (valof ?D t) = sn_expire n" "\<exists>v. kvs_skiplist_abs s k = Some (v, sn_expire n)"
    by (rule own_split [OF Cons.prems(1) n]) auto
  show ?case
  proof (cases "expired now (sn_expire n)")
    case True
    obtain s1 where s1: "kvs_skiplist_del s (Some k) = Some (0, s1)" "sl_rep s1 hdr (ls @ ns)"
      "ndata (heap s1) = ?D(t := None)" by (rule del_present [OF Cons.prems(1) k(2,3)])
    have "kvs_skiplist_abs s1 = (kvs_skiplist_abs s)(k := None)"
      by (rule skl_del_spec [of s k]) (use Cons.prems(1) s1(1) in \<open>auto simp: kvs_skiplist_inv_def\<close>)
    then have pg: "purge now (kvs_skiplist_abs s1) = purge now (kvs_skiplist_abs s)"
      using k(5) True purge_del_expired [of "kvs_skiplist_abs s" k] by metis
    have "t \<notin> set ls" using sl_okD(1) [OF sl_repD(2) [OF Cons.prems(1)]] by auto
    then have "\<forall>x \<in> set ls. \<not> expired now (snd (valof (ndata (heap s1)) x))"
      using Cons.prems(2) by (auto simp: s1(3) valof_def)
    from Cons.IH [OF s1(2) this] pg obtain s' xs where
      "scan_loop now s1 (first_of ns) = Some s'" "sl_rep s' hdr xs"
      "\<forall>x \<in> set xs. \<not> expired now (snd (valof (ndata (heap s')) x))"
      "purge now (kvs_skiplist_abs s') = purge now (kvs_skiplist_abs s)" by auto
    moreover have "scan_loop now s (first_of (t # ns)) = scan_loop now s1 (first_of ns)"
      by (subst scan_loop.simps) (simp add: n nx True k(1) s1(1))
    ultimately show ?thesis by auto
  next
    case False
    have "sl_rep s hdr ((ls @ [t]) @ ns)" using Cons.prems(1) by simp
    moreover have "\<forall>x \<in> set (ls @ [t]). \<not> expired now (snd (valof ?D x))"
      using Cons.prems(2) False k(4) by simp
    ultimately have "\<exists>s' xs. scan_loop now s (first_of ns) = Some s' \<and> sl_rep s' hdr xs \<and>
      (\<forall>x \<in> set xs. \<not> expired now (snd (valof (ndata (heap s')) x))) \<and>
      purge now (kvs_skiplist_abs s') = purge now (kvs_skiplist_abs s)" by (rule Cons.IH)
    moreover have "scan_loop now s (first_of (t # ns)) = scan_loop now s (first_of ns)"
      by (subst scan_loop.simps) (simp add: n nx False)
    ultimately show ?thesis by simp
  qed
qed

lemma skl_scan_spec:
  assumes "kvs_skiplist_inv s"
  obtains s' where "kvs_skiplist_scan_expired now s = Some s'" "kvs_skiplist_inv s'"
    "kvs_skiplist_abs s' = purge now (kvs_skiplist_abs s)"
proof -
  from assms obtain hdr xs where rep: "sl_rep s hdr xs" by (auto simp: kvs_skiplist_inv_def)
  note ok = sl_repD(2) [OF rep]
  have "on (ndata (heap s)) 0 xs = xs" using sl_okD(4) [OF ok] by (intro on_0) blast
  with sl_okD(6) [OF ok, of 0] have "fwd (heap s) hdr 0 = Some (first_of xs)"
    by (auto dest: chn_first)
  then have eq: "kvs_skiplist_scan_expired now s = scan_loop now s (first_of xs)"
    using sl_repD(1) [OF rep] by (simp add: kvs_skiplist_scan_expired_def)
  from scan_loop_spec [of s hdr "[]" xs now] rep obtain s' ys where
    s': "scan_loop now s (first_of xs) = Some s'" "sl_rep s' hdr ys"
    "\<forall>x \<in> set ys. \<not> expired now (snd (valof (ndata (heap s')) x))"
    "purge now (kvs_skiplist_abs s') = purge now (kvs_skiplist_abs s)" by auto
  have "kvs_skiplist_abs s' = purge now (kvs_skiplist_abs s')"
  proof (rule store_eqI)
    fix k v e
    have "\<not> expired now e" if "kvs_skiplist_abs s' k = Some (v, e)"
    proof -
      from that have "(k, v, e) \<in> set (ents (ndata (heap s')) ys)"
        unfolding abs_rep [OF s'(2)] by (rule map_of_SomeD)
      then obtain x where "x \<in> set ys" "valof (ndata (heap s')) x = (v, e)" by auto
      with s'(3) show ?thesis by (metis snd_conv)
    qed
    then show "kvs_skiplist_abs s' k = Some (v, e) \<longleftrightarrow> purge now (kvs_skiplist_abs s') k = Some (v, e)"
      by (auto simp: purge_Some_iff)
  qed
  with that eq s' show ?thesis unfolding kvs_skiplist_inv_def by auto
qed

subsection \<open>Creation and destruction\<close>

lemma create_rep:
  assumes "heap s = (\<lambda>_. None)"
  shows "fst (kvs_skiplist_create all_ok s) = 0"
    "sl_rep (snd (kvs_skiplist_create all_ok s)) (next_ptr s) []"
    "kvs_skiplist_abs (snd (kvs_skiplist_create all_ok s)) = Map.empty"
proof -
  let ?s = "snd (kvs_skiplist_create all_ok s)"
  let ?n = "\<lparr>sn_key = None, sn_value = VNull, sn_forward = replicate 17 None, sn_expire = -1\<rparr>"
  have s: "fst (kvs_skiplist_create all_ok s) = 0" "header ?s = Some (next_ptr s)" "slevel ?s = 0"
    "ssize ?s = 0" "next_ptr ?s = next_ptr s + 1" "heap ?s = [next_ptr s \<mapsto> ?n]"
    using assms by (simp_all add: kvs_skiplist_create_def skiplist_new_node_def Let_def
      SKIPLIST_MAX_LEVEL_def del: replicate.simps)
  show "fst (kvs_skiplist_create all_ok s) = 0" by (rule s)
  have D: "ndata [next_ptr s \<mapsto> ?n] = [next_ptr s \<mapsto> (None, VNull, -1, 17)]"
    by (auto simp: ndata_def fun_eq_iff simp del: replicate.simps)
  have F: "fwd [next_ptr s \<mapsto> ?n] (next_ptr s) i = Some None" if "i < 17" for i
    using that by (simp add: fwd_def del: replicate.simps)
  have "int_wrap 0 = 0" by (simp add: in_int_def)
  then show rep: "sl_rep ?s (next_ptr s) []"
    using D F by (auto simp: sl_rep_def sl_ok_def s chn_Nil)
  from abs_rep [OF rep] show "kvs_skiplist_abs ?s = Map.empty" by simp
qed

lemma fresh_skiplist:
  "kvs_skiplist_inv (snd (kvs_skiplist_create all_ok zero_skiplist))"
  "kvs_skiplist_abs (snd (kvs_skiplist_create all_ok zero_skiplist)) = Map.empty"
  using create_rep [of zero_skiplist] by (auto simp: zero_skiplist_def kvs_skiplist_inv_def)

lemma free_chain_spec:
  assumes "xs \<noteq> [] \<longrightarrow> chn (fwd h) 0 (hd xs) (tl xs)" "distinct xs" "\<forall>x \<in> set xs. h x \<noteq> None"
  shows "free_chain h (first_of xs) = Some (\<lambda>q. if q \<in> set xs then None else h q)"
  using assms
proof (induction xs arbitrary: h)
  case Nil
  then show ?case by (subst free_chain.simps) simp
next
  case (Cons x xs)
  let ?h = "h(x := None)"
  from Cons.prems have c: "chn (fwd h) 0 x xs" "fwd h x 0 = Some (first_of xs)" "h x \<noteq> None"
    by (auto dest: chn_first)
  have "free_chain h (first_of (x # xs)) = free_chain ?h (first_of xs)"
    using c(2,3) by (subst free_chain.simps) (auto simp: skiplist_free_node_def)
  also have "\<dots> = Some (\<lambda>q. if q \<in> set xs then None else ?h q)"
  proof (rule Cons.IH)
    show "xs \<noteq> [] \<longrightarrow> chn (fwd ?h) 0 (hd xs) (tl xs)"
    proof
      assume "xs \<noteq> []"
      then obtain y ys where xs: "xs = y # ys" by (cases xs) auto
      have "chn (fwd ?h) 0 y ys \<longleftrightarrow> chn (fwd h) 0 y ys"
        by (rule chn_cong) (use Cons.prems(2) xs in \<open>auto simp: fwd_free\<close>)
      with c(1) xs show "chn (fwd ?h) 0 (hd xs) (tl xs)" by (simp add: chn_Cons)
    qed
  qed (use Cons.prems in auto)
  finally show ?case by (auto simp: fun_eq_iff)
qed

lemma destroy_spec:
  assumes "kvs_skiplist_inv s"
  obtains s' where "kvs_skiplist_destroy s = Some s'" "heap s' = (\<lambda>_. None)" "header s' = None"
proof -
  from assms obtain hdr xs where rep: "sl_rep s hdr xs" by (auto simp: kvs_skiplist_inv_def)
  note ok = sl_okD [OF sl_repD(2) [OF rep]]
  have "on (ndata (heap s)) 0 xs = xs" using ok(4) by (intro on_0) blast
  with ok(6) [of 0] have c: "chn (fwd (heap s)) 0 hdr xs" by simp
  have dom: "heap s p = None \<longleftrightarrow> p \<notin> set (hdr # xs)" for p
    unfolding ok(2) [symmetric] by (simp add: domIff ndata_def)
  have "xs \<noteq> [] \<longrightarrow> chn (fwd (heap s)) 0 (hd xs) (tl xs)" using c by (cases xs) (auto simp: chn_Cons)
  then have "free_chain (heap s) (first_of xs) = Some (\<lambda>q. if q \<in> set xs then None else heap s q)"
    by (rule free_chain_spec) (use ok(1) dom in auto)
  moreover have "hdr \<notin> set xs" using ok(1) by simp
  moreover have "(\<lambda>q. if q \<in> set xs then None else heap s q)(hdr := None) = (\<lambda>_. None)"
    using dom by (auto simp: fun_eq_iff)
  ultimately show ?thesis
    using that chn_first [OF c] sl_repD(1) [OF rep] dom [of hdr]
    by (simp add: kvs_skiplist_destroy_def skiplist_free_node_def)
qed

subsection \<open>The engine contract\<close>

definition skiplist_call :: "(nat \<Rightarrow> nat) \<Rightarrow> kv_call \<Rightarrow> skiplist \<Rightarrow> kv_res \<times> skiplist" where
  "skiplist_call rnd = kv_dispatch
     (\<lambda>s k v e. the (kvs_skiplist_set all_ok rnd s (Some k) (Some v) e))
     (\<lambda>now s k. the (kvs_skiplist_get now s (Some k)))
     (\<lambda>s k. the (kvs_skiplist_del s (Some k)))
     (\<lambda>now s k v. the (kvs_skiplist_mod all_ok s (Some k) (Some v)))
     (\<lambda>now s k. the (kvs_skiplist_exist now s (Some k)))
     (\<lambda>s k e. the (kvs_skiplist_expire s (Some k) e))
     (\<lambda>now s k. the (kvs_skiplist_ttl now s (Some k)))"

interpretation skl: kv_scanned "\<lambda>_. True" kvs_skiplist_inv kvs_skiplist_abs
  "\<lambda>s k v e. the (kvs_skiplist_set all_ok rnd s (Some k) (Some v) e)"
  "\<lambda>now s k. the (kvs_skiplist_get now s (Some k))"
  "\<lambda>s k. the (kvs_skiplist_del s (Some k))"
  "\<lambda>now s k v. the (kvs_skiplist_mod all_ok s (Some k) (Some v))"
  "\<lambda>now s k. the (kvs_skiplist_exist now s (Some k))"
  "\<lambda>s k e. the (kvs_skiplist_expire s (Some k) e)"
  "\<lambda>now s k. the (kvs_skiplist_ttl now s (Some k))"
  "\<lambda>now s. the (kvs_skiplist_scan_expired now s)"
  for rnd
proof (unfold_locales, goal_cases)
  case (1 s k v e r s')
  show ?case by (rule skl_set_spec [OF 1(1), of rnd k v e]) (use 1(3) in \<open>auto simp: same_vals_def\<close>)
next
  case (2 s k now p s')
  show ?case by (rule skl_get_spec [OF 2(1), of now k]) (use 2(3) in \<open>auto simp: same_vals_def\<close>)
next
  case (3 s k r s')
  show ?case by (rule skl_del_spec [OF 3(1), of k]) (use 3(3) in \<open>auto simp: same_vals_def\<close>)
next
  case (4 s k now v r s')
  show ?case by (rule skl_mod_spec [OF 4(1), of k v])
    (use 4(3) in \<open>auto simp: same_vals_def split: option.splits\<close>)
next
  case (5 s k now r s')
  show ?case by (rule skl_exist_spec [OF 5(1), of now k]) (use 5(3) in \<open>auto simp: same_vals_def\<close>)
next
  case (6 s k e r s')
  show ?case by (rule skl_expire_spec [OF 6(1), of k e])
    (use 6(3) in \<open>auto simp: same_vals_def split: option.splits\<close>)
next
  case (7 s k now)
  then show ?case by (simp add: skl_ttl_spec)
next
  case (8 s k v e r s')
  show ?case by (rule skl_set_spec [OF 8(1), of rnd k v e]) (use 8(3) in auto)
next
  case (9 s k now p s')
  show ?case by (rule skl_get_spec [OF 9(1), of now k]) (use 9(3) in auto)
next
  case (10 s k r s')
  show ?case by (rule skl_del_spec [OF 10(1), of k]) (use 10(3) in auto)
next
  case (11 s k now v r s')
  show ?case by (rule skl_mod_spec [OF 11(1), of k v]) (use 11(3) in \<open>auto split: option.splits\<close>)
next
  case (12 s k now r s')
  show ?case by (rule skl_exist_spec [OF 12(1), of now k]) (use 12(3) in auto)
next
  case (13 s k e r s')
  show ?case by (rule skl_expire_spec [OF 13(1), of k e]) (use 13(3) in \<open>auto split: option.splits\<close>)
next
  case (14 s now)
  show ?case by (rule skl_scan_spec [OF 14, of now]) auto
qed

subsection \<open>Properties\<close>

lemma skiplist_call_inv:
  "kvs_skiplist_inv s \<Longrightarrow> kvs_skiplist_inv (snd (skiplist_call rnd c s))"
  using skl.call_refines [where rnd = rnd and s = s and c = c and r = "fst (skiplist_call rnd c s)"
    and s' = "snd (skiplist_call rnd c s)"]
  by (simp add: skiplist_call_def)

text \<open>C15: for every sequence of results of \<open>rand\<close>, every sequence of calls on a skip list engine
  gives results the abstract key-value store allows, and leaves the engine well formed and
  representing the abstract store the sequence leads to.\<close>

theorem skiplist_refines_store:
  assumes "kvs_skiplist_inv s" "run_calls (skiplist_call rnd) cs s = (rs, s')"
  shows "kvs_skiplist_inv s' \<and> spec_run (kvs_skiplist_abs s) cs rs (kvs_skiplist_abs s')"
  using skl.run_refines [OF assms(1), where cs = cs and rnd = rnd] assms(2) by (simp add: skiplist_call_def)

theorem skiplist_refines_store_witness:
  "let s = snd (kvs_skiplist_create all_ok zero_skiplist);
       cs = [KSet ''b'' ''2'' (-1), KSet ''a'' ''1'' (-1), KGet 7 ''a'', KDel ''b''];
       (rs, s') = run_calls (skiplist_call (\<lambda>i. if i = 0 then 0 else RAND_MAX)) cs s
   in kvs_skiplist_inv s' \<and> spec_run Map.empty cs rs (kvs_skiplist_abs s')"
proof -
  let ?s = "snd (kvs_skiplist_create all_ok zero_skiplist)"
  let ?c = "skiplist_call (\<lambda>i. if i = 0 then 0 else RAND_MAX)"
  let ?cs = "[KSet ''b'' ''2'' (-1), KSet ''a'' ''1'' (-1), KGet 7 ''a'', KDel ''b'']"
  obtain rs s' where run: "run_calls ?c ?cs ?s = (rs, s')" by (cases "run_calls ?c ?cs ?s")
  from skiplist_refines_store [OF fresh_skiplist(1) run] run fresh_skiplist(2) show ?thesis
    by (simp add: Let_def)
qed

text \<open>C25: no operation of a well-formed skip list engine loops for ever, follows a freed node or
  leaves a forward array: each returns a result, for every key and every result of \<open>rand\<close>.\<close>

theorem skiplist_total:
  assumes "kvs_skiplist_inv s"
  shows "kvs_skiplist_set all_ok rnd s (Some k) (Some v) e \<noteq> None \<and>
    kvs_skiplist_get now s (Some k) \<noteq> None \<and> kvs_skiplist_del s (Some k) \<noteq> None \<and>
    kvs_skiplist_mod all_ok s (Some k) (Some v) \<noteq> None \<and> kvs_skiplist_exist now s (Some k) \<noteq> None \<and>
    kvs_skiplist_expire s (Some k) e \<noteq> None \<and> kvs_skiplist_ttl now s (Some k) \<noteq> None \<and>
    kvs_skiplist_scan_expired now s \<noteq> None"
proof -
  have "kvs_skiplist_set all_ok rnd s (Some k) (Some v) e \<noteq> None"
    by (rule skl_set_spec [OF assms, of rnd k v e]) simp
  moreover have "kvs_skiplist_get now s (Some k) \<noteq> None"
    by (rule skl_get_spec [OF assms, of now k]) simp
  moreover have "kvs_skiplist_del s (Some k) \<noteq> None" by (rule skl_del_spec [OF assms, of k]) simp
  moreover have "kvs_skiplist_mod all_ok s (Some k) (Some v) \<noteq> None"
    by (rule skl_mod_spec [OF assms, of k v]) simp
  moreover have "kvs_skiplist_exist now s (Some k) \<noteq> None"
    by (rule skl_exist_spec [OF assms, of now k]) simp
  moreover have "kvs_skiplist_expire s (Some k) e \<noteq> None"
    by (rule skl_expire_spec [OF assms, of k e]) simp
  moreover have "kvs_skiplist_scan_expired now s \<noteq> None"
    by (rule skl_scan_spec [OF assms, of now]) simp
  ultimately show ?thesis by (simp add: skl_ttl_spec [OF assms])
qed

theorem skiplist_total_witness:
  "kvs_skiplist_set all_ok (\<lambda>_. 0) (snd (kvs_skiplist_create all_ok zero_skiplist))
     (Some ''k'') (Some ''v'') 5 \<noteq> None"
  using skiplist_total [OF fresh_skiplist(1), of "\<lambda>_. 0" "''k''" "''v''" 5 0] by simp

text \<open>C27: destroying a well-formed skip list ends, frees no node twice, and leaves no node of it
  allocated.\<close>

theorem skiplist_destroy_frees_all:
  assumes "kvs_skiplist_inv s"
  shows "\<exists>s'. kvs_skiplist_destroy s = Some s' \<and> header s' = None \<and> heap s' = (\<lambda>_. None)"
  by (rule destroy_spec [OF assms]) auto

theorem skiplist_destroy_frees_all_witness:
  "\<exists>s'. kvs_skiplist_destroy (snd (skiplist_call (\<lambda>_. 0) (KSet ''k'' ''v'' 5)
      (snd (kvs_skiplist_create all_ok zero_skiplist)))) = Some s' \<and>
    header s' = None \<and> heap s' = (\<lambda>_. None)"
  by (rule skiplist_destroy_frees_all [OF skiplist_call_inv [OF fresh_skiplist(1)]])

end
