(* ===== verification/KVS_RBTree.thy ===== *)
theory KVS_RBTree
  imports KVS_Engine
begin

text \<open>
  The red-black tree engine (\<open>kvs_rbtree.c\<close>), on a heap kept as one function per field of
  \<open>rbtree_node\<close> and the set of nodes that are allocated. The value field is polymorphic:
  the key-value engine stores strings there, the vector engine its entries. A loop that
  does not end gives \<open>None\<close>, and so does handing a freed node to \<open>rbtree_delete\<close>.
\<close>

subsection \<open>Data\<close>

type_synonym addr = nat

datatype rb_color = RED | BLACK

record 'v rbtree =
  rb_root :: addr
  rb_nil :: addr
  rb_color :: "addr \<Rightarrow> rb_color"
  rb_left :: "addr \<Rightarrow> addr"
  rb_right :: "addr \<Rightarrow> addr"
  rb_parent :: "addr \<Rightarrow> addr"
  rb_key :: "addr \<Rightarrow> string"
  rb_value :: "addr \<Rightarrow> 'v"
  rb_expire :: "addr \<Rightarrow> int"
  rb_live :: "addr set"
  rb_next :: addr

text \<open>Assignments through a node pointer.\<close>

definition set_color :: "addr \<Rightarrow> rb_color \<Rightarrow> 'v rbtree \<Rightarrow> 'v rbtree" where
  "set_color p c T = T\<lparr>rb_color := (rb_color T)(p := c)\<rparr>"

definition set_left :: "addr \<Rightarrow> addr \<Rightarrow> 'v rbtree \<Rightarrow> 'v rbtree" where
  "set_left p q T = T\<lparr>rb_left := (rb_left T)(p := q)\<rparr>"

definition set_right :: "addr \<Rightarrow> addr \<Rightarrow> 'v rbtree \<Rightarrow> 'v rbtree" where
  "set_right p q T = T\<lparr>rb_right := (rb_right T)(p := q)\<rparr>"

definition set_parent :: "addr \<Rightarrow> addr \<Rightarrow> 'v rbtree \<Rightarrow> 'v rbtree" where
  "set_parent p q T = T\<lparr>rb_parent := (rb_parent T)(p := q)\<rparr>"

definition set_root :: "addr \<Rightarrow> 'v rbtree \<Rightarrow> 'v rbtree" where
  "set_root p T = T\<lparr>rb_root := p\<rparr>"

subsection \<open>The tree algorithms\<close>

partial_function (option) rbtree_mini :: "'v rbtree \<Rightarrow> addr \<Rightarrow> addr option" where
  "rbtree_mini T x =
     (if rb_left T x \<noteq> rb_nil T then rbtree_mini T (rb_left T x) else Some x)"

partial_function (option) rbtree_maxi :: "'v rbtree \<Rightarrow> addr \<Rightarrow> addr option" where
  "rbtree_maxi T x =
     (if rb_right T x \<noteq> rb_nil T then rbtree_maxi T (rb_right T x) else Some x)"

partial_function (option) successor_up :: "'v rbtree \<Rightarrow> addr \<Rightarrow> addr \<Rightarrow> addr option" where
  "successor_up T x y =
     (if y \<noteq> rb_nil T \<and> x = rb_right T y then successor_up T y (rb_parent T y) else Some y)"

definition rbtree_successor :: "'v rbtree \<Rightarrow> addr \<Rightarrow> addr option" where
  "rbtree_successor T x =
     (let y = rb_parent T x in
      if rb_right T x \<noteq> rb_nil T then rbtree_mini T (rb_right T x) else successor_up T x y)"

definition rbtree_left_rotate :: "'v rbtree \<Rightarrow> addr \<Rightarrow> 'v rbtree" where
  "rbtree_left_rotate T x =
     (let y = rb_right T x;
          T1 = set_right x (rb_left T y) T;
          T2 = (if rb_left T1 y \<noteq> rb_nil T1 then set_parent (rb_left T1 y) x T1 else T1);
          T3 = set_parent y (rb_parent T2 x) T2;
          T4 = (if rb_parent T3 x = rb_nil T3 then set_root y T3
                else if x = rb_left T3 (rb_parent T3 x) then set_left (rb_parent T3 x) y T3
                else set_right (rb_parent T3 x) y T3);
          T5 = set_left y x T4
      in set_parent x y T5)"

definition rbtree_right_rotate :: "'v rbtree \<Rightarrow> addr \<Rightarrow> 'v rbtree" where
  "rbtree_right_rotate T y =
     (let x = rb_left T y;
          T1 = set_left y (rb_right T x) T;
          T2 = (if rb_right T1 x \<noteq> rb_nil T1 then set_parent (rb_right T1 x) y T1 else T1);
          T3 = set_parent x (rb_parent T2 y) T2;
          T4 = (if rb_parent T3 y = rb_nil T3 then set_root x T3
                else if y = rb_right T3 (rb_parent T3 y) then set_right (rb_parent T3 y) x T3
                else set_left (rb_parent T3 y) x T3);
          T5 = set_right x y T4
      in set_parent y x T5)"

text \<open>One iteration of the insertion loop, and the loop.\<close>

definition insert_fixup_step :: "'v rbtree \<Rightarrow> addr \<Rightarrow> 'v rbtree \<times> addr" where
  "insert_fixup_step T z =
     (let p = rb_parent T z; g = rb_parent T p in
      if p = rb_left T g then
        let y = rb_right T g in
        if rb_color T y = RED then
          (set_color g RED (set_color y BLACK (set_color p BLACK T)), g)
        else
          let (T1, z1) = (if z = rb_right T p then (rbtree_left_rotate T p, p) else (T, z));
              T2 = set_color (rb_parent T1 z1) BLACK T1;
              T3 = set_color (rb_parent T2 (rb_parent T2 z1)) RED T2
          in (rbtree_right_rotate T3 (rb_parent T3 (rb_parent T3 z1)), z1)
      else
        let y = rb_left T g in
        if rb_color T y = RED then
          (set_color g RED (set_color y BLACK (set_color p BLACK T)), g)
        else
          let (T1, z1) = (if z = rb_left T p then (rbtree_right_rotate T p, p) else (T, z));
              T2 = set_color (rb_parent T1 z1) BLACK T1;
              T3 = set_color (rb_parent T2 (rb_parent T2 z1)) RED T2
          in (rbtree_left_rotate T3 (rb_parent T3 (rb_parent T3 z1)), z1))"

partial_function (option) rbtree_insert_fixup :: "'v rbtree \<Rightarrow> addr \<Rightarrow> 'v rbtree option" where
  "rbtree_insert_fixup T z =
     (if rb_color T (rb_parent T z) = RED
      then (let (T', z') = insert_fixup_step T z in rbtree_insert_fixup T' z')
      else Some (set_color (rb_root T) BLACK T))"

text \<open>
  The descent of \<open>rbtree_insert\<close>: the parent for the new node, or nothing when the key is
  in the tree already.
\<close>

partial_function (option) insert_descend ::
    "'v rbtree \<Rightarrow> string \<Rightarrow> addr \<Rightarrow> addr \<Rightarrow> addr option option" where
  "insert_descend T k x y =
     (if x \<noteq> rb_nil T then
        (if strcmp k (rb_key T x) < 0 then insert_descend T k (rb_left T x) x
         else if strcmp k (rb_key T x) > 0 then insert_descend T k (rb_right T x) x
         else Some None)
      else Some (Some y))"

definition rbtree_insert :: "'v rbtree \<Rightarrow> addr \<Rightarrow> 'v rbtree option" where
  "rbtree_insert T z =
     (case insert_descend T (rb_key T z) (rb_root T) (rb_nil T) of
        None \<Rightarrow> None
      | Some None \<Rightarrow> Some T
      | Some (Some y) \<Rightarrow>
          let T1 = set_parent z y T;
              T2 = (if y = rb_nil T1 then set_root z T1
                    else if strcmp (rb_key T1 z) (rb_key T1 y) < 0 then set_left y z T1
                    else set_right y z T1);
              T3 = set_left z (rb_nil T2) T2;
              T4 = set_right z (rb_nil T3) T3;
              T5 = set_color z RED T4
          in rbtree_insert_fixup T5 z)"

definition delete_fixup_step :: "'v rbtree \<Rightarrow> addr \<Rightarrow> 'v rbtree \<times> addr" where
  "delete_fixup_step T x =
     (if x = rb_left T (rb_parent T x) then
        let w = rb_right T (rb_parent T x);
            (T1, w1) =
              (if rb_color T w = RED then
                 let A = set_color w BLACK T;
                     B = set_color (rb_parent A x) RED A;
                     C = rbtree_left_rotate B (rb_parent B x)
                 in (C, rb_right C (rb_parent C x))
               else (T, w))
        in if rb_color T1 (rb_left T1 w1) = BLACK \<and> rb_color T1 (rb_right T1 w1) = BLACK
           then (set_color w1 RED T1, rb_parent T1 x)
           else
             let (T2, w2) =
                   (if rb_color T1 (rb_right T1 w1) = BLACK then
                      let A = set_color (rb_left T1 w1) BLACK T1;
                          B = set_color w1 RED A;
                          C = rbtree_right_rotate B w1
                      in (C, rb_right C (rb_parent C x))
                    else (T1, w1));
                 T3 = set_color w2 (rb_color T2 (rb_parent T2 x)) T2;
                 T4 = set_color (rb_parent T3 x) BLACK T3;
                 T5 = set_color (rb_right T4 w2) BLACK T4;
                 T6 = rbtree_left_rotate T5 (rb_parent T5 x)
             in (T6, rb_root T6)
      else
        let w = rb_left T (rb_parent T x);
            (T1, w1) =
              (if rb_color T w = RED then
                 let A = set_color w BLACK T;
                     B = set_color (rb_parent A x) RED A;
                     C = rbtree_right_rotate B (rb_parent B x)
                 in (C, rb_left C (rb_parent C x))
               else (T, w))
        in if rb_color T1 (rb_left T1 w1) = BLACK \<and> rb_color T1 (rb_right T1 w1) = BLACK
           then (set_color w1 RED T1, rb_parent T1 x)
           else
             let (T2, w2) =
                   (if rb_color T1 (rb_left T1 w1) = BLACK then
                      let A = set_color (rb_right T1 w1) BLACK T1;
                          B = set_color w1 RED A;
                          C = rbtree_left_rotate B w1
                      in (C, rb_left C (rb_parent C x))
                    else (T1, w1));
                 T3 = set_color w2 (rb_color T2 (rb_parent T2 x)) T2;
                 T4 = set_color (rb_parent T3 x) BLACK T3;
                 T5 = set_color (rb_left T4 w2) BLACK T4;
                 T6 = rbtree_right_rotate T5 (rb_parent T5 x)
             in (T6, rb_root T6))"

partial_function (option) rbtree_delete_fixup :: "'v rbtree \<Rightarrow> addr \<Rightarrow> 'v rbtree option" where
  "rbtree_delete_fixup T x =
     (if x \<noteq> rb_root T \<and> rb_color T x = BLACK
      then (let (T', x') = delete_fixup_step T x in rbtree_delete_fixup T' x')
      else Some (set_color x BLACK T))"

text \<open>
  \<open>rbtree_delete\<close> unlinks \<open>z\<close> or its successor and returns the unlinked node. When it is
  the successor, key and value are exchanged with \<open>z\<close>; \<open>expire_ms\<close> is not.
\<close>

definition swap_payload :: "addr \<Rightarrow> addr \<Rightarrow> 'v rbtree \<Rightarrow> 'v rbtree" where
  "swap_payload z y T =
     T\<lparr>rb_key := (rb_key T)(z := rb_key T y, y := rb_key T z),
       rb_value := (rb_value T)(z := rb_value T y, y := rb_value T z)\<rparr>"

definition rbtree_delete :: "'v rbtree \<Rightarrow> addr \<Rightarrow> ('v rbtree \<times> addr) option" where
  "rbtree_delete T z =
     (if z \<notin> rb_live T then None
      else case (if rb_left T z = rb_nil T \<or> rb_right T z = rb_nil T then Some z
                 else rbtree_successor T z) of
        None \<Rightarrow> None
      | Some y \<Rightarrow>
          let x = (if rb_left T y \<noteq> rb_nil T then rb_left T y
                   else if rb_right T y \<noteq> rb_nil T then rb_right T y else rb_nil T);
              T1 = set_parent x (rb_parent T y) T;
              T2 = (if rb_parent T1 y = rb_nil T1 then set_root x T1
                    else if y = rb_left T1 (rb_parent T1 y) then set_left (rb_parent T1 y) x T1
                    else set_right (rb_parent T1 y) x T1);
              T3 = (if y \<noteq> z then swap_payload z y T2 else T2)
          in if rb_color T3 y = BLACK
             then map_option (\<lambda>T'. (T', y)) (rbtree_delete_fixup T3 x)
             else Some (T3, y))"

partial_function (option) search_from :: "'v rbtree \<Rightarrow> string \<Rightarrow> addr \<Rightarrow> addr option" where
  "search_from T k node =
     (if node \<noteq> rb_nil T then
        (if strcmp k (rb_key T node) < 0 then search_from T k (rb_left T node)
         else if strcmp k (rb_key T node) > 0 then search_from T k (rb_right T node)
         else Some node)
      else Some (rb_nil T))"

definition rbtree_search :: "'v rbtree \<Rightarrow> string \<Rightarrow> addr option" where
  "rbtree_search T k = search_from T k (rb_root T)"

text \<open>The lines \<open>rbtree_traversal\<close> prints, as pairs of key and value.\<close>

partial_function (option) rbtree_traversal ::
    "'v rbtree \<Rightarrow> addr \<Rightarrow> (string \<times> 'v) list option" where
  "rbtree_traversal T node =
     (if node \<noteq> rb_nil T then
        Option.bind (rbtree_traversal T (rb_left T node)) (\<lambda>ls.
        Option.bind (rbtree_traversal T (rb_right T node)) (\<lambda>rs.
          Some (ls @ (rb_key T node, rb_value T node) # rs)))
      else Some [])"

subsection \<open>The engine operations\<close>

definition zero_rbtree :: "'v \<Rightarrow> 'v rbtree" where
  "zero_rbtree d = \<lparr>rb_root = 0, rb_nil = 0, rb_color = (\<lambda>_. BLACK), rb_left = (\<lambda>_. 0),
     rb_right = (\<lambda>_. 0), rb_parent = (\<lambda>_. 0), rb_key = (\<lambda>_. []), rb_value = (\<lambda>_. d),
     rb_expire = (\<lambda>_. 0), rb_live = {}, rb_next = 1\<rparr>"

text \<open>Addresses come from a counter; \<open>kvs_free\<close> takes the node out of the allocated set.\<close>

definition kvs_rbtree_create :: "mallocs \<Rightarrow> 'v rbtree \<Rightarrow> int \<times> 'v rbtree" where
  "kvs_rbtree_create mok T =
     (if \<not> mok 0 then (-1, T)
      else let n = rb_next T in
        (0, T\<lparr>rb_nil := n, rb_next := n + 1, rb_live := insert n (rb_live T),
              rb_color := (rb_color T)(n := BLACK), rb_left := (rb_left T)(n := n),
              rb_right := (rb_right T)(n := n), rb_parent := (rb_parent T)(n := n),
              rb_root := n\<rparr>))"

definition free_rb_node :: "addr \<Rightarrow> 'v rbtree \<Rightarrow> 'v rbtree" where
  "free_rb_node p T = T\<lparr>rb_live := rb_live T - {p}\<rparr>"

partial_function (option) destroy_loop :: "'v rbtree \<Rightarrow> 'v rbtree option" where
  "destroy_loop T =
     (if rb_root T \<noteq> rb_nil T then
        Option.bind (rbtree_mini T (rb_root T)) (\<lambda>m.
        Option.bind (rbtree_delete T m) (\<lambda>(T', cur). destroy_loop (free_rb_node cur T')))
      else Some T)"

definition kvs_rbtree_destory :: "'v rbtree \<Rightarrow> 'v rbtree option" where
  "kvs_rbtree_destory T =
     map_option (\<lambda>T'. (free_rb_node (rb_nil T') T')\<lparr>rb_nil := 0\<rparr>) (destroy_loop T)"

definition kvs_rbtree_del :: "'v rbtree \<Rightarrow> cptr \<Rightarrow> (int \<times> 'v rbtree) option" where
  "kvs_rbtree_del T key =
     (case key of None \<Rightarrow> Some (-1, T)
      | Some k \<Rightarrow>
         (case rbtree_search T k of None \<Rightarrow> None
          | Some node \<Rightarrow>
             if node = rb_nil T then Some (1, T)
             else map_option (\<lambda>(T', cur). (0, free_rb_node cur T')) (rbtree_delete T node)))"

definition new_rb_node :: "string \<Rightarrow> 'v \<Rightarrow> int \<Rightarrow> 'v rbtree \<Rightarrow> 'v rbtree" where
  "new_rb_node k v e T =
     (let n = rb_next T in
      T\<lparr>rb_next := n + 1, rb_live := insert n (rb_live T), rb_key := (rb_key T)(n := k),
        rb_value := (rb_value T)(n := v), rb_expire := (rb_expire T)(n := e)\<rparr>)"

definition kvs_rbtree_set ::
    "mallocs \<Rightarrow> vptr rbtree \<Rightarrow> cptr \<Rightarrow> cptr \<Rightarrow> int \<Rightarrow> (int \<times> vptr rbtree) option" where
  "kvs_rbtree_set mok T key value expire_ms =
     (case (key, value) of
        (Some k, Some v) \<Rightarrow>
          if \<not> mok 0 then Some (-2, T)
          else if \<not> mok 1 then Some (-2, T)
          else if \<not> mok 2 then Some (-2, T)
          else
            let node = rb_next T; T0 = new_rb_node k (VStr v) expire_ms T in
            (case rbtree_search T0 k of None \<Rightarrow> None
             | Some ex \<Rightarrow>
                (case (if ex \<noteq> rb_nil T0
                       then map_option (\<lambda>(T', cur). free_rb_node cur T') (rbtree_delete T0 ex)
                       else Some T0) of
                   None \<Rightarrow> None
                 | Some T1 \<Rightarrow> map_option (\<lambda>T2. (0, T2)) (rbtree_insert T1 node)))
      | _ \<Rightarrow> Some (-1, T))"

definition kvs_rbtree_get :: "int \<Rightarrow> vptr rbtree \<Rightarrow> cptr \<Rightarrow> (vptr \<times> vptr rbtree) option" where
  "kvs_rbtree_get now T key =
     (case key of None \<Rightarrow> Some (VNull, T)
      | Some k \<Rightarrow>
         (case rbtree_search T k of None \<Rightarrow> None
          | Some node \<Rightarrow>
             if node = rb_nil T then Some (VNull, T)
             else if expired now (rb_expire T node)
             then map_option (\<lambda>(r, T'). (VNull, T')) (kvs_rbtree_del T key)
             else Some (rb_value T node, T)))"

definition kvs_rbtree_mod ::
    "mallocs \<Rightarrow> vptr rbtree \<Rightarrow> cptr \<Rightarrow> cptr \<Rightarrow> (int \<times> vptr rbtree) option" where
  "kvs_rbtree_mod mok T key value =
     (case (key, value) of
        (Some k, Some v) \<Rightarrow>
          (case rbtree_search T k of None \<Rightarrow> None
           | Some node \<Rightarrow>
              if node = rb_nil T then Some (1, T)
              else if \<not> mok 0 then Some (-2, T\<lparr>rb_value := (rb_value T)(node := VNull)\<rparr>)
              else Some (0, T\<lparr>rb_value := (rb_value T)(node := VStr v)\<rparr>))
      | _ \<Rightarrow> Some (-1, T))"

definition kvs_rbtree_exist :: "int \<Rightarrow> vptr rbtree \<Rightarrow> cptr \<Rightarrow> (int \<times> vptr rbtree) option" where
  "kvs_rbtree_exist now T key =
     (case key of None \<Rightarrow> Some (-1, T)
      | Some k \<Rightarrow>
         (case rbtree_search T k of None \<Rightarrow> None
          | Some node \<Rightarrow>
             if node = rb_nil T then Some (1, T)
             else if expired now (rb_expire T node)
             then map_option (\<lambda>(r, T'). (1, T')) (kvs_rbtree_del T key)
             else Some (0, T)))"

definition kvs_rbtree_expire :: "vptr rbtree \<Rightarrow> cptr \<Rightarrow> int \<Rightarrow> (int \<times> vptr rbtree) option" where
  "kvs_rbtree_expire T key expire_ms =
     (case key of None \<Rightarrow> Some (-1, T)
      | Some k \<Rightarrow>
         (case rbtree_search T k of None \<Rightarrow> None
          | Some node \<Rightarrow>
             if node = rb_nil T then Some (1, T)
             else if expire_ms = 0 then kvs_rbtree_del T key
             else Some (0, T\<lparr>rb_expire := (rb_expire T)(node := expire_ms)\<rparr>)))"

definition kvs_rbtree_ttl :: "int \<Rightarrow> vptr rbtree \<Rightarrow> cptr \<Rightarrow> int option" where
  "kvs_rbtree_ttl now T key =
     (case key of None \<Rightarrow> Some (-2)
      | Some k \<Rightarrow>
         (case rbtree_search T k of None \<Rightarrow> None
          | Some node \<Rightarrow>
             if node = rb_nil T then Some (-2) else Some (ttl_of now (rb_expire T node))))"

definition MAX_EXPIRED :: nat where
  "MAX_EXPIRED = 10240"

partial_function (option) rbtree_collect_expired ::
    "'v rbtree \<Rightarrow> int \<Rightarrow> addr \<Rightarrow> addr list \<Rightarrow> addr list option" where
  "rbtree_collect_expired T now node acc =
     (if node = rb_nil T then Some acc
      else Option.bind (rbtree_collect_expired T now (rb_left T node) acc) (\<lambda>a.
        rbtree_collect_expired T now (rb_right T node)
          (if expired now (rb_expire T node) \<and> length a < MAX_EXPIRED then a @ [node] else a)))"

primrec delete_all :: "addr list \<Rightarrow> 'v rbtree \<Rightarrow> 'v rbtree option" where
  "delete_all [] T = Some T"
| "delete_all (p # ps) T =
     Option.bind (rbtree_delete T p) (\<lambda>(T', cur). delete_all ps (free_rb_node cur T'))"

definition kvs_rbtree_scan_expired :: "int \<Rightarrow> 'v rbtree \<Rightarrow> 'v rbtree option" where
  "kvs_rbtree_scan_expired now T =
     Option.bind (rbtree_collect_expired T now (rb_root T) []) (\<lambda>ps. delete_all ps T)"

text \<open>The loops as program equations, for evaluation.\<close>

declare rbtree_mini.simps [code] rbtree_maxi.simps [code] successor_up.simps [code]
  rbtree_insert_fixup.simps [code] insert_descend.simps [code] rbtree_delete_fixup.simps [code]
  search_from.simps [code] rbtree_traversal.simps [code] destroy_loop.simps [code]
  rbtree_collect_expired.simps [code]

end
