(* ===== verification/KVS_Vector.thy ===== *)
theory KVS_Vector
  imports KVS_RBTree "HOL-Library.Word"
begin

text \<open>
  The vector engine (\<open>kvs_vector.c\<close>): entries indexed by an HNSW graph over their vectors
  and by a red-black tree over their questions. Single-precision arithmetic, \<open>strtof\<close>,
  \<open>atof\<close> and the printing of a score are a parameter of the model, a record of the
  operations the source applies; the theorems state the laws of the order they use.

  An entry is known by its \<open>hnsw_id\<close>, which is also what the tree stores for it. An entry
  that has been freed while \<open>items\<close> still points to it keeps its contents and is marked.
\<close>

subsection \<open>Data\<close>

record 'f fops =
  f_zero :: 'f
  f_neg2 :: 'f
  f_max :: 'f
  f_add :: "'f \<Rightarrow> 'f \<Rightarrow> 'f"
  f_mul :: "'f \<Rightarrow> 'f \<Rightarrow> 'f"
  f_div :: "'f \<Rightarrow> 'f \<Rightarrow> 'f"
  f_sqrt :: "'f \<Rightarrow> 'f"
  f_le :: "'f \<Rightarrow> 'f \<Rightarrow> bool"
  f_lt :: "'f \<Rightarrow> 'f \<Rightarrow> bool"
  f_parse :: "string \<Rightarrow> 'f option"
  f_atof :: "string \<Rightarrow> 'f"
  f_print :: "'f \<Rightarrow> string"

definition KVS_HNSW_MAX_LEVEL :: nat where "KVS_HNSW_MAX_LEVEL = 8"
definition KVS_HNSW_M :: nat where "KVS_HNSW_M = 8"
definition KVS_HNSW_EF_CONSTRUCTION :: nat where "KVS_HNSW_EF_CONSTRUCTION = 32"
definition KVS_HNSW_EF_SEARCH :: nat where "KVS_HNSW_EF_SEARCH = 64"
definition HNSW_NEIGHBOR_CAP :: nat where "HNSW_NEIGHBOR_CAP = KVS_HNSW_M * 2"

record 'f ventry =
  ve_question :: string
  ve_answer :: string
  ve_vector :: "'f list"
  ve_dim :: int
  ve_norm :: 'f
  ve_ctime :: int
  ve_id :: int
  ve_level :: nat
  ve_deleted :: bool
  ve_neighbors :: "nat \<Rightarrow> int list option"
  ve_ncount :: "nat \<Rightarrow> nat"
  ve_freed :: bool

record 'f kvs_vector =
  v_tree :: "int rbtree"
  v_items :: "nat \<Rightarrow> 'f ventry option"
  v_cap :: nat
  v_next :: nat
  v_entry :: int
  v_maxlevel :: nat
  v_seed :: "32 word"
  v_count :: int

type_synonym 'f candidate = "int \<times> 'f"

subsection \<open>Vectors and scores\<close>

text \<open>\<open>strtok_r\<close> with the delimiter \<open>,\<close>: the non-empty pieces.\<close>

fun split_comma :: "string \<Rightarrow> string \<Rightarrow> string list" where
  "split_comma acc [] = [acc]"
| "split_comma acc (c # cs) =
     (if c = CHR '','' then acc # split_comma [] cs else split_comma (acc @ [c]) cs)"

definition tokens :: "string \<Rightarrow> string list" where
  "tokens s = filter (\<lambda>t. t \<noteq> []) (split_comma [] s)"

text \<open>The parse loop: the components read and the tokens left, or nothing at a bad token.\<close>

fun parse_loop :: "'f fops \<Rightarrow> string list \<Rightarrow> nat \<Rightarrow> 'f list \<Rightarrow> ('f list \<times> string list) option" where
  "parse_loop F [] n acc = Some (acc, [])"
| "parse_loop F (t # ts) 0 acc = Some (acc, t # ts)"
| "parse_loop F (t # ts) (Suc n) acc =
     (case f_parse F t of None \<Rightarrow> None | Some x \<Rightarrow> parse_loop F ts n (acc @ [x]))"

definition parse_vector :: "'f fops \<Rightarrow> mallocs \<Rightarrow> cptr \<Rightarrow> int \<Rightarrow> 'f list option" where
  "parse_vector F mok vector_str dim =
     (case vector_str of None \<Rightarrow> None
      | Some s \<Rightarrow>
         if dim \<le> 0 then None
         else if \<not> mok 0 \<or> \<not> mok 1 then None
         else (case parse_loop F (tokens s) (nat dim) [] of
                 None \<Rightarrow> None
               | Some (vec, rest) \<Rightarrow>
                   if int (length vec) \<noteq> dim \<or> rest \<noteq> [] then None else Some vec))"

definition vector_norm :: "'f fops \<Rightarrow> 'f list \<Rightarrow> int \<Rightarrow> 'f" where
  "vector_norm F vec dim =
     (if dim \<le> 0 then f_zero F
      else f_sqrt F (foldl (\<lambda>s x. f_add F s (f_mul F x x)) (f_zero F) (take (nat dim) vec)))"

definition cosine_similarity :: "'f fops \<Rightarrow> 'f list \<Rightarrow> 'f list \<Rightarrow> int \<Rightarrow> 'f \<Rightarrow> 'f \<Rightarrow> 'f" where
  "cosine_similarity F a b dim norm_a norm_b =
     (if dim \<le> 0 \<or> f_le F norm_a (f_zero F) \<or> f_le F norm_b (f_zero F) then f_neg2 F
      else f_div F
        (foldl (\<lambda>s (x, y). f_add F s (f_mul F x y)) (f_zero F) (take (nat dim) (zip a b)))
        (f_mul F norm_a norm_b))"

definition candidate_find :: "'f candidate list \<Rightarrow> int \<Rightarrow> bool" where
  "candidate_find items cid = list_ex (\<lambda>c. fst c = cid) items"

text \<open>The shifting loop of \<open>candidate_add_sorted\<close>: how far a score moves to the front.\<close>

fun shift_pos :: "'f fops \<Rightarrow> 'f candidate list \<Rightarrow> nat \<Rightarrow> 'f \<Rightarrow> nat" where
  "shift_pos F items 0 score = 0"
| "shift_pos F items (Suc pos) score =
     (if f_lt F (snd (items ! pos)) score then shift_pos F items pos score else Suc pos)"

definition candidate_add_sorted ::
    "'f fops \<Rightarrow> 'f candidate list \<Rightarrow> nat \<Rightarrow> int \<Rightarrow> 'f \<Rightarrow> 'f candidate list" where
  "candidate_add_sorted F items cap cid score =
     (if cap = 0 \<or> cid < 0 then items
      else if candidate_find items cid then items
      else if length items \<ge> cap \<and> f_le F score (snd (last items)) then items
      else let kept = (if length items \<ge> cap then take (cap - 1) items else items);
               pos = shift_pos F kept (length kept) score
           in take pos kept @ (cid, score) # drop pos kept)"

definition entry_score :: "'f fops \<Rightarrow> 'f ventry \<Rightarrow> 'f list \<Rightarrow> int \<Rightarrow> 'f \<Rightarrow> 'f" where
  "entry_score F entry query dim query_norm =
     (if ve_deleted entry \<or> ve_dim entry \<noteq> dim then f_neg2 F
      else cosine_similarity F query (ve_vector entry) dim query_norm (ve_norm entry))"

text \<open>\<open>inst->items[id]\<close> with the tests that guard it.\<close>

definition item :: "'f kvs_vector \<Rightarrow> int \<Rightarrow> 'f ventry option" where
  "item inst i = (if i < 0 \<or> i \<ge> int (v_next inst) then None else v_items inst (nat i))"

definition id_score :: "'f fops \<Rightarrow> 'f kvs_vector \<Rightarrow> int \<Rightarrow> 'f list \<Rightarrow> int \<Rightarrow> 'f \<Rightarrow> 'f" where
  "id_score F inst i query dim query_norm =
     (case item inst i of None \<Rightarrow> f_neg2 F
      | Some entry \<Rightarrow> entry_score F entry query dim query_norm)"

subsection \<open>Building the graph\<close>

definition ensure_item_capacity :: "mallocs \<Rightarrow> 'f kvs_vector \<Rightarrow> int \<times> 'f kvs_vector" where
  "ensure_item_capacity mok inst =
     (if v_next inst < v_cap inst then (0, inst)
      else let new_cap = (if v_cap inst = 0 then 128 else v_cap inst * 2) in
        if \<not> mok 5 then (-1, inst)
        else (0, inst\<lparr>v_items := (\<lambda>i. if i < v_cap inst then v_items inst i else None),
                      v_cap := new_cap\<rparr>))"

definition hnsw_rand :: "'f kvs_vector \<Rightarrow> 32 word \<times> 'f kvs_vector" where
  "hnsw_rand inst =
     (let s = v_seed inst * 1103515245 + 12345 in (s, inst\<lparr>v_seed := s\<rparr>))"

function random_level_loop :: "'f kvs_vector \<Rightarrow> nat \<Rightarrow> nat \<times> 'f kvs_vector" where
  "random_level_loop inst level =
     (if level + 1 < KVS_HNSW_MAX_LEVEL then
        (let (r, inst') = hnsw_rand inst in
         if unat r mod 65536 \<ge> 32768 then (level, inst')
         else random_level_loop inst' (level + 1))
      else (level, inst))"
  by auto

termination random_level_loop
  by (relation "measure (\<lambda>(inst, level). KVS_HNSW_MAX_LEVEL - level)") auto

declare random_level_loop.simps [simp del]

definition hnsw_random_level :: "'f kvs_vector \<Rightarrow> nat \<times> 'f kvs_vector" where
  "hnsw_random_level inst = random_level_loop inst 0"

text \<open>The neighbour arrays of a new entry; \<open>mok (6 + level)\<close> is the allocation of one level.\<close>

definition hnsw_alloc_neighbors :: "mallocs \<Rightarrow> 'f ventry \<Rightarrow> (int \<times> 'f ventry)" where
  "hnsw_alloc_neighbors mok entry =
     (let top = min (ve_level entry) (KVS_HNSW_MAX_LEVEL - 1) in
      if list_all (\<lambda>l. mok (6 + l)) [0..<top + 1]
      then (0, entry\<lparr>ve_neighbors := (\<lambda>l. if l \<le> top then Some (replicate HNSW_NEIGHBOR_CAP (-1))
                                       else ve_neighbors entry l),
                     ve_ncount := (\<lambda>l. if l \<le> top then 0 else ve_ncount entry l)\<rparr>)
      else (-1, entry))"

definition vector_entry_create ::
    "'f fops \<Rightarrow> mallocs \<Rightarrow> int \<Rightarrow> string \<Rightarrow> string \<Rightarrow> int \<Rightarrow> 'f list \<Rightarrow> 'f ventry option" where
  "vector_entry_create F mok now question answer dim vec =
     (if dim \<le> 0 then None
      else if \<not> mok 2 then None
      else if \<not> mok 3 \<or> \<not> mok 4 then None
      else let norm = vector_norm F vec dim in
        if f_le F norm (f_zero F) then None
        else Some \<lparr>ve_question = question, ve_answer = answer, ve_vector = vec, ve_dim = dim,
               ve_norm = norm, ve_ctime = now, ve_id = -1, ve_level = 0, ve_deleted = False,
               ve_neighbors = (\<lambda>_. None), ve_ncount = (\<lambda>_. 0), ve_freed = False\<rparr>)"

text \<open>The kept neighbours of a node on a level, best first, at most \<open>KVS_HNSW_M\<close> of them.\<close>

definition prune_candidates ::
    "'f fops \<Rightarrow> 'f kvs_vector \<Rightarrow> 'f ventry \<Rightarrow> int list \<Rightarrow> 'f candidate list" where
  "prune_candidates F inst entry nids =
     foldl (\<lambda>tmp nid. let score = id_score F inst nid (ve_vector entry) (ve_dim entry) (ve_norm entry) in
              if f_lt F (f_neg2 F) score
              then candidate_add_sorted F tmp HNSW_NEIGHBOR_CAP nid score else tmp) [] nids"

definition hnsw_prune_neighbors ::
    "'f fops \<Rightarrow> 'f kvs_vector \<Rightarrow> nat \<Rightarrow> nat \<Rightarrow> 'f kvs_vector" where
  "hnsw_prune_neighbors F inst i level =
     (case v_items inst i of None \<Rightarrow> inst
      | Some entry \<Rightarrow>
         if level \<ge> KVS_HNSW_MAX_LEVEL then inst
         else (case ve_neighbors entry level of None \<Rightarrow> inst
           | Some nb \<Rightarrow>
              let tmp = take KVS_HNSW_M (prune_candidates F inst entry (take (ve_ncount entry level) nb));
                  nb' = map fst tmp @ replicate (HNSW_NEIGHBOR_CAP - length tmp) (-1)
              in inst\<lparr>v_items := (v_items inst)(i \<mapsto>
                   entry\<lparr>ve_neighbors := (ve_neighbors entry)(level \<mapsto> nb'),
                         ve_ncount := (ve_ncount entry)(level := length tmp)\<rparr>)\<rparr>))"

text \<open>The index and score of the worst neighbour, as the loop of \<open>hnsw_add_neighbor\<close> finds it.\<close>

definition worst_neighbor ::
    "'f fops \<Rightarrow> 'f kvs_vector \<Rightarrow> 'f ventry \<Rightarrow> int list \<Rightarrow> nat option \<times> 'f" where
  "worst_neighbor F inst from nids =
     foldl (\<lambda>(wi, ws) (i, nid).
        let score = id_score F inst nid (ve_vector from) (ve_dim from) (ve_norm from) in
        if f_lt F score ws then (Some i, score) else (wi, ws))
       (None, f_max F) (zip [0..<length nids] nids)"

definition hnsw_add_neighbor ::
    "'f fops \<Rightarrow> 'f kvs_vector \<Rightarrow> int \<Rightarrow> int \<Rightarrow> nat \<Rightarrow> 'f kvs_vector" where
  "hnsw_add_neighbor F inst from_id to_id level =
     (if from_id < 0 \<or> to_id < 0 \<or> from_id = to_id \<or> from_id \<ge> int (v_next inst) \<or>
         to_id \<ge> int (v_next inst) \<or> level \<ge> KVS_HNSW_MAX_LEVEL then inst
      else (case v_items inst (nat from_id) of None \<Rightarrow> inst
        | Some from \<Rightarrow>
           if ve_deleted from \<or> level > ve_level from then inst
           else (case ve_neighbors from level of None \<Rightarrow> inst
             | Some nb \<Rightarrow>
                let count = ve_ncount from level in
                if to_id \<in> set (take count nb) then inst
                else if count < HNSW_NEIGHBOR_CAP then
                  hnsw_prune_neighbors F (inst\<lparr>v_items := (v_items inst)(nat from_id \<mapsto>
                    from\<lparr>ve_neighbors := (ve_neighbors from)(level \<mapsto> nb[count := to_id]),
                         ve_ncount := (ve_ncount from)(level := count + 1)\<rparr>)\<rparr>) (nat from_id) level
                else
                  let to_score = id_score F inst to_id (ve_vector from) (ve_dim from) (ve_norm from) in
                  (case worst_neighbor F inst from (take count nb) of
                     (None, ws) \<Rightarrow> inst
                   | (Some wi, ws) \<Rightarrow>
                      if f_lt F ws to_score then
                        hnsw_prune_neighbors F (inst\<lparr>v_items := (v_items inst)(nat from_id \<mapsto>
                          from\<lparr>ve_neighbors := (ve_neighbors from)(level \<mapsto> nb[wi := to_id])\<rparr>)\<rparr>)
                          (nat from_id) level
                      else inst))))"

text \<open>One pass over the neighbours of the current node, and the greedy walk.\<close>

definition greedy_pass ::
    "'f fops \<Rightarrow> 'f kvs_vector \<Rightarrow> 'f list \<Rightarrow> int \<Rightarrow> 'f \<Rightarrow> int list \<Rightarrow> int \<Rightarrow> 'f \<Rightarrow> int \<times> 'f \<times> bool" where
  "greedy_pass F inst query dim qn nids current cs =
     foldl (\<lambda>(cur, s, changed) nid.
        let score = id_score F inst nid query dim qn in
        if f_lt F s score then (nid, score, True) else (cur, s, changed))
       (current, cs, False) nids"

partial_function (option) greedy_loop ::
    "'f fops \<Rightarrow> 'f kvs_vector \<Rightarrow> nat \<Rightarrow> 'f list \<Rightarrow> int \<Rightarrow> 'f \<Rightarrow> int \<Rightarrow> 'f \<Rightarrow> int option" where
  "greedy_loop F inst level query dim qn current cs =
     (case item inst current of None \<Rightarrow> Some current
      | Some entry \<Rightarrow>
         if level > ve_level entry then Some current
         else (case ve_neighbors entry level of None \<Rightarrow> Some current
           | Some nb \<Rightarrow>
              (let (cur, s, changed) =
                     greedy_pass F inst query dim qn (take (ve_ncount entry level) nb) current cs
               in if changed then greedy_loop F inst level query dim qn cur s else Some cur)))"

definition hnsw_greedy ::
    "'f fops \<Rightarrow> 'f kvs_vector \<Rightarrow> int \<Rightarrow> nat \<Rightarrow> 'f list \<Rightarrow> int \<Rightarrow> 'f \<Rightarrow> int option" where
  "hnsw_greedy F inst entry_id level query dim qn =
     greedy_loop F inst level query dim qn entry_id (id_score F inst entry_id query dim qn)"

text \<open>The neighbours of one candidate: mark them visited and add the ones with a score.\<close>

definition expand ::
    "'f fops \<Rightarrow> 'f kvs_vector \<Rightarrow> 'f list \<Rightarrow> int \<Rightarrow> 'f \<Rightarrow> nat \<Rightarrow> int list \<Rightarrow>
     'f candidate list \<times> int list \<Rightarrow> 'f candidate list \<times> int list" where
  "expand F inst query dim qn ef nids st =
     foldl (\<lambda>(cands, visited) nid.
        if nid < 0 \<or> nid \<ge> int (v_next inst) \<or> nid \<in> set visited then (cands, visited)
        else let score = id_score F inst nid query dim qn in
          (if f_lt F (f_neg2 F) score then candidate_add_sorted F cands ef nid score else cands,
           nid # visited)) st nids"

partial_function (option) layer_loop ::
    "'f fops \<Rightarrow> 'f kvs_vector \<Rightarrow> 'f list \<Rightarrow> int \<Rightarrow> 'f \<Rightarrow> nat \<Rightarrow> nat \<Rightarrow> nat \<Rightarrow>
     'f candidate list \<Rightarrow> int list \<Rightarrow> 'f candidate list option" where
  "layer_loop F inst query dim qn ef level cursor cands visited =
     (if cursor < length cands then
        (case item inst (fst (cands ! cursor)) of
           None \<Rightarrow> layer_loop F inst query dim qn ef level (cursor + 1) cands visited
         | Some entry \<Rightarrow>
            if level > ve_level entry
            then layer_loop F inst query dim qn ef level (cursor + 1) cands visited
            else (case ve_neighbors entry level of
                None \<Rightarrow> layer_loop F inst query dim qn ef level (cursor + 1) cands visited
              | Some nb \<Rightarrow>
                 (let (cands', visited') =
                        expand F inst query dim qn ef (take (ve_ncount entry level) nb) (cands, visited)
                  in layer_loop F inst query dim qn ef level (cursor + 1) cands' visited')))
      else Some cands)"

text \<open>The result is the return code with the candidates found.\<close>

definition hnsw_search_layer ::
    "'f fops \<Rightarrow> (nat \<Rightarrow> bool) \<Rightarrow> 'f kvs_vector \<Rightarrow> 'f list \<Rightarrow> int \<Rightarrow> 'f \<Rightarrow> int \<Rightarrow> nat \<Rightarrow> nat \<Rightarrow>
     (int \<times> 'f candidate list) option" where
  "hnsw_search_layer F mok inst query dim qn entry_id ef level =
     (if entry_id < 0 \<or> ef = 0 then Some (-1, [])
      else if \<not> mok 0 \<or> \<not> mok 1 then Some (-1, [])
      else map_option (\<lambda>cands. (0, cands))
        (layer_loop F inst query dim qn ef level 0
          (candidate_add_sorted F [] ef entry_id (id_score F inst entry_id query dim qn))
          [entry_id]))"

text \<open>The loops of \<open>hnsw_insert\<close> over the levels; \<open>mok (14 + 2 * level)\<close> and the next are the
  allocations of the search on that level.\<close>

primrec greedy_down ::
    "'f fops \<Rightarrow> 'f kvs_vector \<Rightarrow> nat \<Rightarrow> nat \<Rightarrow> 'f list \<Rightarrow> int \<Rightarrow> 'f \<Rightarrow> int \<Rightarrow> int option" where
  "greedy_down F inst 0 stop query dim qn ep = Some ep"
| "greedy_down F inst (Suc l) stop query dim qn ep =
     (if Suc l > stop
      then Option.bind (hnsw_greedy F inst ep (Suc l) query dim qn)
             (\<lambda>ep'. greedy_down F inst l stop query dim qn ep')
      else Some ep)"

definition link_found ::
    "'f fops \<Rightarrow> int \<Rightarrow> nat \<Rightarrow> 'f candidate list \<Rightarrow> 'f kvs_vector \<Rightarrow> 'f kvs_vector" where
  "link_found F i level found inst =
     foldl (\<lambda>v c. hnsw_add_neighbor F (hnsw_add_neighbor F v i (fst c) level) (fst c) i level)
       inst (take KVS_HNSW_M found)"

definition connect_level ::
    "'f fops \<Rightarrow> mallocs \<Rightarrow> 'f ventry \<Rightarrow> nat \<Rightarrow> int \<Rightarrow> 'f kvs_vector \<Rightarrow>
     (int \<times> int \<times> 'f kvs_vector) option" where
  "connect_level F mok entry level ep inst =
     map_option (\<lambda>(r, found).
        if r \<noteq> 0 then (-1, ep, inst)
        else (0, if found = [] then ep else fst (hd found), link_found F (ve_id entry) level found inst))
       (hnsw_search_layer F (\<lambda>i. mok (14 + 2 * level + i)) inst (ve_vector entry) (ve_dim entry)
          (ve_norm entry) ep KVS_HNSW_EF_CONSTRUCTION level)"

primrec connect_down ::
    "'f fops \<Rightarrow> mallocs \<Rightarrow> 'f ventry \<Rightarrow> nat \<Rightarrow> int \<Rightarrow> 'f kvs_vector \<Rightarrow> (int \<times> 'f kvs_vector) option" where
  "connect_down F mok entry 0 ep inst =
     map_option (\<lambda>(r, ep', inst'). (r, inst')) (connect_level F mok entry 0 ep inst)"
| "connect_down F mok entry (Suc l) ep inst =
     Option.bind (connect_level F mok entry (Suc l) ep inst)
       (\<lambda>(r, ep', inst'). if r \<noteq> 0 then Some (r, inst') else connect_down F mok entry l ep' inst')"

definition hnsw_insert ::
    "'f fops \<Rightarrow> mallocs \<Rightarrow> 'f kvs_vector \<Rightarrow> 'f ventry \<Rightarrow> (int \<times> 'f kvs_vector) option" where
  "hnsw_insert F mok inst entry =
     (if ve_id entry < 0 then Some (-1, inst)
      else if v_entry inst < 0
      then Some (0, inst\<lparr>v_entry := ve_id entry, v_maxlevel := ve_level entry\<rparr>)
      else Option.bind
        (greedy_down F inst (v_maxlevel inst) (ve_level entry) (ve_vector entry) (ve_dim entry)
           (ve_norm entry) (v_entry inst))
        (\<lambda>ep. Option.bind
          (connect_down F mok entry (min (ve_level entry) (v_maxlevel inst)) ep inst)
          (\<lambda>(r, inst').
             if r \<noteq> 0 then Some (-1, inst')
             else if ve_level entry > v_maxlevel inst'
             then Some (0, inst'\<lparr>v_maxlevel := ve_level entry, v_entry := ve_id entry\<rparr>)
             else Some (0, inst'))))"

text \<open>The result carries the identifier when the entry has been stored in \<open>items\<close>.\<close>

definition vector_attach_to_hnsw ::
    "'f fops \<Rightarrow> mallocs \<Rightarrow> 'f kvs_vector \<Rightarrow> 'f ventry \<Rightarrow> (int \<times> nat option \<times> 'f kvs_vector) option" where
  "vector_attach_to_hnsw F mok inst entry =
     (let (r, inst1) = ensure_item_capacity mok inst in
      if r \<noteq> 0 then Some (-1, None, inst1)
      else
        let i = v_next inst1;
            (level, inst2) = hnsw_random_level inst1;
            (ra, entry') = hnsw_alloc_neighbors mok (entry\<lparr>ve_id := int i, ve_level := level\<rparr>)
        in if ra \<noteq> 0 then Some (-1, None, inst2)
           else map_option (\<lambda>(r', inst'). (r', Some i, inst'))
             (hnsw_insert F mok (inst2\<lparr>v_items := (v_items inst2)(i \<mapsto> entry'), v_next := i + 1\<rparr>) entry'))"

subsection \<open>The engine operations\<close>

definition zero_vector :: "'f kvs_vector" where
  "zero_vector = \<lparr>v_tree = zero_rbtree 0, v_items = (\<lambda>_. None), v_cap = 0, v_next = 0, v_entry = 0,
     v_maxlevel = 0, v_seed = 0, v_count = 0\<rparr>"

definition kvs_vector_create :: "mallocs \<Rightarrow> 'f kvs_vector \<Rightarrow> int \<times> 'f kvs_vector" where
  "kvs_vector_create mok inst =
     (let (r, t) = kvs_rbtree_create mok (zero_rbtree 0) in
      if r \<noteq> 0 then (-1, zero_vector\<lparr>v_tree := t\<rparr>)
      else (0, zero_vector\<lparr>v_tree := t, v_entry := -1, v_maxlevel := 0, v_seed := 0x9e3779b9\<rparr>))"

definition kvs_vector_destroy :: "'f kvs_vector \<Rightarrow> 'f kvs_vector option" where
  "kvs_vector_destroy inst =
     map_option (\<lambda>_. zero_vector\<lparr>v_entry := -1\<rparr>) (kvs_rbtree_destory (v_tree inst))"

definition mark_deleted :: "int \<Rightarrow> 'f kvs_vector \<Rightarrow> 'f kvs_vector" where
  "mark_deleted i inst =
     (case v_items inst (nat i) of None \<Rightarrow> inst
      | Some e \<Rightarrow> inst\<lparr>v_items := (v_items inst)(nat i \<mapsto> e\<lparr>ve_deleted := True\<rparr>)\<rparr>)"

definition mark_freed :: "nat \<Rightarrow> 'f kvs_vector \<Rightarrow> 'f kvs_vector" where
  "mark_freed i inst =
     (case v_items inst i of None \<Rightarrow> inst
      | Some e \<Rightarrow> inst\<lparr>v_items := (v_items inst)(i \<mapsto> e\<lparr>ve_freed := True\<rparr>)\<rparr>)"

text \<open>
  \<open>kvs_vector_set\<close>. When the graph insertion fails the entry is freed; if it had been
  stored in \<open>items\<close> already, that slot dangles. The tree key is looked up afterwards: an
  old entry is marked deleted and replaced, otherwise a tree node is added.
\<close>

definition tree_store :: "mallocs \<Rightarrow> string \<Rightarrow> nat \<Rightarrow> 'f kvs_vector \<Rightarrow> (int \<times> 'f kvs_vector) option" where
  "tree_store mok question i inst =
     (case rbtree_search (v_tree inst) question of None \<Rightarrow> None
      | Some old \<Rightarrow>
         if old \<noteq> rb_nil (v_tree inst) then
           let inst1 = mark_deleted (rb_value (v_tree inst) old) inst in
           Some (0, inst1\<lparr>v_tree := (v_tree inst1)
                    \<lparr>rb_value := (rb_value (v_tree inst1))(old := int i)\<rparr>\<rparr>)
         else if \<not> mok 30 \<or> \<not> mok 31 then Some (-2, mark_deleted (int i) inst)
         else
           let node = rb_next (v_tree inst) in
           map_option (\<lambda>t. (0, inst\<lparr>v_tree := t, v_count := int_wrap (v_count inst + 1)\<rparr>))
             (rbtree_insert (new_rb_node question (int i) (-1) (v_tree inst)) node))"

definition kvs_vector_set ::
    "'f fops \<Rightarrow> mallocs \<Rightarrow> int \<Rightarrow> 'f kvs_vector \<Rightarrow> cptr \<Rightarrow> cptr \<Rightarrow> int \<Rightarrow> cptr \<Rightarrow>
     (int \<times> 'f kvs_vector) option" where
  "kvs_vector_set F mok now inst question answer dim vector_str =
     (case (question, answer, vector_str) of
        (Some q, Some a, Some vs) \<Rightarrow>
          if dim \<le> 0 then Some (-1, inst)
          else (case parse_vector F mok vector_str dim of None \<Rightarrow> Some (-2, inst)
            | Some vec \<Rightarrow>
               (case vector_entry_create F mok now q a dim vec of None \<Rightarrow> Some (-2, inst)
                | Some entry \<Rightarrow>
                   Option.bind (vector_attach_to_hnsw F mok inst entry) (\<lambda>(r, i, inst1).
                     case i of
                       None \<Rightarrow> Some (-2, inst1)
                     | Some n \<Rightarrow>
                         if r \<noteq> 0 then Some (-2, mark_freed n inst1)
                         else tree_store mok q n inst1)))
      | _ \<Rightarrow> Some (-1, inst))"

definition kvs_vector_get_by_key :: "'f kvs_vector \<Rightarrow> cptr \<Rightarrow> 'f ventry option option" where
  "kvs_vector_get_by_key inst question =
     (case question of None \<Rightarrow> Some None
      | Some q \<Rightarrow>
         (case rbtree_search (v_tree inst) q of None \<Rightarrow> None
          | Some node \<Rightarrow>
             if node = rb_nil (v_tree inst) then Some None
             else Some (v_items inst (nat (rb_value (v_tree inst) node)))))"

definition exact_search_all ::
    "'f fops \<Rightarrow> 'f kvs_vector \<Rightarrow> 'f list \<Rightarrow> int \<Rightarrow> 'f \<Rightarrow> nat \<Rightarrow> 'f \<Rightarrow> 'f candidate list \<Rightarrow>
     'f candidate list" where
  "exact_search_all F inst query dim qn topk threshold tops =
     foldl (\<lambda>t i. let score = id_score F inst (int i) query dim qn in
              if f_le F threshold score then candidate_add_sorted F t topk (int i) score else t)
       tops [0..<v_next inst]"

record 'f vresult =
  vr_question :: string
  vr_answer :: string
  vr_score :: 'f

text \<open>The candidates that reach the threshold, best first.\<close>

definition collect_top ::
    "'f fops \<Rightarrow> 'f kvs_vector \<Rightarrow> 'f list \<Rightarrow> int \<Rightarrow> 'f \<Rightarrow> nat \<Rightarrow> 'f \<Rightarrow> 'f candidate list \<Rightarrow>
     'f candidate list" where
  "collect_top F inst query dim qn topk threshold cands =
     foldl (\<lambda>t c. let score = id_score F inst (fst c) query dim qn in
              if f_le F threshold score then candidate_add_sorted F t topk (fst c) score else t)
       [] cands"

definition search_candidates ::
    "'f fops \<Rightarrow> mallocs \<Rightarrow> 'f kvs_vector \<Rightarrow> 'f list \<Rightarrow> int \<Rightarrow> 'f \<Rightarrow> 'f candidate list option" where
  "search_candidates F mok inst query dim qn =
     (if v_entry inst \<ge> 0 \<and> v_next inst > 0 then
        Option.bind (greedy_down F inst (v_maxlevel inst) 0 query dim qn (v_entry inst))
          (\<lambda>ep. map_option snd
             (hnsw_search_layer F (\<lambda>i. mok (3 + i)) inst query dim qn ep KVS_HNSW_EF_SEARCH 0))
      else Some [])"

definition kvs_vector_search ::
    "'f fops \<Rightarrow> mallocs \<Rightarrow> 'f kvs_vector \<Rightarrow> int \<Rightarrow> cptr \<Rightarrow> int \<Rightarrow> 'f \<Rightarrow>
     (int \<times> 'f vresult list) option" where
  "kvs_vector_search F mok inst dim vector_str topk threshold =
     (if dim \<le> 0 \<or> vector_str = None \<or> topk \<le> 0 then Some (-1, [])
      else let k = min topk 128 in
        (case parse_vector F mok vector_str dim of None \<Rightarrow> Some (-2, [])
         | Some query \<Rightarrow>
            let qn = vector_norm F query dim in
            if f_le F qn (f_zero F) then Some (-2, [])
            else if \<not> mok 2 then Some (-2, [])
            else Option.bind (search_candidates F mok inst query dim qn) (\<lambda>cands.
              let tops = collect_top F inst query dim qn (nat k) threshold cands in
              if tops = [] then Some (0, [])
              else if \<not> mok 5 then Some (-2, [])
              else Some (int (length tops),
                map (\<lambda>(i, sc). let e = the (v_items inst (nat i)) in
                       \<lparr>vr_question = ve_question e, vr_answer = ve_answer e, vr_score = sc\<rparr>) tops))))"

definition kvs_vector_get_by_vector ::
    "'f fops \<Rightarrow> mallocs \<Rightarrow> 'f kvs_vector \<Rightarrow> int \<Rightarrow> cptr \<Rightarrow> 'f \<Rightarrow> (int \<times> 'f vresult option) option" where
  "kvs_vector_get_by_vector F mok inst dim vector_str threshold =
     map_option (\<lambda>(r, results).
        if r < 0 then (r, None)
        else (case results of [] \<Rightarrow> (0, None) | res # _ \<Rightarrow> (1, Some res)))
       (kvs_vector_search F mok inst dim vector_str 1 threshold)"

end
