(* ===== verification/KVS_Resp.thy ===== *)
theory KVS_Resp
  imports KVS_Prelude
begin

text \<open>
  The RESP request parser (\<open>resp_parse_one_command\<close> and \<open>resp_parse_arguments\<close> of
  \<open>kvstore.c\<close>), on a buffer given as the list of its bytes. Lengths are accumulated in
  an \<open>int\<close> and wrap. A position that leaves the buffer on the left is a read outside of
  it. The request encoding and the decimal printer, which the replies use as well, are the
  reference the parser is compared with.
\<close>

subsection \<open>Decimal numbers\<close>

abbreviation CR :: char where "CR \<equiv> CHR 0x0D"
abbreviation LF :: char where "LF \<equiv> CHR 0x0A"
abbreviation CRLF :: string where "CRLF \<equiv> [CR, LF]"

definition is_digit :: "char \<Rightarrow> bool" where
  "is_digit c \<longleftrightarrow> CHR ''0'' \<le> c \<and> c \<le> CHR ''9''"

definition digit_val :: "char \<Rightarrow> int" where
  "digit_val c = of_char c - of_char (CHR ''0'')"

definition digit_char :: "nat \<Rightarrow> char" where
  "digit_char d = char_of (48 + d)"

text \<open>What \<open>printf\<close> writes for \<open>%zu\<close> and, with a sign, for \<open>%d\<close> and \<open>%lld\<close>.\<close>

fun dec :: "nat \<Rightarrow> string" where
  "dec n = (if n < 10 then [digit_char n] else dec (n div 10) @ [digit_char (n mod 10)])"

declare dec.simps [simp del]

definition dec_int :: "int \<Rightarrow> string" where
  "dec_int i = (if i < 0 then CHR ''-'' # dec (nat (-i)) else dec (nat i))"

subsection \<open>The parser\<close>

text \<open>\<open>while (p < buf + len && *p >= '0' && *p <= '9')\<close> with its accumulator.\<close>

function resp_num :: "string \<Rightarrow> nat \<Rightarrow> int \<Rightarrow> int \<times> nat" where
  "resp_num buf p num =
     (if p < length buf \<and> is_digit (buf ! p)
      then resp_num buf (p + 1) (int_wrap (num * 10 + digit_val (buf ! p))) else (num, p))"
  by auto

termination resp_num
  by (relation "measure (\<lambda>(buf, p, num). length buf - p)") auto

declare resp_num.simps [simp del]

text \<open>The result: \<open>-1\<close>, \<open>0\<close>, \<open>1\<close> with the length of the command, or a read outside the buffer.\<close>

datatype resp_result = RespBad | RespMore | RespOne nat | RespOob

definition at :: "string \<Rightarrow> nat \<Rightarrow> char \<Rightarrow> bool" where
  "at buf p c \<longleftrightarrow> p < length buf \<and> buf ! p = c"

primrec resp_bulks :: "string \<Rightarrow> nat \<Rightarrow> nat \<Rightarrow> resp_result" where
  "resp_bulks buf p 0 = RespOne p"
| "resp_bulks buf p (Suc n) =
     (if \<not> at buf p (CHR ''$'') then RespBad
      else let (bulk_len, p1) = resp_num buf (p + 1) 0 in
        if \<not> at buf p1 CR then RespMore
        else if \<not> at buf (p1 + 1) LF then RespMore
        else let q = int (p1 + 2) + bulk_len in
          if q > int (length buf) then RespMore
          else if q < 0 then RespOob
          else if nat q + 1 \<ge> length buf \<or> buf ! nat q \<noteq> CR then RespMore
          else if \<not> at buf (nat q + 1) LF then RespMore
          else resp_bulks buf (nat q + 2) n)"

definition resp_parse_one_command :: "string \<Rightarrow> resp_result" where
  "resp_parse_one_command buf =
     (if \<not> at buf 0 (CHR ''*'') then RespBad
      else let (num, p) = resp_num buf 1 0 in
        if \<not> at buf p CR then RespMore
        else if \<not> at buf (p + 1) LF then RespMore
        else resp_bulks buf (p + 2) (nat num))"

text \<open>
  \<open>resp_parse_arguments\<close>. The copy of an argument with \<open>bulk_len = -1\<close> allocates nothing
  and then copies \<open>SIZE_MAX\<close> bytes; with a smaller length the allocation itself is of more
  than half the address space and fails.
\<close>

datatype args_result = ArgsErr | ArgsOk "string list" | ArgsOob

primrec args_bulks ::
    "mallocs \<Rightarrow> string \<Rightarrow> nat \<Rightarrow> nat \<Rightarrow> nat \<Rightarrow> string list \<Rightarrow> args_result" where
  "args_bulks mok buf p i 0 argv = ArgsOk argv"
| "args_bulks mok buf p i (Suc n) argv =
     (if \<not> at buf p (CHR ''$'') then ArgsErr
      else let (bulk_len, p1) = resp_num buf (p + 1) 0 in
        if \<not> at buf p1 CR then ArgsErr
        else if \<not> at buf (p1 + 1) LF then ArgsErr
        else let q = int (p1 + 2) + bulk_len in
          if q > int (length buf) then ArgsErr
          else if bulk_len < -1 \<or> \<not> mok (i + 1) then ArgsErr
          else if bulk_len = -1 then ArgsOob
          else if \<not> at buf (nat q) CR then ArgsErr
          else if \<not> at buf (nat q + 1) LF then ArgsErr
          else args_bulks mok buf (nat q + 2) (i + 1) n
                 (argv @ [take (nat bulk_len) (drop (p1 + 2) buf)]))"

definition resp_parse_arguments :: "mallocs \<Rightarrow> string \<Rightarrow> args_result" where
  "resp_parse_arguments mok buf =
     (if \<not> at buf 0 (CHR ''*'') then ArgsErr
      else let (num, p) = resp_num buf 1 0 in
        if \<not> at buf p CR then ArgsErr
        else if \<not> at buf (p + 1) LF then ArgsErr
        else if num \<le> 0 then ArgsErr
        else if \<not> mok 0 then ArgsErr
        else args_bulks mok buf (p + 2) 0 (nat num) [])"

subsection \<open>The encoding of a request\<close>

definition resp_bulk :: "string \<Rightarrow> string" where
  "resp_bulk a = CHR ''$'' # dec (length a) @ CRLF @ a @ CRLF"

definition resp_encode :: "string list \<Rightarrow> string" where
  "resp_encode args = CHR ''*'' # dec (length args) @ CRLF @ concat (map resp_bulk args)"

subsection \<open>Decimal numbers are read back\<close>

lemma digit_char_props:
  assumes "d < 10"
  shows "is_digit (digit_char d)" "digit_val (digit_char d) = int d"
proof -
  have "of_char (digit_char d) = (48 + d :: nat)"
    using assms by (simp add: digit_char_def)
  moreover have "(of_char (digit_char d) :: int) = int (of_char (digit_char d))"
    by (simp add: of_nat_of_char)
  ultimately show "is_digit (digit_char d)" "digit_val (digit_char d) = int d"
    using assms by (simp_all add: is_digit_def digit_val_def less_eq_char_def)
qed

lemma dec_digits: "\<forall>c \<in> set (dec n). is_digit c"
proof (induction n rule: less_induct)
  case (less n)
  have "\<not> n < 10 \<Longrightarrow> \<forall>c \<in> set (dec (n div 10)). is_digit c" by (rule less) simp
  then show ?case using digit_char_props(1) by (subst dec.simps) auto
qed

lemma dec_nonempty: "dec n \<noteq> []"
  by (subst dec.simps) simp

lemma nth_middle: "i < length ds \<Longrightarrow> (pre @ ds @ rest) ! (length pre + i) = ds ! i"
  by (simp add: nth_append)

lemma resp_num_digits:
  assumes "\<forall>c \<in> set ds. is_digit c"
  shows "resp_num (pre @ ds @ rest) (length pre) num =
    resp_num (pre @ ds @ rest) (length pre + length ds)
      (foldl (\<lambda>a c. int_wrap (a * 10 + digit_val c)) num ds)"
  using assms
proof (induction ds arbitrary: pre num)
  case (Cons d ds)
  let ?buf = "pre @ (d # ds) @ rest"
  have "resp_num ?buf (length pre) num =
      resp_num ?buf (length pre + 1) (int_wrap (num * 10 + digit_val d))"
    using Cons.prems by (subst resp_num.simps) (simp add: nth_append)
  also have "\<dots> = resp_num ?buf (length pre + 1 + length ds)
      (foldl (\<lambda>a c. int_wrap (a * 10 + digit_val c)) (int_wrap (num * 10 + digit_val d)) ds)"
    using Cons.IH [of "pre @ [d]"] Cons.prems by simp
  finally show ?case by simp
qed simp

lemma foldl_dec:
  assumes "n < 2 ^ 31"
  shows "foldl (\<lambda>a c. int_wrap (a * 10 + digit_val c)) 0 (dec n) = int n"
  using assms
proof (induction n rule: less_induct)
  case (less n)
  show ?case
  proof (cases "n < 10")
    case True
    then show ?thesis
      by (subst dec.simps) (simp add: digit_char_props in_int_def)
  next
    case False
    have "foldl (\<lambda>a c. int_wrap (a * 10 + digit_val c)) 0 (dec (n div 10)) = int (n div 10)"
      using less False by simp
    moreover have "int (n div 10) * 10 + int (n mod 10) = int n"
      by (metis div_mult_mod_eq of_nat_add of_nat_mult of_nat_numeral)
    ultimately show ?thesis
      using False less.prems by (subst dec.simps) (simp add: digit_char_props in_int_def)
  qed
qed

lemma not_digit: "\<not> is_digit CR" "\<not> is_digit LF" "\<not> is_digit (CHR ''$'')" "\<not> is_digit (CHR ''*'')"
  by (simp_all add: is_digit_def less_eq_char_def)

lemma resp_num_dec:
  assumes "n < 2 ^ 31" "rest = [] \<or> \<not> is_digit (hd rest)"
  shows "resp_num (pre @ dec n @ rest) (length pre) 0 = (int n, length pre + length (dec n))"
proof -
  have "resp_num (pre @ dec n @ rest) (length pre + length (dec n)) (int n) =
      (int n, length pre + length (dec n))"
    using assms(2) by (subst resp_num.simps) (cases rest, auto simp: nth_append)
  then show ?thesis
    using resp_num_digits [OF dec_digits, of pre n rest 0] foldl_dec [OF assms(1)] by simp
qed

subsection \<open>The parser accepts exactly the encoding\<close>

lemma at_middle: "at (pre @ c # rest) (length pre) c"
  by (simp add: at_def)

text \<open>One bulk string at position \<open>p\<close>: what both loops need to see.\<close>

definition bulk_at :: "string \<Rightarrow> nat \<Rightarrow> nat \<Rightarrow> nat \<Rightarrow> nat \<Rightarrow> bool" where
  "bulk_at buf p p1 b q \<longleftrightarrow> at buf p (CHR ''$'') \<and> resp_num buf (p + 1) 0 = (int b, p1) \<and>
     at buf p1 CR \<and> at buf (p1 + 1) LF \<and> q = p1 + 2 + b \<and> at buf q CR \<and> at buf (q + 1) LF"

lemma resp_bulks_at: "bulk_at buf p p1 b q \<Longrightarrow> resp_bulks buf p (Suc n) = resp_bulks buf (q + 2) n"
proof -
  assume B: "bulk_at buf p p1 b q"
  then have q: "int (p1 + 2) + int b = int q" by (simp add: bulk_at_def)
  have f: "at buf p (CHR ''$'')" "resp_num buf (p + 1) 0 = (int b, p1)" "at buf p1 CR"
    "at buf (p1 + 1) LF" "at buf (q + 1) LF" "q + 1 < length buf" "buf ! q = CR"
    using B unfolding bulk_at_def at_def by blast+
  show ?thesis unfolding resp_bulks.simps f(2) prod.case Let_def q nat_int using f by simp
qed

lemma args_bulks_at:
  "bulk_at buf p p1 b q \<Longrightarrow> mok (i + 1) \<Longrightarrow>
   args_bulks mok buf p i (Suc n) argv =
   args_bulks mok buf (q + 2) (i + 1) n (argv @ [take b (drop (p1 + 2) buf)])"
proof -
  assume B: "bulk_at buf p p1 b q" and m: "mok (i + 1)"
  then have q: "int (p1 + 2) + int b = int q" by (simp add: bulk_at_def)
  have f: "at buf p (CHR ''$'')" "resp_num buf (p + 1) 0 = (int b, p1)" "at buf p1 CR"
    "at buf (p1 + 1) LF" "at buf q CR" "at buf (q + 1) LF" "q < length buf"
    using B unfolding bulk_at_def at_def by blast+
  show ?thesis unfolding args_bulks.simps f(2) prod.case Let_def q nat_int using f m by simp
qed

lemma bulk_at_encode:
  assumes "length a < 2 ^ 31"
  obtains p1 q where "bulk_at (pre @ resp_bulk a @ rest) (length pre) p1 (length a) q"
    "q + 2 = length pre + length (resp_bulk a)"
    "take (length a) (drop (p1 + 2) (pre @ resp_bulk a @ rest)) = a"
proof -
  let ?d = "dec (length a)"
  let ?buf = "pre @ resp_bulk a @ rest"
  have buf1: "?buf = (pre @ [CHR ''$'']) @ ?d @ CRLF @ a @ CRLF @ rest" by (simp add: resp_bulk_def)
  have buf2: "?buf = (pre @ CHR ''$'' # ?d @ CRLF @ a) @ CRLF @ rest" by (simp add: resp_bulk_def)
  have buf3: "?buf = (pre @ CHR ''$'' # ?d @ CRLF) @ a @ CRLF @ rest" by (simp add: resp_bulk_def)
  let ?p = "length pre + 1 + length ?d"
  have num: "resp_num ?buf (length pre + 1) 0 = (int (length a), ?p)"
    using resp_num_dec [OF assms, of "CRLF @ a @ CRLF @ rest" "pre @ [CHR ''$'']"] not_digit
    unfolding buf1 by simp
  have at0: "at ?buf (length pre) (CHR ''$'')" by (simp add: resp_bulk_def at_def)
  have at1: "at ?buf ?p CR" "at ?buf (?p + 1) LF" unfolding buf1 by (simp_all add: at_def nth_append)
  have at2: "at ?buf (?p + 2 + length a) CR" "at ?buf (?p + 2 + length a + 1) LF"
    unfolding buf2 by (simp_all add: at_def nth_append)
  have "?p + 2 = length (pre @ CHR ''$'' # ?d @ CRLF)" by simp
  then have "drop (?p + 2) ?buf = a @ CRLF @ rest" using buf3 by (metis append_eq_conv_conj)
  then have arg: "take (length a) (drop (?p + 2) ?buf) = a" by simp
  show ?thesis
    by (rule that [of ?p "?p + 2 + length a"])
      (use num at0 at1 at2 arg in \<open>simp_all add: bulk_at_def resp_bulk_def\<close>)
qed

lemma resp_bulks_step:
  assumes "length a < 2 ^ 31"
  shows "resp_bulks (pre @ resp_bulk a @ rest) (length pre) (Suc n) =
    resp_bulks (pre @ resp_bulk a @ rest) (length pre + length (resp_bulk a)) n"
  by (rule bulk_at_encode [OF assms, of pre rest]) (metis resp_bulks_at)

lemma args_bulks_step:
  assumes "length a < 2 ^ 31" "mok (i + 1)"
  shows "args_bulks mok (pre @ resp_bulk a @ rest) (length pre) i (Suc n) argv =
    args_bulks mok (pre @ resp_bulk a @ rest) (length pre + length (resp_bulk a)) (i + 1) n (argv @ [a])"
  by (rule bulk_at_encode [OF assms(1), of pre rest]) (metis args_bulks_at assms(2))

lemma resp_bulks_encode:
  assumes "\<forall>a \<in> set as. length a < 2 ^ 31"
  shows "resp_bulks (pre @ concat (map resp_bulk as) @ rest) (length pre) (length as + n) =
    resp_bulks (pre @ concat (map resp_bulk as) @ rest)
      (length pre + length (concat (map resp_bulk as))) n"
  using assms
proof (induction as arbitrary: pre)
  case (Cons a as)
  have "resp_bulks (pre @ concat (map resp_bulk (a # as)) @ rest) (length pre) (length (a # as) + n) =
      resp_bulks (pre @ resp_bulk a @ concat (map resp_bulk as) @ rest)
        (length pre + length (resp_bulk a)) (length as + n)"
    using resp_bulks_step [of a pre "concat (map resp_bulk as) @ rest" "length as + n"] Cons.prems
    by (simp del: resp_bulks.simps)
  also have "\<dots> = resp_bulks (pre @ concat (map resp_bulk (a # as)) @ rest)
      (length pre + length (concat (map resp_bulk (a # as)))) n"
    using Cons.IH [of "pre @ resp_bulk a"] Cons.prems by (simp add: add.assoc)
  finally show ?case .
qed simp

lemma resp_header:
  assumes "m < 2 ^ 31" "rest' = CRLF @ rest"
  shows "resp_num (CHR ''*'' # dec m @ rest') 1 0 = (int m, 1 + length (dec m))"
    "at (CHR ''*'' # dec m @ rest') 0 (CHR ''*'')"
    "at (CHR ''*'' # dec m @ rest') (1 + length (dec m)) CR"
    "at (CHR ''*'' # dec m @ rest') (1 + length (dec m) + 1) LF"
proof -
  show "resp_num (CHR ''*'' # dec m @ rest') 1 0 = (int m, 1 + length (dec m))"
    using resp_num_dec [OF assms(1), of rest' "[CHR ''*'']"] not_digit assms(2) by simp
qed (simp_all add: at_def nth_append assms(2))

lemma resp_parse_header:
  assumes "m < 2 ^ 31"
  shows "resp_parse_one_command (CHR ''*'' # dec m @ CRLF @ body) =
    resp_bulks (CHR ''*'' # dec m @ CRLF @ body) (1 + length (dec m) + 2) m"
  using resp_header [OF assms refl, of body]
  by (simp add: resp_parse_one_command_def Let_def)

lemma parse_encode_gen:
  assumes "length as + n < 2 ^ 31" "\<forall>a \<in> set as. length a < 2 ^ 31"
    and "buf = CHR ''*'' # dec (length as + n) @ CRLF @ concat (map resp_bulk as) @ rest"
  shows "resp_parse_one_command buf = resp_bulks buf (length buf - length rest) n"
proof -
  let ?pre = "CHR ''*'' # dec (length as + n) @ CRLF"
  have buf: "buf = ?pre @ concat (map resp_bulk as) @ rest" by (simp add: assms(3))
  have "resp_parse_one_command buf = resp_bulks buf (length ?pre) (length as + n)"
    using resp_parse_header [OF assms(1), of "concat (map resp_bulk as) @ rest"] by (simp add: assms(3))
  also have "\<dots> = resp_bulks buf (length ?pre + length (concat (map resp_bulk as))) n"
    unfolding buf by (rule resp_bulks_encode [OF assms(2)])
  also have "length ?pre + length (concat (map resp_bulk as)) = length buf - length rest"
    by (simp add: buf)
  finally show ?thesis .
qed

lemma args_bulks_encode:
  assumes "\<forall>a \<in> set as. length a < 2 ^ 31" "\<forall>j \<le> i + length as. mok j"
  shows "args_bulks mok (pre @ concat (map resp_bulk as)) (length pre) i (length as) argv =
    ArgsOk (argv @ as)"
  using assms
proof (induction as arbitrary: pre i argv)
  case (Cons a as)
  have "args_bulks mok (pre @ concat (map resp_bulk (a # as))) (length pre) i (length (a # as)) argv =
      args_bulks mok ((pre @ resp_bulk a) @ concat (map resp_bulk as)) (length (pre @ resp_bulk a))
        (i + 1) (length as) (argv @ [a])"
    using args_bulks_step [of a mok i pre "concat (map resp_bulk as)" "length as" argv] Cons.prems
    by (simp del: args_bulks.simps)
  also have "\<dots> = ArgsOk ((argv @ [a]) @ as)" by (rule Cons.IH) (use Cons.prems in auto)
  finally show ?case by simp
qed simp

subsection \<open>More input never changes a recognised command\<close>

lemma resp_num_ge: "resp_num buf p a = (v, p1) \<Longrightarrow> p \<le> p1"
proof (induction buf p a rule: resp_num.induct)
  case (1 buf p a)
  then show ?case by (subst (asm) (2) resp_num.simps) (auto split: if_splits)
qed

lemma resp_num_extend:
  "resp_num buf p a = (v, p1) \<Longrightarrow> p1 < length buf \<Longrightarrow> resp_num (buf @ ext) p a = (v, p1)"
proof (induction buf p a rule: resp_num.induct)
  case (1 buf p a)
  show ?case
  proof (cases "p < length buf \<and> is_digit (buf ! p)")
    case True
    let ?a = "int_wrap (a * 10 + digit_val (buf ! p))"
    have "resp_num buf (p + 1) ?a = (v, p1)" using 1(2) True by (subst (asm) resp_num.simps) simp
    with 1(1) [OF True] 1(3) have "resp_num (buf @ ext) (p + 1) ?a = (v, p1)" by blast
    with True show ?thesis by (subst resp_num.simps) (simp add: nth_append)
  next
    case False
    with 1(2) have "p1 = p" "v = a" by (simp_all add: resp_num.simps)
    with False 1(3) show ?thesis by (subst resp_num.simps) (simp add: nth_append)
  qed
qed

lemma at_extend: "at buf p c \<Longrightarrow> at (buf @ ext) p c"
  by (auto simp: at_def nth_append)

lemma resp_bulks_extend:
  "resp_bulks buf p n = RespOne m \<Longrightarrow> p \<le> length buf \<Longrightarrow>
   m \<le> length buf \<and> resp_bulks (buf @ ext) p n = RespOne m"
proof (induction n arbitrary: p)
  case (Suc n)
  obtain b p1 where num: "resp_num buf (p + 1) 0 = (b, p1)" by (cases "resp_num buf (p + 1) 0")
  define q where "q = int (p1 + 2) + b"
  have f: "at buf p (CHR ''$'')" "at buf p1 CR" "at buf (p1 + 1) LF" "q \<le> int (length buf)" "0 \<le> q"
    "nat q + 1 < length buf" "buf ! nat q = CR" "at buf (nat q + 1) LF"
    "resp_bulks buf (nat q + 2) n = RespOne m"
    using Suc.prems(1) num unfolding resp_bulks.simps q_def
    by (auto simp: Let_def not_less split: if_splits)
  from Suc.IH [OF f(9)] f(6) have IH: "m \<le> length buf" "resp_bulks (buf @ ext) (nat q + 2) n = RespOne m"
    by simp_all
  have num': "resp_num (buf @ ext) (p + 1) 0 = (b, p1)"
    using resp_num_extend [OF num] f(2) by (simp add: at_def)
  have g: "at (buf @ ext) p (CHR ''$'')" "at (buf @ ext) p1 CR" "at (buf @ ext) (p1 + 1) LF"
    "at (buf @ ext) (nat q + 1) LF" "\<not> int (length (buf @ ext)) < q" "\<not> q < 0"
    "\<not> length (buf @ ext) \<le> nat q + 1" "(buf @ ext) ! nat q = CR"
    using f at_extend by (auto simp: nth_append)
  have "resp_bulks (buf @ ext) p (Suc n) = resp_bulks (buf @ ext) (nat q + 2) n"
    unfolding resp_bulks.simps num' prod.case Let_def q_def [symmetric] using g by simp
  with IH show ?case by simp
qed simp

lemma resp_parse_extend:
  assumes "resp_parse_one_command buf = RespOne m"
  shows "m \<le> length buf \<and> resp_parse_one_command (buf @ ext) = RespOne m"
proof -
  obtain v p where num: "resp_num buf 1 0 = (v, p)" by (cases "resp_num buf 1 0")
  have f: "at buf 0 (CHR ''*'')" "at buf p CR" "at buf (p + 1) LF" "resp_bulks buf (p + 2) (nat v) = RespOne m"
    using assms num by (auto simp: resp_parse_one_command_def split: if_splits)
  from f(3) have "p + 2 \<le> length buf" by (simp add: at_def)
  from resp_bulks_extend [OF f(4) this] have IH: "m \<le> length buf"
    "resp_bulks (buf @ ext) (p + 2) (nat v) = RespOne m" by simp_all
  have "resp_num (buf @ ext) 1 0 = (v, p)" using resp_num_extend [OF num] f(2) by (simp add: at_def)
  with f at_extend IH show ?thesis by (simp add: resp_parse_one_command_def)
qed

subsection \<open>Parts of a request\<close>

lemma stream_split_cases:
  assumes "x @ ext = a @ b"
  obtains (left) y where "a = x @ y" "ext = y @ b" | (right) y where "x = a @ y" "y \<noteq> []" "b = y @ ext"
proof -
  from assms obtain y where "x = a @ y \<and> b = y @ ext \<or> a = x @ y \<and> ext = y @ b"
    by (auto simp: append_eq_append_conv2)
  then show thesis using left [of y] left [of "[]"] right [of y] by (cases "y = []") auto
qed

lemma num_prefix:
  assumes "x @ ext = dec n @ CRLF" "ext \<noteq> []" "n < 2 ^ 31" "resp_num (pre @ x) (length pre) 0 = (v, p)"
  shows "at (pre @ x) p CR \<Longrightarrow> \<not> at (pre @ x) (p + 1) LF"
proof -
  from assms(1) show "at (pre @ x) p CR \<Longrightarrow> \<not> at (pre @ x) (p + 1) LF"
  proof (cases rule: stream_split_cases)
    case (left y)
    then have "\<forall>c \<in> set x. is_digit c" using dec_digits [of n] by auto
    from resp_num_digits [OF this, of pre "[]" 0] have "p = length (pre @ x)"
      using assms(4) by (subst (asm) (2) resp_num.simps) simp
    then show "at (pre @ x) p CR \<Longrightarrow> \<not> at (pre @ x) (p + 1) LF" by (simp add: at_def)
  next
    case (right y)
    then have "y = [CR]" using assms(2) by (cases y; cases "tl y") auto
    then have "p = length pre + length (dec n)" using resp_num_dec [OF assms(3), of "[CR]" pre] right(1) assms(4) not_digit by simp
    then show "at (pre @ x) p CR \<Longrightarrow> \<not> at (pre @ x) (p + 1) LF" using right(1) \<open>y = [CR]\<close> by (simp add: at_def)
  qed
qed

lemma bulk_prefix:
  assumes x: "x @ ext = resp_bulk a" "x \<noteq> []" "ext \<noteq> []" and a: "length a < 2 ^ 31"
  shows "resp_bulks (pre @ x) (length pre) (Suc n) = RespMore"
proof -
  obtain y where y: "x = CHR ''$'' # y" "y @ ext = (dec (length a) @ CRLF) @ (a @ CRLF)"
    using x(1,2) by (cases x) (simp_all add: resp_bulk_def)
  have d: "at (pre @ x) (length pre) (CHR ''$'')" using y(1) by (simp add: at_def)
  obtain v p where num: "resp_num (pre @ x) (length pre + 1) 0 = (v, p)" by fastforce
  have buf: "pre @ x = (pre @ [CHR ''$'']) @ y" "length pre + 1 = length (pre @ [CHR ''$''])" using y(1) by simp_all
  from y(2) show ?thesis
  proof (cases rule: stream_split_cases)
    case (left z)
    show ?thesis
    proof (cases "z = []")
      case True
      then have "y = dec (length a) @ CRLF" using left(1) by simp
      then have v: "v = int (length a)" "p = length (pre @ x) - 2"
        using resp_num_dec [OF a, of CRLF "pre @ [CHR ''$'']"] num not_digit unfolding buf by auto
      then show ?thesis using d num y(1) left(1) True unfolding resp_bulks.simps by (auto simp: Let_def)
    next
      case False
      have "\<not> (at (pre @ x) p CR \<and> at (pre @ x) (p + 1) LF)"
        using num_prefix [OF left(1) [symmetric] False a] num unfolding buf by blast
      then show ?thesis using d num unfolding resp_bulks.simps by (auto simp: Let_def)
    qed
  next
    case (right z)
    let ?pre = "pre @ [CHR ''$'']"
    have v: "v = int (length a)" "p = length ?pre + length (dec (length a))"
      using resp_num_dec [OF a, of "CRLF @ z" ?pre] num right(1) not_digit unfolding buf by auto
    have "length (pre @ x) = p + 2 + length z" using v(2) right(1) y(1) by simp
    moreover have "length z < length a + 2" using arg_cong [OF right(3), of length] x(3) by simp
    ultimately show ?thesis using d num v(1) unfolding resp_bulks.simps by (auto simp: Let_def)
  qed
qed

lemma bulks_prefix:
  assumes "x @ ext = concat (map resp_bulk as)" "ext \<noteq> []" "\<forall>a \<in> set as. length a < 2 ^ 31"
  shows "resp_bulks (pre @ x) (length pre) (length as) =
    (if \<exists>k < length as. x = concat (map resp_bulk (take k as)) then RespBad else RespMore)"
  using assms
proof (induction as arbitrary: pre x)
  case (Cons a as)
  have ne: "resp_bulk a \<noteq> []" by (simp add: resp_bulk_def)
  have ex: "(\<exists>k < length (a # as). x = concat (map resp_bulk (take k (a # as)))) \<longleftrightarrow>
      x = [] \<or> (\<exists>k < length as. x = resp_bulk a @ concat (map resp_bulk (take k as)))"
    by (auto simp: less_Suc_eq_0_disj)
  have "x @ ext = resp_bulk a @ concat (map resp_bulk as)" using Cons.prems(1) by simp
  then show ?case
  proof (cases rule: stream_split_cases)
    case (left y)
    show ?thesis
    proof (cases "y = []")
      case True
      then have e: "x = resp_bulk a" "ext = concat (map resp_bulk as)" using left by simp_all
      then have "as \<noteq> []" using Cons.prems(2) by auto
      then have "0 < length as" by simp
      moreover have "resp_bulks (pre @ x) (length pre) (length (a # as)) = resp_bulks ((pre @ x) @ []) (length (pre @ x)) (length as)"
        using resp_bulks_step [of a pre "[]" "length as"] Cons.prems(3) e(1) by (simp del: resp_bulks.simps)
      ultimately show ?thesis
        using Cons.IH [of "[]" "pre @ x"] e(2) Cons.prems(2,3) unfolding ex by (metis append_Nil concat.simps(1) e(1) append_Nil2 list.simps(8) list.set_intros(2) take0)
    next
      case False
      then have "\<not> (\<exists>k < length as. x = resp_bulk a @ concat (map resp_bulk (take k as)))" using left(1) by auto
      then show ?thesis
        using bulk_prefix [of x y a pre "length as"] left(1) False Cons.prems(3) unfolding ex by (cases "x = []") (simp_all add: at_def)
    qed
  next
    case (right y)
    have "resp_bulks (pre @ x) (length pre) (length (a # as)) = resp_bulks ((pre @ resp_bulk a) @ y) (length (pre @ resp_bulk a)) (length as)"
      using resp_bulks_step [of a pre y "length as"] Cons.prems(3) right(1) by (simp del: resp_bulks.simps)
    then show ?thesis using Cons.IH [of y "pre @ resp_bulk a"] right Cons.prems(2,3) ne unfolding ex by simp
  qed
qed simp

text \<open>A part of a request that ends exactly behind its header or one of its arguments.\<close>

definition between_arguments :: "string list \<Rightarrow> string \<Rightarrow> bool" where
  "between_arguments args x \<longleftrightarrow> (\<exists>k < length args. x = CHR ''*'' # dec (length args) @ CRLF @ concat (map resp_bulk (take k args)))"

lemma parse_prefix:
  assumes "length args < 2 ^ 31" "\<forall>a \<in> set args. length a < 2 ^ 31" "x @ ext = resp_encode args" "x \<noteq> []" "ext \<noteq> []"
  shows "resp_parse_one_command x = (if between_arguments args x then RespBad else RespMore)"
proof -
  let ?n = "dec (length args)"
  obtain y where y: "x = CHR ''*'' # y" "y @ ext = (?n @ CRLF) @ concat (map resp_bulk args)"
    using assms(3,4) by (cases x) (simp_all add: resp_encode_def)
  from y(2) show ?thesis
  proof (cases rule: stream_split_cases)
    case (left z)
    show ?thesis
    proof (cases "z = []")
      case True
      then have x: "x = (CHR ''*'' # ?n @ CRLF) @ []" "ext = concat (map resp_bulk args)" using y(1) left by simp_all
      have "resp_parse_one_command x = resp_bulks x (length x) (length args)"
        using resp_parse_header [OF assms(1), of "[]"] x(1) by simp
      then show ?thesis using bulks_prefix [of "[]" ext args x] x assms(2,5) by (auto simp: between_arguments_def)
    next
      case False
      obtain v p where num: "resp_num x 1 0 = (v, p)" by fastforce
      have "\<not> (at x p CR \<and> at x (p + 1) LF)"
        using num_prefix [OF left(1) [symmetric] False assms(1), of "[CHR ''*'']" v p] num y(1) by auto
      moreover have "\<not> between_arguments args x" using left(1) False y(1) by (auto simp: between_arguments_def)
      moreover have "at x 0 (CHR ''*'')" using y(1) by (simp add: at_def)
      ultimately show ?thesis using num by (auto simp: resp_parse_one_command_def)
    qed
  next
    case (right z)
    let ?pre = "CHR ''*'' # ?n @ CRLF"
    have x: "x = ?pre @ z" using y(1) right(1) by simp
    have "resp_parse_one_command x = resp_bulks (?pre @ z) (length ?pre) (length args)"
      using resp_parse_header [OF assms(1), of z] x by simp
    then show ?thesis using bulks_prefix [OF right(3) [symmetric] assms(5,2), of ?pre] x by (auto simp: between_arguments_def)
  qed
qed

subsection \<open>Requests\<close>

lemma resp_parse_encode:
  assumes "length as < 2 ^ 31" "\<forall>a \<in> set as. length a < 2 ^ 31"
  shows "resp_parse_one_command (resp_encode as @ rest) = RespOne (length (resp_encode as))"
  using parse_encode_gen [of as 0 "resp_encode as @ rest" rest] assms by (simp add: resp_encode_def)

lemma args_encode:
  assumes "args \<noteq> []" "length args < 2 ^ 31" "\<forall>a \<in> set args. length a < 2 ^ 31"
  shows "resp_parse_arguments all_ok (resp_encode args) = ArgsOk args"
proof -
  let ?pre = "CHR ''*'' # dec (length args) @ CRLF"
  have "args_bulks all_ok (?pre @ concat (map resp_bulk args)) (length ?pre) 0 (length args) [] =
      ArgsOk ([] @ args)"
    by (rule args_bulks_encode) (use assms in auto)
  with resp_header [OF assms(2) refl, of "concat (map resp_bulk args)"] assms(1)
  show ?thesis by (simp add: resp_parse_arguments_def resp_encode_def)
qed

subsection \<open>Properties\<close>

text \<open>C7: a request in RESP encoding, followed by whatever else is in the buffer, is recognised as
  one command of exactly its length, and splitting it gives back its arguments.\<close>

theorem resp_roundtrip:
  assumes "args \<noteq> []" "length args < 2 ^ 31" "\<forall>a \<in> set args. length a < 2 ^ 31"
  shows "resp_parse_one_command (resp_encode args @ rest) = RespOne (length (resp_encode args)) \<and>
    resp_parse_arguments all_ok (resp_encode args) = ArgsOk args"
  using resp_parse_encode [OF assms(2,3)] args_encode [OF assms] by blast

theorem resp_roundtrip_witness:
  "resp_parse_one_command (resp_encode [''SET'', ''k'', ''v''] @ ''*1'') =
     RespOne (length (resp_encode [''SET'', ''k'', ''v''])) \<and>
   resp_parse_arguments all_ok (resp_encode [''SET'', ''k'', ''v'']) = ArgsOk [''SET'', ''k'', ''v'']"
  by (rule resp_roundtrip) simp_all

text \<open>C32: once the parser has recognised a command in a buffer, further bytes received behind it do
  not change the answer, and the command lies inside the buffer.\<close>

theorem resp_framing_stable:
  assumes "resp_parse_one_command buf = RespOne m"
  shows "m \<le> length buf \<and> resp_parse_one_command (buf @ ext) = RespOne m"
  by (rule resp_parse_extend [OF assms])

theorem resp_framing_stable_witness:
  "resp_parse_one_command (resp_encode [''PING''] @ ''*'') = RespOne (length (resp_encode [''PING'']))"
  using resp_framing_stable [of "resp_encode [''PING'']" "length (resp_encode [''PING''])" "''*''"]
    resp_parse_encode [of "[''PING'']" "[]"] by simp




end
