(* ===== verification/KVS_Aof.thy ===== *)
theory KVS_Aof
  imports KVS_Prelude
begin

text \<open>
  The append-only file (\<open>kvs_persistence.c\<close>): commands go through a ring that the server
  thread fills and one worker thread empties. The worker either writes each command and
  syncs it (\<open>always\<close>), or packs commands into batches that are written asynchronously at
  offsets handed out in order. Indices count all commands ever appended; they are natural
  numbers because 2^64 appends are out of reach.

  Contents of the file are modelled position by position; the completions of \<open>io_uring\<close>
  arrive in any order and in any pieces, so the worker and the kernel are a step relation.
\<close>

subsection \<open>The ring\<close>

record aof_ring =
  slots :: "nat \<Rightarrow> string option"
  lens :: "nat \<Rightarrow> nat"
  capacity :: nat
  write_idx :: nat
  read_idx :: nat
  rstop :: bool
  sync_mode :: int
  io_error :: bool

definition AOF_RING_CAPACITY :: nat where
  "AOF_RING_CAPACITY = 1024 * 1024 * 16"

definition AOF_BATCH_BUF :: nat where
  "AOF_BATCH_BUF = 1048576"

definition AOF_IO_DEPTH :: nat where
  "AOF_IO_DEPTH = 64"

definition zero_ring :: aof_ring where
  "zero_ring = \<lparr>slots = (\<lambda>_. None), lens = (\<lambda>_. 0), capacity = 0, write_idx = 0, read_idx = 0,
     rstop = False, sync_mode = 0, io_error = False\<rparr>"

text \<open>The ring part of \<open>kvs_persistence_init\<close>, with the two allocations.\<close>

definition aof_ring_init :: "mallocs \<Rightarrow> int \<Rightarrow> aof_ring \<Rightarrow> int \<times> aof_ring" where
  "aof_ring_init mok mode ring =
     (let r = ring\<lparr>capacity := AOF_RING_CAPACITY\<rparr> in
      if \<not> mok 0 \<or> \<not> mok 1 then (-1, r\<lparr>slots := (\<lambda>_. None)\<rparr>)
      else (0, r\<lparr>slots := (\<lambda>_. None), lens := (\<lambda>_. 0), write_idx := 0, read_idx := 0,
                 io_error := False, rstop := False, sync_mode := mode\<rparr>))"

text \<open>
  \<open>kvs_persistence_append\<close>: the return code and the ring. \<open>None\<close> is the spinning of the
  caller on a ring that stays full while no error is reported.
\<close>

definition kvs_persistence_append ::
    "bool \<Rightarrow> bool \<Rightarrow> bool \<Rightarrow> aof_ring \<Rightarrow> cptr \<Rightarrow> int \<Rightarrow> (int \<times> aof_ring) option" where
  "kvs_persistence_append loading appendonly mok ring cmd len =
     (if loading \<or> \<not> appendonly then Some (0, ring)
      else (case cmd of None \<Rightarrow> Some (-1, ring)
        | Some c \<Rightarrow>
           if len \<le> 0 then Some (-1, ring)
           else if io_error ring then Some (-1, ring)
           else if \<not> mok then Some (-1, ring)
           else if write_idx ring - read_idx ring \<ge> capacity ring then None
           else let idx = write_idx ring mod capacity ring in
             Some (0, ring\<lparr>slots := (slots ring)(idx \<mapsto> take (nat len) c),
                           lens := (lens ring)(idx := nat len),
                           write_idx := write_idx ring + 1\<rparr>)))"

subsection \<open>The worker\<close>

text \<open>
  One iteration of the \<open>always\<close> worker. \<open>fault = Some n\<close>: writing, flushing or syncing
  failed after \<open>n\<close> bytes had reached the file.
\<close>

definition always_step :: "nat option \<Rightarrow> aof_ring \<Rightarrow> string \<Rightarrow> aof_ring \<times> string" where
  "always_step fault ring file =
     (if write_idx ring = read_idx ring then (ring, file)
      else
        let idx = read_idx ring mod capacity ring in
        (case slots ring idx of
           None \<Rightarrow> (ring\<lparr>read_idx := read_idx ring + 1\<rparr>, file)
         | Some data \<Rightarrow>
            (ring\<lparr>slots := (slots ring)(idx := None), lens := (lens ring)(idx := 0),
                  io_error := io_error ring \<or> fault \<noteq> None, read_idx := read_idx ring + 1\<rparr>,
             file @ take (case fault of None \<Rightarrow> lens ring idx | Some n \<Rightarrow> min n (lens ring idx)) data)))"

text \<open>
  The loop of \<open>aof_fill_batch\<close>: return code, batch, buffer size, read position, ring.
  \<open>rok\<close> is the success of \<open>realloc\<close>, \<open>w\<close> the write index loaded at its start.
\<close>

function fill_loop ::
    "bool \<Rightarrow> nat \<Rightarrow> aof_ring \<Rightarrow> nat \<Rightarrow> nat \<Rightarrow> string \<Rightarrow> int \<times> string \<times> nat \<times> nat \<times> aof_ring" where
  "fill_loop rok w ring cap local batch =
     (if local < w then
        let idx = local mod capacity ring in
        (case slots ring idx of
           None \<Rightarrow> fill_loop rok w ring cap (local + 1) batch
         | Some data \<Rightarrow>
            let len = lens ring idx in
            if len > cap \<and> batch = [] \<and> \<not> rok
            then (-1, batch, cap, local, ring\<lparr>io_error := True\<rparr>)
            else
              let cap' = (if len > cap \<and> batch = [] then len else cap) in
              if batch \<noteq> [] \<and> length batch + len > cap'
              then (1, batch, cap', local, ring)
              else fill_loop rok w
                     (ring\<lparr>slots := (slots ring)(idx := None), lens := (lens ring)(idx := 0)\<rparr>)
                     cap' (local + 1) (batch @ take len data))
      else (if batch = [] then 0 else 1, batch, cap, local, ring))"
  by auto

termination fill_loop
  by (relation "measure (\<lambda>(rok, w, ring, cap, local, batch). w - local)") auto

declare fill_loop.simps [simp del]

definition aof_fill_batch ::
    "bool \<Rightarrow> aof_ring \<Rightarrow> nat \<Rightarrow> nat \<Rightarrow> int \<times> string \<times> nat \<times> nat \<times> aof_ring" where
  "aof_fill_batch rok ring cap local = fill_loop rok (write_idx ring) ring cap local []"

text \<open>A write request in flight, and the completion of one of its pieces.\<close>

record aof_write_req =
  q_buf :: string
  q_cap :: nat
  q_written :: nat
  q_off :: nat
  q_in_use :: bool

definition aof_find_free_req :: "aof_write_req list \<Rightarrow> nat option" where
  "aof_find_free_req reqs = find (\<lambda>i. \<not> q_in_use (reqs ! i)) [0..<AOF_IO_DEPTH]"

text \<open>
  What \<open>aof_reap_completions\<close> does with one completion of \<open>res\<close> bytes: an error or an
  empty completion abandons the request and sets the error flag, a short one resubmits
  the rest (\<open>sqe\<close>: a submission entry was found), a full one frees the request.
\<close>

definition reap_one :: "bool \<Rightarrow> int \<Rightarrow> aof_write_req \<Rightarrow> bool \<times> aof_write_req" where
  "reap_one sqe res req =
     (if \<not> q_in_use req then (False, req)
      else if res < 0 then (True, req\<lparr>q_in_use := False\<rparr>)
      else if res = 0 \<and> q_written req < length (q_buf req) then (True, req\<lparr>q_in_use := False\<rparr>)
      else
        let req' = req\<lparr>q_written := q_written req + nat res\<rparr> in
        if q_written req' < length (q_buf req') then
          (if sqe then (False, req') else (True, req'\<lparr>q_in_use := False\<rparr>))
        else (False, req'\<lparr>q_in_use := False\<rparr>))"

record aof_state =
  a_ring :: aof_ring
  a_local :: nat
  a_reqs :: "aof_write_req list"
  a_offset :: nat
  a_file :: "nat \<Rightarrow> char option"

text \<open>The kernel writes the next \<open>n\<close> bytes of a request at their place in the file.\<close>

definition write_piece :: "aof_write_req \<Rightarrow> nat \<Rightarrow> (nat \<Rightarrow> char option) \<Rightarrow> nat \<Rightarrow> char option" where
  "write_piece req n file p =
     (let o0 = q_off req + q_written req in
      if o0 \<le> p \<and> p < o0 + n then Some (q_buf req ! (p - q_off req)) else file p)"

text \<open>
  The submission part of the worker loop for one batch: fill a free request, take a
  submission entry (\<open>sqe\<close>), assign the next file offset.
\<close>

definition submit_batch :: "bool \<Rightarrow> bool \<Rightarrow> aof_state \<Rightarrow> aof_state option" where
  "submit_batch rok sqe st =
     (case aof_find_free_req (a_reqs st) of None \<Rightarrow> None
      | Some i \<Rightarrow>
         (let req = a_reqs st ! i;
              (r, batch, cap, local, ring) = aof_fill_batch rok (a_ring st) (q_cap req) (a_local st);
              st1 = st\<lparr>a_ring := ring, a_local := local\<rparr>
          in if r < 0 then Some st1
             else if r = 0 then Some (st1\<lparr>a_reqs := (a_reqs st)[i := req\<lparr>q_buf := [], q_written := 0\<rparr>]\<rparr>)
             else if \<not> sqe then Some (st1\<lparr>a_reqs := (a_reqs st)[i := req\<lparr>q_buf := batch, q_cap := cap,
                                                             q_written := 0\<rparr>]\<rparr>)
             else Some (st1\<lparr>a_reqs := (a_reqs st)[i := \<lparr>q_buf = batch, q_cap = cap, q_written = 0,
                                q_off = a_offset st, q_in_use = True\<rparr>],
                            a_offset := a_offset st + length batch\<rparr>)))"

text \<open>
  One step of server thread, worker and kernel, without errors: a command is appended, a
  batch is submitted, the worker publishes its read position, or a piece of \<open>n\<close> bytes
  of a request completes.
\<close>

inductive aof_step :: "aof_state \<Rightarrow> string option \<Rightarrow> aof_state \<Rightarrow> bool" where
  append: "kvs_persistence_append False True True (a_ring st) (Some cmd) (int (length cmd)) =
      Some (0, ring) \<Longrightarrow> aof_step st (Some cmd) (st\<lparr>a_ring := ring\<rparr>)"
| submit: "a_local st < write_idx (a_ring st) \<Longrightarrow> submit_batch True True st = Some st' \<Longrightarrow>
    aof_step st None st'"
| publish: "aof_step st None (st\<lparr>a_ring := (a_ring st)\<lparr>read_idx := a_local st\<rparr>\<rparr>)"
| complete: "i < length (a_reqs st) \<Longrightarrow> q_in_use (a_reqs st ! i) \<Longrightarrow> 0 < n \<Longrightarrow>
    n \<le> length (q_buf (a_reqs st ! i)) - q_written (a_reqs st ! i) \<Longrightarrow>
    reap_one True (int n) (a_reqs st ! i) = (False, req') \<Longrightarrow>
    aof_step st None (st\<lparr>a_file := write_piece (a_reqs st ! i) n (a_file st),
                         a_reqs := (a_reqs st)[i := req']\<rparr>)"

inductive_cases aof_appendE: "aof_step st (Some cmd) st'"

inductive aof_run :: "aof_state \<Rightarrow> string list \<Rightarrow> aof_state \<Rightarrow> bool" where
  run_refl: "aof_run st [] st"
| run_append: "aof_run st cmds st1 \<Longrightarrow> aof_step st1 (Some cmd) st2 \<Longrightarrow> aof_run st (cmds @ [cmd]) st2"
| run_tau: "aof_run st cmds st1 \<Longrightarrow> aof_step st1 None st2 \<Longrightarrow> aof_run st cmds st2"

text \<open>The state after \<open>kvs_persistence_init\<close> on a file of \<open>off\<close> bytes.\<close>

definition aof_initial :: "nat \<Rightarrow> (nat \<Rightarrow> char option) \<Rightarrow> aof_state" where
  "aof_initial off file =
     \<lparr>a_ring = snd (aof_ring_init all_ok 0 zero_ring), a_local = 0,
      a_reqs = replicate AOF_IO_DEPTH \<lparr>q_buf = [], q_cap = AOF_BATCH_BUF, q_written = 0, q_off = 0,
                                       q_in_use = False\<rparr>,
      a_offset = off, a_file = file\<rparr>"

subsection \<open>The ring is a queue\<close>

text \<open>
  The contract between the server thread and the worker: what is pushed comes out in
  order, in batches that are concatenations of whole commands.
\<close>

locale batch_queue =
  fixes okq :: "'s \<Rightarrow> bool" and pend :: "'s \<Rightarrow> string list"
    and push :: "string \<Rightarrow> 's \<Rightarrow> 's option" and pull :: "'s \<Rightarrow> string \<times> 's"
  assumes push_law: "okq s \<Longrightarrow> c \<noteq> [] \<Longrightarrow> push c s = Some s' \<Longrightarrow> okq s' \<and> pend s' = pend s @ [c]"
    and pull_law: "okq s \<Longrightarrow> pull s = (b, s') \<Longrightarrow>
      okq s' \<and> (\<exists>ks. pend s = ks @ pend s' \<and> b = concat ks \<and> (pend s \<noteq> [] \<longrightarrow> ks \<noteq> []))"
begin

text \<open>An interleaving of pushes (\<open>Some c\<close>) and pulls (\<open>None\<close>), with the bytes pulled.\<close>

fun drive :: "string option list \<Rightarrow> 's \<Rightarrow> string \<Rightarrow> ('s \<times> string) option" where
  "drive [] s out = Some (s, out)"
| "drive (Some c # es) s out = (case push c s of None \<Rightarrow> None | Some s' \<Rightarrow> drive es s' out)"
| "drive (None # es) s out = (let (b, s') = pull s in drive es s' (out @ b))"

lemma drive_fifo:
  assumes "okq s" "drive es s out = Some (s', out')" "\<And>c. Some c \<in> set es \<Longrightarrow> c \<noteq> []"
  shows "okq s' \<and> out' @ concat (pend s') = out @ concat (pend s) @ concat (List.map_filter id es)"
  using assms
proof (induction es s out rule: drive.induct)
  case (2 c es s out)
  then obtain s1 where s1: "push c s = Some s1" by (auto split: option.splits)
  with 2 have "okq s1" "pend s1 = pend s @ [c]" using push_law [of s c s1] by auto
  with 2 s1 show ?case by (simp add: List.map_filter_def)
next
  case (3 es s out)
  obtain b s1 where b: "pull s = (b, s1)" by (cases "pull s")
  with 3 obtain ks where "okq s1" "pend s = ks @ pend s1" "b = concat ks"
    using pull_law [of s b s1] by auto
  with 3 b show ?case by (simp add: List.map_filter_def)
qed (simp add: List.map_filter_def)

lemma pull_decreases: "okq s \<Longrightarrow> pull s = (b, s') \<Longrightarrow> pend s \<noteq> [] \<Longrightarrow>
    length (pend s') < length (pend s)"
  using pull_law [of s b s'] by auto

end

text \<open>The positions from \<open>local\<close> up to the write index hold the commands not yet taken.\<close>

definition ring_ok :: "aof_ring \<Rightarrow> nat \<Rightarrow> bool" where
  "ring_ok ring local \<longleftrightarrow> 0 < capacity ring \<and> read_idx ring \<le> local \<and> local \<le> write_idx ring \<and>
     write_idx ring - read_idx ring \<le> capacity ring \<and>
     (\<forall>i \<in> {local..<write_idx ring}. \<exists>d. slots ring (i mod capacity ring) = Some d \<and>
        lens ring (i mod capacity ring) = length d \<and> d \<noteq> [])"

definition ring_pend :: "aof_ring \<Rightarrow> nat \<Rightarrow> string list" where
  "ring_pend ring local =
     map (\<lambda>i. the (slots ring (i mod capacity ring))) [local..<write_idx ring]"

lemma mod_neq: "i < j \<Longrightarrow> j - i < c \<Longrightarrow> i mod c \<noteq> j mod (c :: nat)"
  by (metis mod_eq_dvd_iff_nat nat_dvd_not_less nat_less_le
      zero_less_diff)

lemma slot_neq:
  "Suc p \<le> i \<Longrightarrow> i < w \<Longrightarrow> w - p \<le> c \<Longrightarrow> i mod c \<noteq> p mod (c :: nat)"
  using mod_neq [of p i c] by linarith

lemma ring_pend_Cons:
  "local < write_idx ring \<Longrightarrow>
   ring_pend ring local = the (slots ring (local mod capacity ring)) # ring_pend ring (Suc local)"
  by (simp add: ring_pend_def upt_conv_Cons)

lemma ring_pend_clear:
  assumes "local < write_idx ring" "write_idx ring - local \<le> capacity ring"
  shows "ring_pend (ring\<lparr>slots := (slots ring)(local mod capacity ring := None), lens := l\<rparr>) (Suc local)
    = ring_pend ring (Suc local)"
  using assms slot_neq [of local _ "write_idx ring"] by (simp add: ring_pend_def)

lemma ring_ok_room: "ring_ok ring local \<Longrightarrow> write_idx ring - local \<le> capacity ring"
  unfolding ring_ok_def by linarith

lemma ring_ok_clear:
  assumes ok: "ring_ok ring local" and lt: "local < write_idx ring"
  shows "ring_ok (ring\<lparr>slots := (slots ring)(local mod capacity ring := None),
     lens := (lens ring)(local mod capacity ring := 0)\<rparr>) (Suc local)"
proof -
  have "i mod capacity ring \<noteq> local mod capacity ring" if "i \<in> {Suc local..<write_idx ring}" for i
    using that slot_neq [OF _ _ ring_ok_room [OF ok]] by simp
  then show ?thesis using ok lt by (auto simp: ring_ok_def)
qed

lemma ring_ok_slot:
  assumes "ring_ok ring local" "local < write_idx ring"
  obtains d where "slots ring (local mod capacity ring) = Some d"
    "lens ring (local mod capacity ring) = length d" "d \<noteq> []"
  using assms unfolding ring_ok_def by (meson atLeastLessThan_iff order.refl)

definition same_counters :: "aof_ring \<Rightarrow> aof_ring \<Rightarrow> bool" where
  "same_counters r r' \<longleftrightarrow> write_idx r' = write_idx r \<and> read_idx r' = read_idx r \<and>
     capacity r' = capacity r \<and> io_error r' = io_error r"

text \<open>The three ways one turn of the loop goes when the allocator does not fail.\<close>

lemma fill_loop_end:
  "\<not> local < w \<Longrightarrow>
   fill_loop rok w ring cap local batch = (if batch = [] then 0 else 1, batch, cap, local, ring)"
  by (subst fill_loop.simps) simp

lemma fill_loop_full:
  assumes "local < w" "slots ring (local mod capacity ring) = Some d"
    "lens ring (local mod capacity ring) = length d" "batch \<noteq> []" "length batch + length d > cap"
  shows "fill_loop rok w ring cap local batch = (1, batch, cap, local, ring)"
  using assms by (subst fill_loop.simps) (simp add: Let_def)

lemma fill_loop_next:
  assumes "local < w" "slots ring (local mod capacity ring) = Some d"
    "lens ring (local mod capacity ring) = length d" "batch = [] \<or> length batch + length d \<le> cap"
  shows "fill_loop True w ring cap local batch = fill_loop True w
    (ring\<lparr>slots := (slots ring)(local mod capacity ring := None),
          lens := (lens ring)(local mod capacity ring := 0)\<rparr>)
    (if length d > cap \<and> batch = [] then length d else cap) (local + 1) (batch @ d)"
  using assms by (subst fill_loop.simps) (auto simp: Let_def)

lemma fill_loop_spec:
  assumes "ring_ok ring local" "w = write_idx ring"
    "fill_loop True w ring cap local batch = (r, b, cap', local', ring')"
  shows "ring_ok ring' local' \<and> same_counters ring ring' \<and> r = (if b = [] then 0 else 1) \<and>
    (\<exists>ks. ring_pend ring local = ks @ ring_pend ring' local' \<and> b = batch @ concat ks \<and>
       (batch = [] \<and> local < w \<longrightarrow> b \<noteq> []))"
  using assms
proof (induction "w - local" arbitrary: ring cap local batch)
  case 0
  then have "\<not> local < w" by simp
  from 0 fill_loop_end [OF this] show ?case by (auto simp: same_counters_def)
next
  case (Suc n)
  then have lt: "local < w" "local < write_idx ring" by simp_all
  obtain d where d: "slots ring (local mod capacity ring) = Some d"
    "lens ring (local mod capacity ring) = length d" "d \<noteq> []"
    by (rule ring_ok_slot [OF Suc.prems(1) lt(2)])
  let ?ring = "ring\<lparr>slots := (slots ring)(local mod capacity ring := None),
     lens := (lens ring)(local mod capacity ring := 0)\<rparr>"
  show ?case
  proof (cases "batch \<noteq> [] \<and> length batch + length d > cap")
    case True
    then show ?thesis
      using Suc.prems(1,3) fill_loop_full [OF lt(1) d(1,2)] by (auto simp: same_counters_def)
  next
    case False
    then have "batch = [] \<or> length batch + length d \<le> cap" by auto
    note next1 = fill_loop_next [OF lt(1) d(1,2) this]
    have "ring_pend ring local = d # ring_pend ?ring (local + 1)"
      using d(1) ring_pend_Cons [OF lt(2)] ring_pend_clear [OF lt(2) ring_ok_room [OF Suc.prems(1)]]
      by simp
    moreover have "n = w - (local + 1)" using Suc.hyps(2) by simp
    note Suc.hyps(1) [OF this _ _ Suc.prems(3) [unfolded next1]]
    moreover have "ring_ok ?ring (local + 1)" using ring_ok_clear [OF Suc.prems(1) lt(2)] by simp
    ultimately show ?thesis using d(3) Suc.prems(2) by (auto simp: same_counters_def)
  qed
qed

lemma fill_batch_progress:
  assumes ok: "ring_ok ring local" and lt: "local < write_idx ring"
    and f: "aof_fill_batch True ring cap local = (r, b, cap', local', ring')"
  obtains ks where "ring_ok ring' local'" "same_counters ring ring'" "r = 1" "b \<noteq> []" "ks \<noteq> []"
    "ring_pend ring local = ks @ ring_pend ring' local'" "b = concat ks"
proof -
  from fill_loop_spec [OF ok refl f [unfolded aof_fill_batch_def]] lt obtain ks where
    ks: "ring_pend ring local = ks @ ring_pend ring' local'" "b = concat ks" "b \<noteq> []" "r = 1"
    "ring_ok ring' local'" "same_counters ring ring'" by auto
  then have "ks \<noteq> []" by auto
  with ks show ?thesis using that by blast
qed

lemma append_cases:
  assumes "kvs_persistence_append False True True ring (Some c) (int (length c)) = Some (0, ring')"
  shows "c \<noteq> []" "write_idx ring - read_idx ring < capacity ring"
    "ring' = ring\<lparr>slots := (slots ring)(write_idx ring mod capacity ring \<mapsto> c),
       lens := (lens ring)(write_idx ring mod capacity ring := length c),
       write_idx := write_idx ring + 1\<rparr>"
  using assms by (auto simp: kvs_persistence_append_def Let_def split: if_splits)

lemma append_pend:
  assumes ok: "ring_ok ring local" and lt: "write_idx ring - read_idx ring < capacity ring"
    and ring': "ring' = ring\<lparr>slots := (slots ring)(write_idx ring mod capacity ring \<mapsto> c),
       lens := (lens ring)(write_idx ring mod capacity ring := length c),
       write_idx := write_idx ring + 1\<rparr>" and c: "c \<noteq> []"
  shows "ring_ok ring' local" "ring_pend ring' local = ring_pend ring local @ [c]"
proof -
  have neq: "i mod capacity ring \<noteq> write_idx ring mod capacity ring"
    if "local \<le> i" "i < write_idx ring" for i
  proof -
    have "write_idx ring - i < capacity ring" using that ok lt unfolding ring_ok_def by linarith
    then show ?thesis using that mod_neq [of i "write_idx ring"] by blast
  qed
  then show "ring_pend ring' local = ring_pend ring local @ [c]"
    using ok by (auto simp: ring_pend_def ring' ring_ok_def)
  have "read_idx ring \<le> local" "local \<le> write_idx ring" "0 < capacity ring"
    using ok by (auto simp: ring_ok_def)
  moreover have "\<exists>d. slots ring' (i mod capacity ring) = Some d \<and>
      lens ring' (i mod capacity ring) = length d \<and> d \<noteq> []"
    if "local \<le> i" "i < write_idx ring + 1" for i
  proof (cases "i = write_idx ring")
    case False
    then have "i < write_idx ring" using that by simp
    then show ?thesis using that neq [of i] ok by (auto simp: ring' ring_ok_def)
  qed (simp add: ring' c)
  ultimately show "ring_ok ring' local" using lt by (auto simp: ring_ok_def ring')
qed

text \<open>Both workers are clients of the same queue: the batching one and the \<open>always\<close> one.\<close>

definition ring_push :: "string \<Rightarrow> aof_ring \<Rightarrow> aof_ring option" where
  "ring_push c ring = (case kvs_persistence_append False True True ring (Some c) (int (length c)) of
     Some (r, ring') \<Rightarrow> if r = 0 then Some ring' else None | None \<Rightarrow> None)"

definition fill_pull :: "aof_ring \<times> nat \<Rightarrow> string \<times> aof_ring \<times> nat" where
  "fill_pull s = (let (r, b, cap, local, ring) = aof_fill_batch True (fst s) AOF_BATCH_BUF (snd s)
     in (b, ring, local))"

definition always_pull :: "aof_ring \<Rightarrow> string \<times> aof_ring" where
  "always_pull ring = (let (ring', out) = always_step None ring [] in (out, ring'))"

lemma ring_push_Some:
  "ring_push c ring = Some ring' \<longleftrightarrow>
   kvs_persistence_append False True True ring (Some c) (int (length c)) = Some (0, ring')"
  by (auto simp: ring_push_def kvs_persistence_append_def Let_def)

lemma always_step_file: "always_step f ring file = (ring', file') \<Longrightarrow>
    always_step f ring [] = (ring', drop (length file) file') \<and> take (length file) file' = file"
  by (auto simp: always_step_def Let_def split: if_splits option.splits)

lemma always_step_pend:
  assumes ok: "ring_ok ring (read_idx ring)" and st: "always_step None ring [] = (ring', out)"
  shows "ring_ok ring' (read_idx ring') \<and> (\<exists>ks. ring_pend ring (read_idx ring) =
     ks @ ring_pend ring' (read_idx ring') \<and> out = concat ks \<and>
     (ring_pend ring (read_idx ring) \<noteq> [] \<longrightarrow> ks \<noteq> []))"
proof (cases "read_idx ring < write_idx ring")
  case False
  then have "write_idx ring = read_idx ring" using ok by (simp add: ring_ok_def)
  then show ?thesis using ok st by (auto simp: always_step_def ring_pend_def)
next
  case True
  let ?i = "read_idx ring mod capacity ring"
  obtain d where d: "slots ring ?i = Some d" "lens ring ?i = length d" "d \<noteq> []"
    by (rule ring_ok_slot [OF ok True])
  let ?ring = "ring\<lparr>slots := (slots ring)(?i := None), lens := (lens ring)(?i := 0)\<rparr>"
  have r: "ring' = ?ring\<lparr>read_idx := read_idx ring + 1\<rparr>" "out = d"
    using st True d by (auto simp: always_step_def Let_def)
  have "ring_ok ?ring (Suc (read_idx ring))" by (rule ring_ok_clear [OF ok True])
  then have "ring_ok ring' (read_idx ring')" by (auto simp: r ring_ok_def)
  moreover have "ring_pend ring' (read_idx ring') = ring_pend ?ring (Suc (read_idx ring))"
    by (simp add: r ring_pend_def)
  ultimately show ?thesis
    using d r ring_pend_Cons [OF True] ring_pend_clear [OF True ring_ok_room [OF ok]]
    by (intro conjI exI [of _ "[d]"]) auto
qed

interpretation wal: batch_queue "\<lambda>ring. ring_ok ring (read_idx ring)"
  "\<lambda>ring. ring_pend ring (read_idx ring)" ring_push always_pull
proof
  fix s c s'
  assume "ring_ok s (read_idx s)" "ring_push c s = Some s'"
  then show "ring_ok s' (read_idx s') \<and> ring_pend s' (read_idx s') = ring_pend s (read_idx s) @ [c]"
    using append_cases [of s c s'] append_pend [of s "read_idx s" s' c] by (simp add: ring_push_Some)
next
  fix s b s'
  assume "ring_ok s (read_idx s)" "always_pull s = (b, s')"
  then show "ring_ok s' (read_idx s') \<and> (\<exists>ks. ring_pend s (read_idx s) =
     ks @ ring_pend s' (read_idx s') \<and> b = concat ks \<and> (ring_pend s (read_idx s) \<noteq> [] \<longrightarrow> ks \<noteq> []))"
    by (intro always_step_pend) (auto simp: always_pull_def split: prod.splits)
qed

interpretation wbf: batch_queue "\<lambda>s. ring_ok (fst s) (snd s)" "\<lambda>s. ring_pend (fst s) (snd s)"
  "\<lambda>c s. map_option (\<lambda>ring. (ring, snd s)) (ring_push c (fst s))" fill_pull
proof
  fix s :: "aof_ring \<times> nat" and c s'
  assume "ring_ok (fst s) (snd s)" "map_option (\<lambda>ring. (ring, snd s)) (ring_push c (fst s)) = Some s'"
  then show "ring_ok (fst s') (snd s') \<and> ring_pend (fst s') (snd s') = ring_pend (fst s) (snd s) @ [c]"
    using append_cases [of "fst s" c "fst s'"] append_pend [of "fst s" "snd s" "fst s'" c]
    by (auto simp: ring_push_Some)
next
  fix s b s'
  assume ok: "ring_ok (fst s) (snd s)" and p: "fill_pull s = (b, s')"
  obtain r cap where f: "aof_fill_batch True (fst s) AOF_BATCH_BUF (snd s) = (r, b, cap, snd s', fst s')"
    using p by (auto simp: fill_pull_def split: prod.splits)
  have "ring_pend (fst s) (snd s) \<noteq> [] \<longleftrightarrow> snd s < write_idx (fst s)" by (auto simp: ring_pend_def)
  then show "ring_ok (fst s') (snd s') \<and> (\<exists>ks. ring_pend (fst s) (snd s) =
     ks @ ring_pend (fst s') (snd s') \<and> b = concat ks \<and> (ring_pend (fst s) (snd s) \<noteq> [] \<longrightarrow> ks \<noteq> []))"
    using fill_loop_spec [OF ok refl f [unfolded aof_fill_batch_def]] by auto
qed

subsection \<open>The file under asynchronous writes\<close>

text \<open>A request in flight carries the bytes that belong at its offset.\<close>

definition req_ok :: "nat \<Rightarrow> string \<Rightarrow> aof_write_req \<Rightarrow> bool" where
  "req_ok off0 bs r \<longleftrightarrow> q_written r < length (q_buf r) \<and> off0 \<le> q_off r \<and> q_off r - off0 + length (q_buf r) \<le> length bs \<and>
     (\<forall>j < length (q_buf r). q_buf r ! j = bs ! (q_off r - off0 + j))"

text \<open>The positions a request has still to write.\<close>

definition covers :: "nat \<Rightarrow> aof_write_req \<Rightarrow> bool" where
  "covers p r \<longleftrightarrow> q_in_use r \<and> q_off r + q_written r \<le> p \<and> p < q_off r + length (q_buf r)"

definition outstanding :: "aof_write_req list \<Rightarrow> nat \<Rightarrow> bool" where
  "outstanding reqs p \<longleftrightarrow> list_ex (covers p) reqs"

definition file_ok ::
    "nat \<Rightarrow> (nat \<Rightarrow> char option) \<Rightarrow> string \<Rightarrow> aof_write_req list \<Rightarrow> (nat \<Rightarrow> char option) \<Rightarrow> bool" where
  "file_ok off0 file0 bs reqs file \<longleftrightarrow> (\<forall>p.
     if off0 \<le> p \<and> p < off0 + length bs
     then file p = Some (bs ! (p - off0)) \<or> outstanding reqs p \<and> file p = file0 p
     else file p = file0 p)"

definition aof_inv :: "nat \<Rightarrow> (nat \<Rightarrow> char option) \<Rightarrow> string list \<Rightarrow> aof_state \<Rightarrow> bool" where
  "aof_inv off0 file0 cmds st \<longleftrightarrow> ring_ok (a_ring st) (a_local st) \<and>
     (\<exists>taken. cmds = taken @ ring_pend (a_ring st) (a_local st) \<and>
        a_offset st = off0 + length (concat taken) \<and>
        (\<forall>r \<in> set (a_reqs st). q_in_use r \<longrightarrow> req_ok off0 (concat taken) r) \<and>
        file_ok off0 file0 (concat taken) (a_reqs st) (a_file st))"

lemma req_ok_append: "req_ok off0 bs r \<Longrightarrow> req_ok off0 (bs @ b) r"
  by (auto simp: req_ok_def nth_append)

lemma outstanding_nth: "outstanding reqs p \<longleftrightarrow> (\<exists>j < length reqs. covers p (reqs ! j))"
  by (simp add: outstanding_def list_ex_length)

lemma outstanding_update:
  assumes "i < length reqs"
  shows "outstanding (reqs[i := r]) p \<longleftrightarrow>
    covers p r \<or> (\<exists>j < length reqs. j \<noteq> i \<and> covers p (reqs ! j))"
  using assms unfolding outstanding_nth length_list_update by (metis nth_list_update)

lemma file_ok_submit:
  assumes "file_ok off0 file0 bs reqs file" "i < length reqs" "\<not> q_in_use (reqs ! i)"
    "r = \<lparr>q_buf = b, q_cap = cap, q_written = 0, q_off = off0 + length bs, q_in_use = True\<rparr>"
  shows "file_ok off0 file0 (bs @ b) (reqs[i := r]) file"
proof -
  have "\<not> covers p (reqs ! i)" for p using assms(3) by (simp add: covers_def)
  then have keep: "outstanding (reqs[i := r]) p" if "outstanding reqs p" for p
    using that unfolding outstanding_update [OF assms(2)] outstanding_nth [of reqs] by metis
  have new: "outstanding (reqs[i := r]) p" if "off0 + length bs \<le> p" "p < off0 + length bs + length b" for p
    using that assms(2,4) by (simp add: outstanding_update covers_def)
  show ?thesis unfolding file_ok_def
  proof
    fix p
    show "if off0 \<le> p \<and> p < off0 + length (bs @ b)
      then file p = Some ((bs @ b) ! (p - off0)) \<or> outstanding (reqs[i := r]) p \<and> file p = file0 p
      else file p = file0 p"
    proof (cases "p < off0 + length bs")
      case True
      then have "p - off0 < length bs \<or> p < off0" by linarith
      with True assms(1) keep show ?thesis
        unfolding file_ok_def by (auto simp: nth_append dest: spec [of _ p])
    next
      case False
      with assms(1) have "file p = file0 p" unfolding file_ok_def by (auto dest: spec [of _ p])
      with False new [of p] show ?thesis by auto
    qed
  qed
qed

lemma file_ok_complete:
  assumes ok: "file_ok off0 file0 bs reqs file" and i: "i < length reqs" and r: "req_ok off0 bs (reqs ! i)"
    and n: "n \<le> length (q_buf (reqs ! i)) - q_written (reqs ! i)"
    and r': "q_off r' = q_off (reqs ! i)" "q_buf r' = q_buf (reqs ! i)"
      "q_written r' = q_written (reqs ! i) + n"
      "q_in_use r' \<longleftrightarrow> q_written (reqs ! i) + n < length (q_buf (reqs ! i))"
  shows "file_ok off0 file0 bs (reqs[i := r']) (write_piece (reqs ! i) n file)"
  unfolding file_ok_def
proof
  fix p
  let ?r = "reqs ! i"
  let ?in = "q_off ?r + q_written ?r \<le> p \<and> p < q_off ?r + q_written ?r + n"
  show "if off0 \<le> p \<and> p < off0 + length bs
      then write_piece ?r n file p = Some (bs ! (p - off0)) \<or>
        outstanding (reqs[i := r']) p \<and> write_piece ?r n file p = file0 p
      else write_piece ?r n file p = file0 p"
  proof (cases ?in)
    case True
    then have "p - q_off ?r < length (q_buf ?r)" "off0 \<le> p" "p < off0 + length bs"
      using r n unfolding req_ok_def by linarith+
    moreover have "q_off ?r - off0 + (p - q_off ?r) = p - off0"
      using r True unfolding req_ok_def by linarith
    ultimately have "q_buf ?r ! (p - q_off ?r) = bs ! (p - off0)" using r by (auto simp: req_ok_def)
    with True show ?thesis using \<open>off0 \<le> p\<close> \<open>p < off0 + length bs\<close> by (simp add: write_piece_def Let_def)
  next
    case False
    then have w: "write_piece ?r n file p = file p" by (auto simp: write_piece_def Let_def)
    have "covers p ?r \<Longrightarrow> covers p r'" using r' False by (auto simp: covers_def)
    then have "outstanding (reqs[i := r']) p" if "outstanding reqs p"
      using that i unfolding outstanding_update [OF i] outstanding_nth [of reqs] by metis
    then show ?thesis using ok unfolding w file_ok_def by (auto dest: spec [of _ p])
  qed
qed

lemma aof_find_free_reqD:
  "aof_find_free_req reqs = Some i \<Longrightarrow> i < AOF_IO_DEPTH \<and> \<not> q_in_use (reqs ! i)"
  by (auto simp: aof_find_free_req_def find_upt_Some_iff)

lemma aof_inv_append:
  assumes "aof_inv off0 file0 cmds st"
    "kvs_persistence_append False True True (a_ring st) (Some c) (int (length c)) = Some (0, ring)"
  shows "aof_inv off0 file0 (cmds @ [c]) (st\<lparr>a_ring := ring\<rparr>)"
  using assms append_cases [OF assms(2)] append_pend [of "a_ring st" "a_local st" ring c]
  by (auto simp: aof_inv_def)

lemma aof_inv_submit:
  assumes inv: "aof_inv off0 file0 cmds st" and len: "length (a_reqs st) = AOF_IO_DEPTH"
    and lt: "a_local st < write_idx (a_ring st)" and sub: "submit_batch True True st = Some st'"
  shows "aof_inv off0 file0 cmds st' \<and> length (a_reqs st') = AOF_IO_DEPTH"
proof -
  obtain i where i: "aof_find_free_req (a_reqs st) = Some i"
    using sub by (auto simp: submit_batch_def split: option.splits)
  note free = aof_find_free_reqD [OF i]
  obtain r b cap local ring where f:
    "aof_fill_batch True (a_ring st) (q_cap (a_reqs st ! i)) (a_local st) = (r, b, cap, local, ring)"
    using prod_cases5 by blast
  from inv obtain taken where ok: "ring_ok (a_ring st) (a_local st)"
    and cmds: "cmds = taken @ ring_pend (a_ring st) (a_local st)"
    and off: "a_offset st = off0 + length (concat taken)"
    and reqs: "\<forall>r \<in> set (a_reqs st). q_in_use r \<longrightarrow> req_ok off0 (concat taken) r"
    and fok: "file_ok off0 file0 (concat taken) (a_reqs st) (a_file st)"
    by (auto simp: aof_inv_def)
  obtain ks where ring: "ring_ok ring local" and r: "r = 1" "b \<noteq> []"
    and ks: "ring_pend (a_ring st) (a_local st) = ks @ ring_pend ring local" "b = concat ks"
    by (rule fill_batch_progress [OF ok lt f])
  let ?q = "\<lparr>q_buf = b, q_cap = cap, q_written = 0, q_off = a_offset st, q_in_use = True\<rparr>"
  have st': "st' = st\<lparr>a_ring := ring, a_local := local, a_reqs := (a_reqs st)[i := ?q],
      a_offset := a_offset st + length b\<rparr>"
    using sub i f r by (simp add: submit_batch_def)
  have "file_ok off0 file0 (concat taken @ b) ((a_reqs st)[i := ?q]) (a_file st)"
    using free len off by (intro file_ok_submit [OF fok]) auto
  moreover have "req_ok off0 (concat taken @ b) ?q" using off r(2) by (simp add: req_ok_def)
  then have "\<forall>r \<in> set ((a_reqs st)[i := ?q]). q_in_use r \<longrightarrow> req_ok off0 (concat taken @ b) r"
    using reqs req_ok_append set_update_subset_insert [of "a_reqs st" i ?q] by blast
  ultimately show ?thesis
    unfolding aof_inv_def st' using cmds ks off ring len
    by (auto intro!: exI [of _ "taken @ ks"])
qed

lemma reap_one_progress:
  assumes "reap_one True (int n) r = (False, r')" "q_in_use r" "0 < n"
    "n \<le> length (q_buf r) - q_written r"
  shows "q_off r' = q_off r" "q_buf r' = q_buf r" "q_written r' = q_written r + n"
    "q_in_use r' \<longleftrightarrow> q_written r + n < length (q_buf r)"
  using assms by (auto simp: reap_one_def Let_def split: if_splits)

lemma aof_inv_complete:
  assumes inv: "aof_inv off0 file0 cmds st" and i: "i < length (a_reqs st)" "q_in_use (a_reqs st ! i)"
    and n: "0 < n" "n \<le> length (q_buf (a_reqs st ! i)) - q_written (a_reqs st ! i)"
    and reap: "reap_one True (int n) (a_reqs st ! i) = (False, r')"
  shows "aof_inv off0 file0 cmds (st\<lparr>a_file := write_piece (a_reqs st ! i) n (a_file st),
     a_reqs := (a_reqs st)[i := r']\<rparr>)"
proof -
  from inv obtain taken where ok: "ring_ok (a_ring st) (a_local st)"
    and rest: "cmds = taken @ ring_pend (a_ring st) (a_local st)"
      "a_offset st = off0 + length (concat taken)"
    and reqs: "\<forall>r \<in> set (a_reqs st). q_in_use r \<longrightarrow> req_ok off0 (concat taken) r"
    and fok: "file_ok off0 file0 (concat taken) (a_reqs st) (a_file st)"
    by (auto simp: aof_inv_def)
  note r' = reap_one_progress [OF reap i(2) n]
  have req: "req_ok off0 (concat taken) (a_reqs st ! i)" using reqs i by auto
  then have "q_in_use r' \<Longrightarrow> req_ok off0 (concat taken) r'" unfolding req_ok_def r' by blast
  then have "\<forall>r \<in> set ((a_reqs st)[i := r']). q_in_use r \<longrightarrow> req_ok off0 (concat taken) r"
    using reqs set_update_subset_insert [of "a_reqs st" i r'] by blast
  then show ?thesis
    unfolding aof_inv_def using ok rest file_ok_complete [OF fok i(1) req n(2) r'] by auto
qed

lemma aof_inv_step:
  assumes "aof_step st c st'" "aof_inv off0 file0 cmds st" "length (a_reqs st) = AOF_IO_DEPTH"
  shows "aof_inv off0 file0 (cmds @ (case c of None \<Rightarrow> [] | Some x \<Rightarrow> [x])) st' \<and>
    length (a_reqs st') = AOF_IO_DEPTH"
  using assms
proof (induction rule: aof_step.induct)
  case (append st cmd ring)
  then show ?case using aof_inv_append [OF append(2,1)] by simp
next
  case (submit st st')
  then show ?case using aof_inv_submit [OF submit(3,4,1,2)] by simp
next
  case (publish st)
  then show ?case by (auto simp: aof_inv_def ring_ok_def ring_pend_def)
next
  case (complete i st n req')
  then show ?case using aof_inv_complete [OF complete(6,1-5)] by simp
qed

lemma aof_inv_initial: "aof_inv off file [] (aof_initial off file)"
  by (auto simp: aof_inv_def aof_initial_def aof_ring_init_def zero_ring_def ring_ok_def ring_pend_def
      file_ok_def AOF_RING_CAPACITY_def)

lemma aof_inv_run:
  "aof_run st cmds st' \<Longrightarrow> st = aof_initial off file \<Longrightarrow>
   aof_inv off file cmds st' \<and> length (a_reqs st') = AOF_IO_DEPTH"
proof (induction rule: aof_run.induct)
  case (run_refl st)
  then show ?case using aof_inv_initial by (simp add: aof_initial_def)
next
  case (run_append st cmds st1 cmd st2)
  then show ?case using aof_inv_step [of st1 "Some cmd" st2 off "file" cmds] by simp
next
  case (run_tau st cmds st1 st2)
  then show ?case using aof_inv_step [of st1 None st2 off "file" cmds] by simp
qed

subsection \<open>Draining\<close>

definition quiescent :: "aof_state \<Rightarrow> bool" where
  "quiescent st \<longleftrightarrow> a_local st = write_idx (a_ring st) \<and> list_all (\<lambda>r. \<not> q_in_use r) (a_reqs st)"

lemma aof_run_trans: "aof_run st1 ds st2 \<Longrightarrow> aof_run st0 cs st1 \<Longrightarrow> aof_run st0 (cs @ ds) st2"
  by (induction rule: aof_run.induct) (auto simp flip: append_assoc intro: aof_run.intros)

definition in_flight :: "aof_state \<Rightarrow> nat" where
  "in_flight st = length (filter q_in_use (a_reqs st))"

lemma in_flight_decreases:
  assumes "i < length reqs" "q_in_use (reqs ! i)" "\<not> q_in_use r"
  shows "length (filter q_in_use (reqs[i := r])) < length (filter q_in_use reqs)"
proof -
  have "reqs = take i reqs @ reqs ! i # drop (Suc i) reqs" using assms(1) by (rule id_take_nth_drop)
  then have "length (filter q_in_use reqs) =
      length (filter q_in_use (take i reqs @ reqs ! i # drop (Suc i) reqs))" by metis
  with assms show ?thesis by (simp add: upd_conv_take_nth_drop)
qed

lemma filter_update_same:
  assumes "i < length xs" "\<not> P (xs ! i)" "\<not> P x"
  shows "filter P (xs[i := x]) = filter P xs"
proof -
  have "filter P xs = filter P (take i xs @ xs ! i # drop (Suc i) xs)"
    using id_take_nth_drop [OF assms(1)] by simp
  with assms show ?thesis by (simp add: upd_conv_take_nth_drop)
qed

lemma complete_one:
  assumes inv: "aof_inv off0 file0 cmds st" and i: "i < length (a_reqs st)" "q_in_use (a_reqs st ! i)"
  obtains st' where "aof_step st None st'" "in_flight st' < in_flight st"
    "a_ring st' = a_ring st" "a_local st' = a_local st"
proof -
  let ?r = "a_reqs st ! i"
  let ?n = "length (q_buf ?r) - q_written ?r"
  have "q_written ?r < length (q_buf ?r)" using inv i by (auto simp: aof_inv_def req_ok_def)
  then have n: "0 < ?n" "q_written ?r + ?n = length (q_buf ?r)" by simp_all
  let ?r' = "?r\<lparr>q_written := length (q_buf ?r), q_in_use := False\<rparr>"
  have "reap_one True (int ?n) ?r = (False, ?r')" using n i by (simp add: reap_one_def Let_def)
  note step = aof_step.complete [OF i n(1) order.refl this]
  show ?thesis
    by (rule that [OF step]) (use i in_flight_decreases [of i "a_reqs st" ?r'] in \<open>simp_all add: in_flight_def\<close>)
qed

lemma submit_one:
  assumes inv: "aof_inv off0 file0 cmds st" and len: "length (a_reqs st) = AOF_IO_DEPTH"
    and idle: "list_all (\<lambda>r. \<not> q_in_use r) (a_reqs st)" and lt: "a_local st < write_idx (a_ring st)"
  obtains st' where "aof_step st None st'"
    "length (ring_pend (a_ring st') (a_local st')) < length (ring_pend (a_ring st) (a_local st))"
proof -
  have free: "aof_find_free_req (a_reqs st) = Some 0"
    using idle len by (simp add: aof_find_free_req_def find_upt_Some_iff list_all_length AOF_IO_DEPTH_def)
  obtain r b cap local ring where f:
    "aof_fill_batch True (a_ring st) (q_cap (a_reqs st ! 0)) (a_local st) = (r, b, cap, local, ring)"
    using prod_cases5 by blast
  have ok: "ring_ok (a_ring st) (a_local st)" using inv by (simp add: aof_inv_def)
  obtain ks where r: "r = 1" and ks: "ks \<noteq> []" "ring_pend (a_ring st) (a_local st) = ks @ ring_pend ring local"
    by (rule fill_batch_progress [OF ok lt f])
  obtain st' where st': "submit_batch True True st = Some st'" "a_ring st' = ring" "a_local st' = local"
    using free f r by (simp add: submit_batch_def)
  show ?thesis by (rule that [OF aof_step.submit [OF lt st'(1)]]) (simp add: st' ks)
qed

lemma drain:
  assumes "aof_inv off0 file0 cmds st" "length (a_reqs st) = AOF_IO_DEPTH"
  shows "\<exists>st'. aof_run st [] st' \<and> quiescent st'"
  using assms
proof (induction st rule: wf_induct_rule [OF wf_measures
      [of "[\<lambda>st. length (ring_pend (a_ring st) (a_local st)), in_flight]"]])
  case (1 st)
  have go: "\<exists>st'. aof_run st [] st' \<and> quiescent st'"
    if "aof_step st None st1" "(st1, st) \<in> measures [\<lambda>st. length (ring_pend (a_ring st) (a_local st)), in_flight]"
    for st1
  proof -
    have "aof_inv off0 file0 cmds st1" "length (a_reqs st1) = AOF_IO_DEPTH"
      using aof_inv_step [OF that(1) 1(2,3)] by simp_all
    from 1(1) [OF that(2) this] obtain st' where "aof_run st1 [] st'" "quiescent st'" by blast
    moreover have "aof_run st [] st1" by (rule run_tau [OF run_refl that(1)])
    ultimately show ?thesis using aof_run_trans [of st1 "[]" st' st "[]"] by auto
  qed
  show ?case
  proof (cases "list_all (\<lambda>r. \<not> q_in_use r) (a_reqs st)")
    case False
    then obtain i where "i < length (a_reqs st)" "q_in_use (a_reqs st ! i)"
      by (auto simp: list_all_length)
    from complete_one [OF 1(2) this] obtain st1 where "aof_step st None st1"
      "in_flight st1 < in_flight st" "a_ring st1 = a_ring st" "a_local st1 = a_local st" .
    then show ?thesis using go by simp
  next
    case True
    show ?thesis
    proof (cases "a_local st < write_idx (a_ring st)")
      case lt: True
      show ?thesis using submit_one [OF 1(2,3) True lt] go by (metis in_measures(2))
    next
      case False
      moreover have "a_local st \<le> write_idx (a_ring st)" using 1(2) by (simp add: aof_inv_def ring_ok_def)
      ultimately have "quiescent st" using True by (simp add: quiescent_def)
      then show ?thesis using run_refl by blast
    qed
  qed
qed

lemma quiescent_file:
  assumes "aof_inv off file cmds st" "quiescent st"
  shows "a_file st p = (if off \<le> p \<and> p < off + length (concat cmds)
    then Some (concat cmds ! (p - off)) else file p)"
proof -
  have "ring_pend (a_ring st) (a_local st) = []" using assms(2) by (simp add: ring_pend_def quiescent_def)
  with assms(1) have "file_ok off file (concat cmds) (a_reqs st) (a_file st)" by (auto simp: aof_inv_def)
  moreover have "\<not> outstanding (a_reqs st) p"
    using assms(2) by (auto simp: outstanding_def quiescent_def list_all_iff list_ex_iff covers_def)
  ultimately show ?thesis unfolding file_ok_def by (auto dest: spec [of _ p])
qed

subsection \<open>Properties\<close>

text \<open>C8: With the batching worker, whatever the interleaving of appends, submissions and
  completions in any order and in any pieces, once the ring is empty and no write is in
  flight the file holds, after its old contents, exactly the appended commands in order.
\<close>

theorem aof_file_exact:
  assumes "aof_run (aof_initial off file) cmds st" "quiescent st"
  shows "a_file st p = (if off \<le> p \<and> p < off + length (concat cmds)
    then Some (concat cmds ! (p - off)) else file p)"
  using aof_inv_run [OF assms(1) refl] quiescent_file assms(2) by blast

lemma one_append:
  "\<exists>st. aof_run (aof_initial 0 (\<lambda>_. None)) [''ab''] st \<and> a_local st < write_idx (a_ring st) \<and>
     aof_find_free_req (a_reqs st) = Some 0"
proof -
  let ?st = "aof_initial 0 (\<lambda>_. None)"
  have "\<exists>ring. kvs_persistence_append False True True (a_ring ?st) (Some ''ab'') (int (length ''ab'')) =
      Some (0, ring)"
    by (simp add: kvs_persistence_append_def aof_initial_def aof_ring_init_def zero_ring_def
        AOF_RING_CAPACITY_def Let_def)
  then obtain ring where a: "kvs_persistence_append False True True (a_ring ?st) (Some ''ab'')
      (int (length ''ab'')) = Some (0, ring)" ..
  have "aof_run ?st [''ab''] (?st\<lparr>a_ring := ring\<rparr>)"
    using run_append [OF run_refl aof_step.append [OF a]] by simp
  moreover have "a_local ?st < write_idx ring" using append_cases(3) [OF a] by (simp add: aof_initial_def)
  moreover have "aof_find_free_req (a_reqs ?st) = Some 0"
    by (simp add: aof_find_free_req_def find_upt_Some_iff AOF_IO_DEPTH_def aof_initial_def)
  ultimately show ?thesis by (intro exI [of _ "?st\<lparr>a_ring := ring\<rparr>"]) simp
qed

theorem aof_file_exact_witness:
  "\<exists>st. aof_run (aof_initial 0 (\<lambda>_. None)) [''ab''] st \<and> quiescent st \<and> a_file st 1 = Some CHR ''b''"
proof -
  obtain st where st: "aof_run (aof_initial 0 (\<lambda>_. None)) [''ab''] st" using one_append by blast
  from aof_inv_run [OF this refl] drain obtain st' where "aof_run st [] st'" and q: "quiescent st'"
    by blast
  then have r: "aof_run (aof_initial 0 (\<lambda>_. None)) [''ab''] st'"
    using aof_run_trans [OF _ st, of "[]" st'] by simp
  show ?thesis using r q aof_file_exact [OF r q, of 1] by auto
qed

text \<open>C23: The worker never gets stuck: from every reachable state some sequence of
  submissions and completions, without further appends, empties the ring and all requests.
\<close>

theorem aof_drains:
  assumes "aof_run (aof_initial off file) cmds st"
  shows "\<exists>st'. aof_run st [] st' \<and> quiescent st'"
  using aof_inv_run [OF assms refl] drain by blast

theorem aof_drains_witness:
  "\<exists>st. aof_run (aof_initial 0 (\<lambda>_. None)) [''ab''] st \<and> (\<exists>st'. aof_run st [] st' \<and> quiescent st')"
  using one_append aof_drains by blast

text \<open>C24: With the \<open>always\<close> worker, for every interleaving of appends and worker iterations, the
  bytes written followed by the commands still in the ring are the appended commands in order.
\<close>

theorem aof_always_fifo:
  assumes "aof_ring_init all_ok 2 zero_ring = (0, ring)" "wal.drive es ring [] = Some (ring', out)"
    "\<And>c. Some c \<in> set es \<Longrightarrow> c \<noteq> []"
  shows "out @ concat (ring_pend ring' (read_idx ring')) = concat (List.map_filter id es)"
proof -
  have "ring_ok ring (read_idx ring)" "ring_pend ring (read_idx ring) = []"
    using assms(1) by (auto simp: aof_ring_init_def zero_ring_def ring_ok_def ring_pend_def AOF_RING_CAPACITY_def)
  with wal.drive_fifo [OF this(1) assms(2,3)] show ?thesis by simp
qed

theorem aof_always_fifo_witness:
  "\<exists>ring ring'. aof_ring_init all_ok 2 zero_ring = (0, ring) \<and>
     wal.drive [Some ''a'', Some ''bc'', None] ring [] = Some (ring', ''a'') \<and>
     ''a'' @ concat (ring_pend ring' (read_idx ring')) = ''abc''"
proof -
  obtain ring where r: "aof_ring_init all_ok 2 zero_ring = (0, ring)"
    by (simp add: aof_ring_init_def)
  have "\<exists>ring'. wal.drive [Some ''a'', Some ''bc'', None] ring [] = Some (ring', ''a'')"
    using r by (auto simp: aof_ring_init_def zero_ring_def ring_push_def kvs_persistence_append_def
        always_pull_def always_step_def AOF_RING_CAPACITY_def Let_def)
  then obtain ring' where d: "wal.drive [Some ''a'', Some ''bc'', None] ring [] = Some (ring', ''a'')" ..
  show ?thesis using r d aof_always_fifo [OF r d] by (auto simp: List.map_filter_def)
qed

text \<open>C35: A batch for which the worker finds no submission entry is lost: its commands have left
  the ring, but no request carries them, the file and the offset stay as they were, and no
  error is recorded.
\<close>

theorem aof_batch_lost:
  assumes "ring_ok (a_ring st) (a_local st)" "a_local st < write_idx (a_ring st)"
    "length (a_reqs st) = AOF_IO_DEPTH" "submit_batch True False st = Some st'"
  shows "length (ring_pend (a_ring st') (a_local st')) < length (ring_pend (a_ring st) (a_local st)) \<and>
    filter q_in_use (a_reqs st') = filter q_in_use (a_reqs st) \<and>
    a_offset st' = a_offset st \<and> a_file st' = a_file st \<and> io_error (a_ring st') = io_error (a_ring st)"
proof -
  obtain i where i: "aof_find_free_req (a_reqs st) = Some i"
    using assms(4) by (auto simp: submit_batch_def split: option.splits)
  note free = aof_find_free_reqD [OF i]
  obtain r b cap local ring where f:
    "aof_fill_batch True (a_ring st) (q_cap (a_reqs st ! i)) (a_local st) = (r, b, cap, local, ring)"
    using prod_cases5 by blast
  obtain ks where r: "r = 1" "same_counters (a_ring st) ring" and ks: "ks \<noteq> []"
    "ring_pend (a_ring st) (a_local st) = ks @ ring_pend ring local"
    by (rule fill_batch_progress [OF assms(1,2) f])
  let ?q = "(a_reqs st ! i)\<lparr>q_buf := b, q_cap := cap, q_written := 0\<rparr>"
  have st': "st' = st\<lparr>a_ring := ring, a_local := local, a_reqs := (a_reqs st)[i := ?q]\<rparr>"
    using assms(4) i f r by (simp add: submit_batch_def)
  have "filter q_in_use (a_reqs st') = filter q_in_use (a_reqs st)"
    using free assms(3) by (simp add: st' filter_update_same)
  then show ?thesis using r(2) ks by (simp add: st' same_counters_def)
qed

theorem aof_batch_lost_witness:
  "\<exists>st st'. aof_run (aof_initial 0 (\<lambda>_. None)) [''ab''] st \<and> submit_batch True False st = Some st' \<and>
     length (ring_pend (a_ring st') (a_local st')) < length (ring_pend (a_ring st) (a_local st)) \<and>
     filter q_in_use (a_reqs st') = filter q_in_use (a_reqs st) \<and>
     a_offset st' = a_offset st \<and> a_file st' = a_file st"
proof -
  obtain st where st: "aof_run (aof_initial 0 (\<lambda>_. None)) [''ab''] st"
    "a_local st < write_idx (a_ring st)" "aof_find_free_req (a_reqs st) = Some 0"
    using one_append by blast
  have inv: "ring_ok (a_ring st) (a_local st)" "length (a_reqs st) = AOF_IO_DEPTH"
    using aof_inv_run [OF st(1) refl] by (simp_all add: aof_inv_def)
  have "submit_batch True False st \<noteq> None"
    using st(3) by (simp add: submit_batch_def Let_def split: prod.split)
  then obtain st' where st': "submit_batch True False st = Some st'" by blast
  show ?thesis using st(1) st' aof_batch_lost [OF inv(1) st(2) inv(2) st'] by blast
qed

end
