(* ===== verification/KVS_Server.thy ===== *)
theory KVS_Server
  imports KVS_Array KVS_Hash KVS_Skiplist KVS_RBTree KVS_Vector KVS_Resp KVS_Aof
begin

text \<open>
  The state of the server: the five engines, the settings the command layer reads, the
  append-only ring and the list of replicas; with the functions of \<open>kvstore.c\<close> and
  \<open>kvs_expire.c\<close> that act on all engines at once, and the replica bookkeeping of
  \<open>kvs_repli_master.c\<close> that the commands reach.

  A \<open>fault\<close> is an outcome of the C program that is not a return: memory written or read
  outside what it owns (\<open>Overflow\<close> for a reply buffer, \<open>Memory\<close> for the data structures,
  which also covers a loop that does not end), or waiting on a full append-only ring.
\<close>

datatype fault = Overflow | Memory | Waiting

text \<open>The bytes of a buffer; a null pointer has none.\<close>

definition bytes :: "cptr \<Rightarrow> string" where
  "bytes b = (case b of None \<Rightarrow> [] | Some x \<Rightarrow> x)"

subsection \<open>Replicas\<close>

datatype replica_state =
    KVS_REPL_STATE_INIT
  | KVS_REPL_STATE_WAIT_RDMA
  | KVS_REPL_STATE_WAIT_FINSYNC
  | KVS_REPL_STATE_ONLINE

record kvs_replica =
  r_fd :: int
  r_addr :: nat
  r_state :: replica_state
  r_cm_id :: "nat option"
  r_buf :: cptr
  r_size :: nat
  r_offset :: int
  r_seq :: int

text \<open>What the server does to the outside: bytes sent on a socket, a socket closed, an RDMA
  connection shut.\<close>

datatype io = Send int string | Close int | Disconnect nat

definition add_replica ::
    "bool \<Rightarrow> int \<Rightarrow> nat \<Rightarrow> replica_state \<Rightarrow> kvs_replica list \<Rightarrow> kvs_replica list option" where
  "add_replica mok tcp_fd addr st rs =
     (if mok then Some (\<lparr>r_fd = tcp_fd, r_addr = addr, r_state = st, r_cm_id = None, r_buf = None,
                         r_size = 0, r_offset = 0, r_seq = 0\<rparr> # rs)
      else None)"

definition find_replica_by_tcp_fd :: "int \<Rightarrow> kvs_replica list \<Rightarrow> nat option" where
  "find_replica_by_tcp_fd tcp_fd rs = find (\<lambda>i. r_fd (rs ! i) = tcp_fd) [0..<length rs]"

definition find_replica_by_rdma_cm_id :: "nat \<Rightarrow> kvs_replica list \<Rightarrow> nat option" where
  "find_replica_by_rdma_cm_id cm rs = find (\<lambda>i. r_cm_id (rs ! i) = Some cm) [0..<length rs]"

definition find_waiting_replica_by_peer :: "nat \<Rightarrow> kvs_replica list \<Rightarrow> nat option" where
  "find_waiting_replica_by_peer peer rs =
     find (\<lambda>i. r_state (rs ! i) = KVS_REPL_STATE_WAIT_RDMA \<and> r_addr (rs ! i) = peer) [0..<length rs]"

definition kvs_replication_master_handle_sync ::
    "bool \<Rightarrow> int \<Rightarrow> nat \<Rightarrow> kvs_replica list \<Rightarrow> kvs_replica list \<times> io list" where
  "kvs_replication_master_handle_sync mok tcp_fd addr rs =
     (case add_replica mok tcp_fd addr KVS_REPL_STATE_WAIT_RDMA rs of
        None \<Rightarrow> (rs, [Close tcp_fd])
      | Some rs' \<Rightarrow> (rs', [Send tcp_fd (''+OK'' @ CRLF)]))"

definition kvs_replication_master_handle_finsync ::
    "int \<Rightarrow> kvs_replica list \<Rightarrow> kvs_replica list \<times> io list" where
  "kvs_replication_master_handle_finsync tcp_fd rs =
     (case find_replica_by_tcp_fd tcp_fd rs of None \<Rightarrow> (rs, [])
      | Some i \<Rightarrow>
         if r_state (rs ! i) \<noteq> KVS_REPL_STATE_WAIT_FINSYNC then (rs, [])
         else (rs[i := (rs ! i)\<lparr>r_state := KVS_REPL_STATE_ONLINE\<rparr>],
               case r_cm_id (rs ! i) of None \<Rightarrow> [] | Some cm \<Rightarrow> [Disconnect cm]))"

subsection \<open>The server\<close>

record 'f server =
  sv_array :: kvs_array
  sv_rbtree :: "vptr rbtree"
  sv_hash :: hashtable
  sv_skiplist :: skiplist
  sv_vector :: "'f kvs_vector"
  sv_slave_mode :: bool
  sv_appendonly :: bool
  sv_replicating :: bool
  sv_loading :: bool
  sv_ring :: aof_ring
  sv_replicas :: "kvs_replica list"
  sv_io :: "io list"

text \<open>
  What the run-time system supplies to one request: the time, the outcomes of the
  allocations (of the engine, of the reply, of the log entry, of a replica), the random
  numbers, the floating-point operations, the outcome of \<open>fork\<close>, the peer address.
\<close>

record 'f env =
  e_now :: int
  e_mok :: mallocs
  e_rok :: bool
  e_aok :: bool
  e_pok :: bool
  e_rnd :: "nat \<Rightarrow> nat"
  e_fops :: "'f fops"
  e_fork :: bool
  e_peer :: nat

text \<open>The globals before anything has run, and an environment in which nothing fails.\<close>

definition zero_server :: "'f server" where
  "zero_server = \<lparr>sv_array = zero_array, sv_rbtree = zero_rbtree VNull, sv_hash = zero_hash,
     sv_skiplist = zero_skiplist, sv_vector = zero_vector, sv_slave_mode = False,
     sv_appendonly = False, sv_replicating = False, sv_loading = False, sv_ring = zero_ring,
     sv_replicas = [], sv_io = []\<rparr>"

definition calm_env :: "'f fops \<Rightarrow> int \<Rightarrow> 'f env" where
  "calm_env F now = \<lparr>e_now = now, e_mok = all_ok, e_rok = True, e_aok = True, e_pok = True,
     e_rnd = (\<lambda>_. 0), e_fops = F, e_fork = True, e_peer = 0\<rparr>"

subsection \<open>Life cycle of the engines\<close>

text \<open>
  \<open>mk n\<close> are the allocations of the \<open>n\<close>-th engine, \<open>region\<close> the contents of the fresh
  memory the hash table gets.
\<close>

definition init_kvengine ::
    "(nat \<Rightarrow> mallocs) \<Rightarrow> (nat \<Rightarrow> hashnode list option) \<Rightarrow> 'f server \<Rightarrow> int \<times> 'f server" where
  "init_kvengine mk region s =
     (let (ra, a) = kvs_array_create (mk 0) zero_array; s1 = s\<lparr>sv_array := a\<rparr> in
      if ra \<noteq> 0 then (-1, s1) else
      let (rt, t) = kvs_rbtree_create (mk 1) (zero_rbtree VNull); s2 = s1\<lparr>sv_rbtree := t\<rparr> in
      if rt \<noteq> 0 then (-1, s2) else
      let (rh, h) = kvs_hash_create (mk 2) region zero_hash; s3 = s2\<lparr>sv_hash := h\<rparr> in
      if rh \<noteq> 0 then (-1, s3) else
      let (rk, k) = kvs_skiplist_create (mk 3) zero_skiplist; s4 = s3\<lparr>sv_skiplist := k\<rparr> in
      if rk \<noteq> 0 then (-1, s4) else
      let (rv, v) = kvs_vector_create (mk 4) zero_vector; s5 = s4\<lparr>sv_vector := v\<rparr> in
      if rv \<noteq> 0 then (-1, s5) else (0, s5))"

definition kvs_reset_data_engines ::
    "(nat \<Rightarrow> mallocs) \<Rightarrow> (nat \<Rightarrow> hashnode list option) \<Rightarrow> 'f server \<Rightarrow> (int \<times> 'f server) option" where
  "kvs_reset_data_engines mk region s =
     (let (ra, a) = kvs_array_create (mk 0) zero_array; s1 = s\<lparr>sv_array := a\<rparr> in
      if ra \<noteq> 0 then Some (-1, s1) else
      (case kvs_rbtree_destory (sv_rbtree s1) of None \<Rightarrow> None | Some _ \<Rightarrow>
      let (rt, t) = kvs_rbtree_create (mk 1) (zero_rbtree VNull); s2 = s1\<lparr>sv_rbtree := t\<rparr> in
      if rt \<noteq> 0 then Some (-1, s2) else
      (case kvs_hash_destory (sv_hash s2) of None \<Rightarrow> None | Some _ \<Rightarrow>
      let (rh, h) = kvs_hash_create (mk 2) region zero_hash; s3 = s2\<lparr>sv_hash := h\<rparr> in
      if rh \<noteq> 0 then Some (-1, s3) else
      (case kvs_skiplist_destroy (sv_skiplist s3) of None \<Rightarrow> None | Some _ \<Rightarrow>
      let (rk, k) = kvs_skiplist_create (mk 3) zero_skiplist; s4 = s3\<lparr>sv_skiplist := k\<rparr> in
      if rk \<noteq> 0 then Some (-1, s4) else
      (case kvs_vector_destroy (sv_vector s4) of None \<Rightarrow> None | Some _ \<Rightarrow>
      let (rv, v) = kvs_vector_create (mk 4) zero_vector; s5 = s4\<lparr>sv_vector := v\<rparr> in
      if rv \<noteq> 0 then Some (-1, s5) else Some (0, s5))))))"

text \<open>The engine part of \<open>dest_kvengine\<close>.\<close>

definition dest_kvengine :: "'f server \<Rightarrow> 'f server option" where
  "dest_kvengine s =
     (case kvs_rbtree_destory (sv_rbtree s) of None \<Rightarrow> None | Some t \<Rightarrow>
      (case kvs_hash_destory (sv_hash s) of None \<Rightarrow> None | Some h \<Rightarrow>
       (case kvs_skiplist_destroy (sv_skiplist s) of None \<Rightarrow> None | Some k \<Rightarrow>
        (case kvs_vector_destroy (sv_vector s) of None \<Rightarrow> None | Some v \<Rightarrow>
          Some (s\<lparr>sv_array := kvs_array_destory (sv_array s), sv_rbtree := t, sv_hash := h,
                  sv_skiplist := k, sv_vector := v\<rparr>)))))"

definition kvs_expire_scan :: "int \<Rightarrow> 'f server \<Rightarrow> 'f server option" where
  "kvs_expire_scan now s =
     (case kvs_rbtree_scan_expired now (sv_rbtree s) of None \<Rightarrow> None | Some t \<Rightarrow>
      (case kvs_hash_scan_expired now (sv_hash s) of None \<Rightarrow> None | Some h \<Rightarrow>
       (case kvs_skiplist_scan_expired now (sv_skiplist s) of None \<Rightarrow> None | Some k \<Rightarrow>
          Some (s\<lparr>sv_array := kvs_array_scan_expired now (sv_array s), sv_rbtree := t,
                  sv_hash := h, sv_skiplist := k\<rparr>))))"

subsection \<open>Numbers read from arguments\<close>

definition is_space :: "char \<Rightarrow> bool" where
  "is_space c \<longleftrightarrow> c = CHR '' '' \<or> (CHR 0x09 \<le> c \<and> c \<le> CHR 0x0D)"

text \<open>\<open>strtoll\<close> in base 10: it saturates at the ends of \<open>long long\<close>.\<close>

definition strtoll :: "string \<Rightarrow> int" where
  "strtoll s =
     (let t = dropWhile is_space s;
          neg = (t \<noteq> [] \<and> hd t = CHR ''-'');
          u = (if t \<noteq> [] \<and> (hd t = CHR ''-'' \<or> hd t = CHR ''+'') then tl t else t);
          n = foldl (\<lambda>a c. a * 10 + digit_val c) 0 (takeWhile is_digit u)
      in if neg then max (- n) (- (2 ^ 63)) else min n (2 ^ 63 - 1))"

definition atoll :: "string \<Rightarrow> int" where
  "atoll s = strtoll s"

definition atoi :: "string \<Rightarrow> int" where
  "atoi s = int_wrap (strtoll s)"

text \<open>Floating-point operations replaced by integers, to run the model on examples.\<close>

definition int_fops :: "int fops" where
  "int_fops = \<lparr>f_zero = 0, f_neg2 = -2, f_max = 2 ^ 62, f_add = (+), f_mul = (*), f_div = (div),
     f_sqrt = id, f_le = (\<le>), f_lt = (<), f_parse = (\<lambda>s. Some (strtoll s)), f_atof = strtoll,
     f_print = dec_int\<rparr>"

text \<open>C division truncates towards zero.\<close>

definition c_quot :: "int \<Rightarrow> int \<Rightarrow> int" where
  "c_quot a b = sgn a * sgn b * (\<bar>a\<bar> div \<bar>b\<bar>)"

text \<open>\<open>kvs_current_time_ms() + seconds * 1000\<close> with wrap-around.\<close>

definition expire_at :: "int \<Rightarrow> int \<Rightarrow> int" where
  "expire_at now seconds = ll_wrap (now + ll_wrap (seconds * 1000))"

text \<open>\<open>(ttl + 999) / 1000\<close>.\<close>

definition ttl_seconds :: "int \<Rightarrow> int" where
  "ttl_seconds ttl = c_quot (ll_wrap (ttl + 999)) 1000"

end
