(* ===== verification/KVS_Rdma.thy ===== *)
theory KVS_Rdma
  imports KVS_Server
begin

text \<open>
  The transport of the full synchronisation (\<open>rdma.h\<close>): the messages, the connection manager with
  its buffers and work queues, and the functions that post work. A slot of a buffer is a chunk
  header with the payload behind it; a control message written into a slot overlays the first
  32 bytes of the header, field by field as the two C structures lie in memory. What the device does
  with posted work is not in the sources; it is a step relation where the two sides are put together.
\<close>

subsection \<open>Messages\<close>

definition RDMA_REPL_MAGIC :: nat where "RDMA_REPL_MAGIC = 0x52444d41"
definition RDMA_REPL_VERSION :: nat where "RDMA_REPL_VERSION = 3"
definition RDMA_REPL_WINDOW :: nat where "RDMA_REPL_WINDOW = 64"
definition RDMA_REPL_SLOT_SIZE :: nat where "RDMA_REPL_SLOT_SIZE = 1024 * 1024"
definition RDMA_REPL_CTRL_RECV_DEPTH :: nat where "RDMA_REPL_CTRL_RECV_DEPTH = 128"
definition RDMA_REPL_SEND_SLOTS :: nat where "RDMA_REPL_SEND_SLOTS = 64"
definition RDMA_POST_SEND_RETRY_MAX :: nat where "RDMA_POST_SEND_RETRY_MAX = 500"
definition RDMA_REPL_ACK_EVERY :: nat where "RDMA_REPL_ACK_EVERY = 16"
definition RDMA_IMM_LEN_MASK :: nat where "RDMA_IMM_LEN_MASK = 0x00ffffff"

text \<open>\<open>sizeof(rdma_chunk_header_t)\<close> and \<open>sizeof(rdma_ctrl_msg_t)\<close>.\<close>

definition HDR_SIZE :: nat where "HDR_SIZE = 56"
definition CTRL_SIZE :: nat where "CTRL_SIZE = 32"

definition RDMA_REPL_CHUNK_SIZE :: nat where
  "RDMA_REPL_CHUNK_SIZE = RDMA_REPL_SLOT_SIZE - HDR_SIZE"

definition RDMA_CTRL_ACK :: nat where "RDMA_CTRL_ACK = 1"
definition RDMA_CTRL_DONE :: nat where "RDMA_CTRL_DONE = 2"
definition RDMA_CTRL_ERROR :: nat where "RDMA_CTRL_ERROR = 3"
definition RDMA_CTRL_CHUNK :: nat where "RDMA_CTRL_CHUNK = 4"

lemmas ctrl_types = RDMA_CTRL_ACK_def RDMA_CTRL_DONE_def RDMA_CTRL_ERROR_def RDMA_CTRL_CHUNK_def

record rdma_peer_region =
  g_addr :: nat
  g_rkey :: nat
  g_length :: nat
  g_slot_size :: nat
  g_slot_count :: nat
  g_version :: nat

record rdma_chunk_header =
  h_magic :: nat
  h_version :: nat
  h_flags :: nat
  h_seq :: nat
  h_offset :: nat
  h_total_size :: nat
  h_checksum :: "64 word"
  h_len :: nat
  h_is_last :: nat
  h_slot_id :: nat
  h_header_len :: nat

record rdma_ctrl_msg =
  k_magic :: nat
  k_type :: nat
  k_seq :: nat
  k_offset :: nat
  k_status :: nat
  k_reserved :: nat

definition zero_header :: rdma_chunk_header where
  "zero_header = \<lparr>h_magic = 0, h_version = 0, h_flags = 0, h_seq = 0, h_offset = 0, h_total_size = 0,
     h_checksum = 0, h_len = 0, h_is_last = 0, h_slot_id = 0, h_header_len = 0\<rparr>"

definition zero_ctrl :: rdma_ctrl_msg where
  "zero_ctrl = \<lparr>k_magic = 0, k_type = 0, k_seq = 0, k_offset = 0, k_status = 0, k_reserved = 0\<rparr>"

record rslot =
  s_hdr :: rdma_chunk_header
  s_payload :: string

definition zero_slot :: rslot where
  "zero_slot = \<lparr>s_hdr = zero_header, s_payload = []\<rparr>"

text \<open>The first 32 bytes of a slot as a control message.\<close>

definition put_ctrl :: "rdma_ctrl_msg \<Rightarrow> rslot \<Rightarrow> rslot" where
  "put_ctrl k s = s\<lparr>s_hdr := (s_hdr s)\<lparr>h_magic := k_magic k, h_version := k_type k mod 2 ^ 16,
     h_flags := k_type k div 2 ^ 16, h_seq := k_seq k, h_offset := k_offset k,
     h_total_size := k_status k + 2 ^ 32 * k_reserved k\<rparr>\<rparr>"

definition get_ctrl :: "rslot \<Rightarrow> rdma_ctrl_msg" where
  "get_ctrl s = \<lparr>k_magic = h_magic (s_hdr s), k_type = h_version (s_hdr s) + 2 ^ 16 * h_flags (s_hdr s),
     k_seq = h_seq (s_hdr s), k_offset = h_offset (s_hdr s),
     k_status = h_total_size (s_hdr s) mod 2 ^ 32, k_reserved = h_total_size (s_hdr s) div 2 ^ 32\<rparr>"

lemma get_put_ctrl: "k_status k < 2 ^ 32 \<Longrightarrow> get_ctrl (put_ctrl k s) = k"
  by (cases k) (simp add: get_ctrl_def put_ctrl_def)

subsection \<open>Checksum and immediate data\<close>

primrec rdma_fnv1a64_update :: "64 word \<Rightarrow> string \<Rightarrow> 64 word" where
  "rdma_fnv1a64_update h [] = h"
| "rdma_fnv1a64_update h (c # cs) = rdma_fnv1a64_update ((xor h (of_char c)) * 1099511628211) cs"

definition rdma_fnv1a64 :: "string \<Rightarrow> 64 word" where
  "rdma_fnv1a64 data = rdma_fnv1a64_update 1469598103934665603 data"

definition rdma_imm_pack :: "32 word \<Rightarrow> 32 word \<Rightarrow> 32 word" where
  "rdma_imm_pack sl len = or (push_bit 24 (and sl 0xff)) (and len 0x00ffffff)"

definition rdma_imm_slot :: "32 word \<Rightarrow> 32 word" where
  "rdma_imm_slot imm = and (drop_bit 24 imm) 0xff"

definition rdma_imm_len :: "32 word \<Rightarrow> 32 word" where
  "rdma_imm_len imm = and imm 0x00ffffff"

lemma imm_masks: "(0xff :: 32 word) = mask 8" "(0x00ffffff :: 32 word) = mask 24"
  by (simp_all add: mask_eq_exp_minus_1)

text \<open>Slot and length survive the packing as long as they fit their fields.\<close>

lemma imm_roundtrip:
  "rdma_imm_slot (rdma_imm_pack sl len) = and sl 0xff" "rdma_imm_len (rdma_imm_pack sl len) = and len 0x00ffffff"
  unfolding rdma_imm_slot_def rdma_imm_len_def rdma_imm_pack_def imm_masks
  by (rule bit_word_eqI; auto simp: bit_simps)+

subsection \<open>The connection manager\<close>

datatype wr_ctx_type = NoCtx | RDMA_WR_CTX_RECV | RDMA_WR_CTX_SEND | RDMA_WR_CTX_WRITE

record rdma_wr_ctx =
  x_type :: wr_ctx_type
  x_slot :: nat
  x_seq :: nat

definition zero_ctx :: rdma_wr_ctx where
  "zero_ctx = \<lparr>x_type = NoCtx, x_slot = 0, x_seq = 0\<rparr>"

text \<open>A work request of the send queue: the send slot it reads (which is also the index of its
  context), the number of bytes, and for a write the remote address.\<close>

datatype work = WSend nat nat | WWrite nat nat nat

text \<open>
  \<open>m_ready\<close> says that queue pair, memory regions and buffers exist; \<open>m_base\<close> is the address of the
  receive buffer; \<open>m_rq\<close> and \<open>m_sq\<close> are the queues of the device, \<open>m_disc\<close> that a disconnect has
  been asked for.
\<close>

record conn_manger =
  m_ready :: bool
  m_base :: nat
  m_rkey :: nat
  m_recv_buffer_len :: nat
  m_data :: "nat \<Rightarrow> rslot"
  m_send :: "nat \<Rightarrow> rslot"
  m_ctrl :: "nat \<Rightarrow> rdma_ctrl_msg"
  m_remote_addr :: nat
  m_remote_rkey :: nat
  m_remote_len :: nat
  m_remote_slot_size :: nat
  m_remote_slot_count :: nat
  m_has_remote_region :: bool
  m_local_slot_size :: nat
  m_local_slot_count :: nat
  m_recv_ctx :: "nat \<Rightarrow> rdma_wr_ctx"
  m_send_ctx :: "nat \<Rightarrow> rdma_wr_ctx"
  m_posted_send :: nat
  m_completed_send :: nat
  m_posted_recv :: nat
  m_completed_recv :: nat
  m_running :: bool
  m_done :: bool
  m_failed :: bool
  m_rq :: "nat list"
  m_sq :: "work list"
  m_disc :: bool

definition rdma_disconnect :: "conn_manger \<Rightarrow> conn_manger" where
  "rdma_disconnect c = c\<lparr>m_disc := True\<rparr>"

definition rdma_mark_done :: "conn_manger \<Rightarrow> conn_manger" where
  "rdma_mark_done c = c\<lparr>m_done := True\<rparr>"

definition rdma_mark_failed :: "conn_manger \<Rightarrow> conn_manger" where
  "rdma_mark_failed c = c\<lparr>m_failed := True, m_running := False\<rparr>"

text \<open>The condition under which \<open>rdma_wait_done\<close> returns.\<close>

definition rdma_wait_done :: "conn_manger \<Rightarrow> bool" where
  "rdma_wait_done c \<longleftrightarrow> \<not> (m_running c \<and> \<not> m_done c \<and> \<not> m_failed c)"

definition rdma_data_slot_ptr :: "conn_manger \<Rightarrow> nat \<Rightarrow> rslot option" where
  "rdma_data_slot_ptr c sl =
     (if \<not> m_ready c \<or> sl \<ge> m_local_slot_count c then None else Some (m_data c sl))"

definition rdma_send_slot_ptr :: "conn_manger \<Rightarrow> nat \<Rightarrow> nat option" where
  "rdma_send_slot_ptr c sl = (if \<not> m_ready c then None else Some (sl mod RDMA_REPL_SEND_SLOTS))"

definition rdma_ctrl_recv_slot_ptr :: "conn_manger \<Rightarrow> nat \<Rightarrow> nat option" where
  "rdma_ctrl_recv_slot_ptr c sl = (if \<not> m_ready c then None else Some (sl mod RDMA_REPL_CTRL_RECV_DEPTH))"

definition rdma_remote_slot_addr :: "conn_manger \<Rightarrow> nat \<Rightarrow> nat" where
  "rdma_remote_slot_addr c sl = m_remote_addr c + sl * m_remote_slot_size c"

text \<open>The product of slot count and slot size is taken in 32 bits.\<close>

definition rdma_set_remote_region :: "conn_manger \<Rightarrow> rdma_peer_region \<Rightarrow> int \<times> conn_manger" where
  "rdma_set_remote_region c g =
     (if g_version g \<noteq> RDMA_REPL_VERSION then (-1, c)
      else if g_slot_count g = 0 \<or> g_slot_size g \<le> HDR_SIZE then (-1, c)
      else if g_length g < (g_slot_count g * g_slot_size g) mod 2 ^ 32 then (-1, c)
      else (0, c\<lparr>m_remote_addr := g_addr g, m_remote_rkey := g_rkey g, m_remote_len := g_length g,
                 m_remote_slot_size := g_slot_size g, m_remote_slot_count := g_slot_count g,
                 m_has_remote_region := True\<rparr>))"

definition rdma_get_local_region :: "conn_manger \<Rightarrow> rdma_peer_region option" where
  "rdma_get_local_region c =
     (if \<not> m_ready c then None
      else Some \<lparr>g_addr = m_base c, g_rkey = m_rkey c, g_length = m_recv_buffer_len c mod 2 ^ 32,
                 g_slot_size = m_local_slot_size c, g_slot_count = m_local_slot_count c,
                 g_version = RDMA_REPL_VERSION\<rparr>)"

subsection \<open>Posting work\<close>

text \<open>\<open>err i\<close> is \<open>errno\<close> after the \<open>i\<close>-th attempt to post, 0 when it succeeds.\<close>

definition rdma_post_errno_retryable :: "int \<Rightarrow> bool" where
  "rdma_post_errno_retryable err \<longleftrightarrow> err = 11 \<or> err = 12 \<or> err = 28 \<or> err = 16"

primrec post_attempts :: "nat \<Rightarrow> nat \<Rightarrow> (nat \<Rightarrow> int) \<Rightarrow> bool" where
  "post_attempts 0 i err = False"
| "post_attempts (Suc n) i err =
     (if err i = 0 then True else if rdma_post_errno_retryable (err i) then post_attempts n (i + 1) err else False)"

definition post_recv_slot :: "bool \<Rightarrow> nat \<Rightarrow> conn_manger \<Rightarrow> int \<times> conn_manger" where
  "post_recv_slot ok sl c =
     (if \<not> m_ready c then (-1, c)
      else if sl \<ge> RDMA_REPL_CTRL_RECV_DEPTH then (-1, c)
      else let c1 = c\<lparr>m_ctrl := (m_ctrl c)(sl := zero_ctrl),
                      m_recv_ctx := (m_recv_ctx c)(sl := \<lparr>x_type = RDMA_WR_CTX_RECV, x_slot = sl, x_seq = 0\<rparr>)\<rparr>
           in if ok then (0, c1\<lparr>m_rq := m_rq c1 @ [sl], m_posted_recv := m_posted_recv c1 + 1\<rparr>)
              else (-1, rdma_disconnect c1))"

text \<open>The loop of \<open>post_recv_n\<close> from \<open>i\<close> on, for \<open>n\<close> more slots.\<close>

primrec post_recv_from :: "mallocs \<Rightarrow> nat \<Rightarrow> nat \<Rightarrow> conn_manger \<Rightarrow> int \<times> conn_manger" where
  "post_recv_from ok i 0 c = (0, c)"
| "post_recv_from ok i (Suc n) c =
     (let (r, c1) = post_recv_slot (ok i) i c in if r \<noteq> 0 then (-1, c1) else post_recv_from ok (i + 1) n c1)"

definition post_recv_n :: "mallocs \<Rightarrow> nat \<Rightarrow> conn_manger \<Rightarrow> int \<times> conn_manger" where
  "post_recv_n ok n c = post_recv_from ok 0 (min n RDMA_REPL_CTRL_RECV_DEPTH) c"

definition set_send_ctx :: "nat \<Rightarrow> rdma_wr_ctx \<Rightarrow> conn_manger \<Rightarrow> conn_manger" where
  "set_send_ctx i x c = c\<lparr>m_send_ctx := (m_send_ctx c)(i := x)\<rparr>"

definition post_send_slot :: "(nat \<Rightarrow> int) \<Rightarrow> nat \<Rightarrow> nat \<Rightarrow> nat \<Rightarrow> conn_manger \<Rightarrow> int \<times> conn_manger" where
  "post_send_slot err sl len seq c =
     (if \<not> m_ready c \<or> len = 0 then (-1, c)
      else if len > RDMA_REPL_SLOT_SIZE then (-1, c)
      else let i = sl mod RDMA_REPL_SEND_SLOTS;
               c1 = set_send_ctx i \<lparr>x_type = RDMA_WR_CTX_SEND, x_slot = i, x_seq = seq\<rparr> c
           in if post_attempts RDMA_POST_SEND_RETRY_MAX 0 err
              then (0, c1\<lparr>m_sq := m_sq c1 @ [WSend i len], m_posted_send := m_posted_send c1 + 1\<rparr>)
              else (-1, rdma_disconnect c1))"

definition post_ctrl_slot ::
    "(nat \<Rightarrow> int) \<Rightarrow> nat \<Rightarrow> nat \<Rightarrow> nat \<Rightarrow> nat \<Rightarrow> nat \<Rightarrow> conn_manger \<Rightarrow> int \<times> conn_manger" where
  "post_ctrl_slot err sl type seq off status c =
     (case rdma_send_slot_ptr c sl of None \<Rightarrow> (-1, c)
      | Some i \<Rightarrow>
          let k = \<lparr>k_magic = RDMA_REPL_MAGIC, k_type = type, k_seq = seq, k_offset = off, k_status = status, k_reserved = 0\<rparr>
          in post_send_slot err sl CTRL_SIZE seq (c\<lparr>m_send := (m_send c)(i := put_ctrl k (m_send c i))\<rparr>))"

definition post_rdma_writev_slot ::
    "(nat \<Rightarrow> int) \<Rightarrow> nat \<Rightarrow> nat \<Rightarrow> nat \<Rightarrow> nat \<Rightarrow> conn_manger \<Rightarrow> int \<times> conn_manger" where
  "post_rdma_writev_slot err buf total_length remote_slot seq c =
     (if \<not> m_ready c \<or> \<not> m_has_remote_region c \<or> total_length = 0 then (-1, c)
      else if remote_slot \<ge> m_remote_slot_count c then (-1, rdma_disconnect c)
      else if total_length > m_remote_slot_size c then (-1, rdma_disconnect c)
      else if total_length > RDMA_IMM_LEN_MASK then (-1, rdma_disconnect c)
      else let c1 = set_send_ctx (remote_slot mod RDMA_REPL_SEND_SLOTS)
                      \<lparr>x_type = RDMA_WR_CTX_WRITE, x_slot = remote_slot, x_seq = seq\<rparr> c
           in if post_attempts RDMA_POST_SEND_RETRY_MAX 0 err
              then (0, c1\<lparr>m_sq := m_sq c1 @ [WWrite buf total_length (rdma_remote_slot_addr c1 remote_slot)],
                           m_posted_send := m_posted_send c1 + 1\<rparr>)
              else (-1, rdma_disconnect c1))"

subsection \<open>Setting up and taking down\<close>

text \<open>What a connection holds.\<close>

datatype resource = ConnMem | ProtDomain | Channel | ComplQueue | QueuePair | RecvBuf | SendBuf | CtrlBuf
  | RecvMr | SendMr | CtrlMr | CqThread

text \<open>\<open>cm_id\<close> of the connection: whether the connection manager is attached, and what is held.\<close>

type_synonym held = "bool \<times> resource set"

text \<open>The label \<open>fail\<close> releases everything that is there.\<close>

definition init_fail :: "resource set \<Rightarrow> held" where
  "init_fail R = (False, R - {QueuePair, RecvMr, SendMr, CtrlMr, ComplQueue, Channel, ProtDomain,
     RecvBuf, SendBuf, CtrlBuf, ConnMem})"

text \<open>\<open>ok r\<close> says whether obtaining \<open>r\<close> succeeds; \<open>notify\<close> and \<open>params\<close> the two steps in between.\<close>

definition initialize_connection :: "(resource \<Rightarrow> bool) \<Rightarrow> bool \<Rightarrow> bool \<Rightarrow> int \<times> held" where
  "initialize_connection ok notify params =
     (if \<not> ok ConnMem then (-1, False, {})
      else if \<not> ok ProtDomain then (-1, init_fail {ConnMem})
      else if \<not> ok Channel then (-1, init_fail {ConnMem, ProtDomain})
      else if \<not> ok ComplQueue then (-1, init_fail {ConnMem, ProtDomain, Channel})
      else if \<not> notify then (-1, init_fail {ConnMem, ProtDomain, Channel, ComplQueue})
      else if \<not> ok QueuePair then (-1, init_fail {ConnMem, ProtDomain, Channel, ComplQueue})
      else let R = {ConnMem, ProtDomain, Channel, ComplQueue, QueuePair} in
      if \<not> ok RecvBuf then (-1, init_fail R)
      else if \<not> ok SendBuf then (-1, init_fail (insert RecvBuf R))
      else if \<not> ok CtrlBuf then (-1, init_fail (R \<union> {RecvBuf, SendBuf}))
      else let R1 = R \<union> {RecvBuf, SendBuf, CtrlBuf} \<union> {r \<in> {RecvMr, SendMr, CtrlMr}. ok r} in
      if \<not> (ok RecvMr \<and> ok SendMr \<and> ok CtrlMr) then (-1, init_fail R1)
      else if \<not> params then (-1, init_fail R1)
      else if \<not> ok CqThread then (-1, init_fail R1)
      else (0, True, insert CqThread R1))"

definition destroy_connection :: "bool \<Rightarrow> held \<Rightarrow> held" where
  "destroy_connection destroying h =
     (case h of (attached, R) \<Rightarrow>
        if \<not> attached then (False, R)
        else if destroying then h
        else (False, R - {CqThread, QueuePair, RecvMr, SendMr, CtrlMr, ComplQueue, Channel, ProtDomain,
                RecvBuf, SendBuf, CtrlBuf, ConnMem}))"

text \<open>A failed set-up keeps nothing, a connection that is taken down gives everything back.\<close>

lemma connection_no_leak:
  "initialize_connection ok notify params = (r, a, R) \<Longrightarrow>
   (r = 0 \<longrightarrow> a \<and> snd (destroy_connection False (a, R)) = {}) \<and> (r \<noteq> 0 \<longrightarrow> \<not> a \<and> R = {})"
  by (auto simp: initialize_connection_def init_fail_def destroy_connection_def Let_def split: if_splits)

text \<open>The connection manager after \<open>initialize_connection\<close>; \<open>base\<close> and \<open>rkey\<close> are what the
  allocator and the device give.\<close>

definition fresh_conn :: "nat \<Rightarrow> nat \<Rightarrow> conn_manger" where
  "fresh_conn base rkey = \<lparr>m_ready = True, m_base = base, m_rkey = rkey,
     m_recv_buffer_len = RDMA_REPL_WINDOW * RDMA_REPL_SLOT_SIZE,
     m_data = \<lambda>_. zero_slot, m_send = \<lambda>_. zero_slot, m_ctrl = \<lambda>_. zero_ctrl,
     m_remote_addr = 0, m_remote_rkey = 0, m_remote_len = 0, m_remote_slot_size = 0, m_remote_slot_count = 0,
     m_has_remote_region = False, m_local_slot_size = RDMA_REPL_SLOT_SIZE, m_local_slot_count = RDMA_REPL_WINDOW,
     m_recv_ctx = \<lambda>_. zero_ctx, m_send_ctx = \<lambda>_. zero_ctx, m_posted_send = 0, m_completed_send = 0,
     m_posted_recv = 0, m_completed_recv = 0, m_running = True, m_done = False, m_failed = False,
     m_rq = [], m_sq = [], m_disc = False\<rparr>"

end
