(* ===== verification/KVS_Command.thy ===== *)
theory KVS_Command
  imports KVS_Server
begin

text \<open>
  The command layer (\<open>kvs_command.c\<close>) and the request entry point \<open>kvs_protocol\<close> of
  \<open>kvstore.c\<close>: the command table, the argument check, the read-only check of a replica, one
  definition per case of the big \<open>switch\<close>, the reply each case writes into a buffer of a
  fixed or computed size, and the logging of successful writes.

  A result is a \<open>fault\<close>, or the return code with the reply and the new server. The engines
  receive the arguments as C strings, cut at the first NUL.
\<close>

subsection \<open>The command table\<close>

datatype kvs_cmd =
    KVS_CMD_SET
  | KVS_CMD_GET
  | KVS_CMD_DEL
  | KVS_CMD_MOD
  | KVS_CMD_EXIST
  | KVS_CMD_RSET
  | KVS_CMD_RGET
  | KVS_CMD_RDEL
  | KVS_CMD_RMOD
  | KVS_CMD_REXIST
  | KVS_CMD_HSET
  | KVS_CMD_HGET
  | KVS_CMD_HDEL
  | KVS_CMD_HMOD
  | KVS_CMD_HEXIST
  | KVS_CMD_SKSET
  | KVS_CMD_SKGET
  | KVS_CMD_SKDEL
  | KVS_CMD_SKMOD
  | KVS_CMD_SKEXIST
  | KVS_CMD_BGSAVE
  | KVS_CMD_SYNC
  | KVS_CMD_FINSYNC
  | KVS_CMD_EXPIRE
  | KVS_CMD_TTL
  | KVS_CMD_SETEX
  | KVS_CMD_REXPIRE
  | KVS_CMD_RTTL
  | KVS_CMD_RSETEX
  | KVS_CMD_HEXPIRE
  | KVS_CMD_HTTL
  | KVS_CMD_HSETEX
  | KVS_CMD_SKEXPIRE
  | KVS_CMD_SKTTL
  | KVS_CMD_SKSETEX
  | KVS_CMD_VSET
  | KVS_CMD_VGET
  | KVS_CMD_VSEARCH
  | KVS_CMD_PING

definition command :: "string list" where
  "command = [''SET'', ''GET'', ''DEL'', ''MOD'', ''EXIST'', ''RSET'', ''RGET'', ''RDEL'', ''RMOD'', ''REXIST'',
     ''HSET'', ''HGET'', ''HDEL'', ''HMOD'', ''HEXIST'', ''SKSET'', ''SKGET'', ''SKDEL'', ''SKMOD'',
     ''SKEXIST'', ''BGSAVE'', ''SYNC'', ''FINSYNC'', ''EXPIRE'', ''TTL'', ''SETEX'', ''REXPIRE'', ''RTTL'',
     ''RSETEX'', ''HEXPIRE'', ''HTTL'', ''HSETEX'', ''SKEXPIRE'', ''SKTTL'', ''SKSETEX'', ''VSET'', ''VGET'',
     ''VSEARCH'', ''PING'']"

definition command_enum :: "kvs_cmd list" where
  "command_enum = [KVS_CMD_SET, KVS_CMD_GET, KVS_CMD_DEL, KVS_CMD_MOD, KVS_CMD_EXIST,
     KVS_CMD_RSET, KVS_CMD_RGET, KVS_CMD_RDEL, KVS_CMD_RMOD, KVS_CMD_REXIST,
     KVS_CMD_HSET, KVS_CMD_HGET, KVS_CMD_HDEL, KVS_CMD_HMOD, KVS_CMD_HEXIST,
     KVS_CMD_SKSET, KVS_CMD_SKGET, KVS_CMD_SKDEL, KVS_CMD_SKMOD, KVS_CMD_SKEXIST,
     KVS_CMD_BGSAVE, KVS_CMD_SYNC, KVS_CMD_FINSYNC, KVS_CMD_EXPIRE, KVS_CMD_TTL,
     KVS_CMD_SETEX, KVS_CMD_REXPIRE, KVS_CMD_RTTL, KVS_CMD_RSETEX, KVS_CMD_HEXPIRE,
     KVS_CMD_HTTL, KVS_CMD_HSETEX, KVS_CMD_SKEXPIRE, KVS_CMD_SKTTL, KVS_CMD_SKSETEX,
     KVS_CMD_VSET, KVS_CMD_VGET, KVS_CMD_VSEARCH, KVS_CMD_PING]"

record kvs_cmd_meta =
  min_argc :: nat
  max_argc :: nat
  is_write :: bool
  persist_on_success :: bool

definition meta :: "nat \<Rightarrow> nat \<Rightarrow> bool \<Rightarrow> bool \<Rightarrow> kvs_cmd_meta" where
  "meta lo hi w p = \<lparr>min_argc = lo, max_argc = hi, is_write = w, persist_on_success = p\<rparr>"

primrec command_meta :: "kvs_cmd \<Rightarrow> kvs_cmd_meta" where
  "command_meta KVS_CMD_SET = meta 3 3 True True"
| "command_meta KVS_CMD_GET = meta 2 2 False False"
| "command_meta KVS_CMD_DEL = meta 2 2 True True"
| "command_meta KVS_CMD_MOD = meta 3 3 True True"
| "command_meta KVS_CMD_EXIST = meta 2 2 False False"
| "command_meta KVS_CMD_RSET = meta 3 3 True True"
| "command_meta KVS_CMD_RGET = meta 2 2 False False"
| "command_meta KVS_CMD_RDEL = meta 2 2 True True"
| "command_meta KVS_CMD_RMOD = meta 3 3 True True"
| "command_meta KVS_CMD_REXIST = meta 2 2 False False"
| "command_meta KVS_CMD_HSET = meta 3 3 True True"
| "command_meta KVS_CMD_HGET = meta 2 2 False False"
| "command_meta KVS_CMD_HDEL = meta 2 2 True True"
| "command_meta KVS_CMD_HMOD = meta 3 3 True True"
| "command_meta KVS_CMD_HEXIST = meta 2 2 False False"
| "command_meta KVS_CMD_SKSET = meta 3 3 True True"
| "command_meta KVS_CMD_SKGET = meta 2 2 False False"
| "command_meta KVS_CMD_SKDEL = meta 2 2 True True"
| "command_meta KVS_CMD_SKMOD = meta 3 3 True True"
| "command_meta KVS_CMD_SKEXIST = meta 2 2 False False"
| "command_meta KVS_CMD_BGSAVE = meta 1 1 False False"
| "command_meta KVS_CMD_SYNC = meta 1 1 False False"
| "command_meta KVS_CMD_FINSYNC = meta 1 1 False False"
| "command_meta KVS_CMD_EXPIRE = meta 3 3 True True"
| "command_meta KVS_CMD_TTL = meta 2 2 False False"
| "command_meta KVS_CMD_SETEX = meta 4 4 True True"
| "command_meta KVS_CMD_REXPIRE = meta 3 3 True True"
| "command_meta KVS_CMD_RTTL = meta 2 2 False False"
| "command_meta KVS_CMD_RSETEX = meta 4 4 True True"
| "command_meta KVS_CMD_HEXPIRE = meta 3 3 True True"
| "command_meta KVS_CMD_HTTL = meta 2 2 False False"
| "command_meta KVS_CMD_HSETEX = meta 4 4 True True"
| "command_meta KVS_CMD_SKEXPIRE = meta 3 3 True True"
| "command_meta KVS_CMD_SKTTL = meta 2 2 False False"
| "command_meta KVS_CMD_SKSETEX = meta 4 4 True True"
| "command_meta KVS_CMD_VSET = meta 5 5 True True"
| "command_meta KVS_CMD_VGET = meta 2 4 False False"
| "command_meta KVS_CMD_VSEARCH = meta 5 5 False False"
| "command_meta KVS_CMD_PING = meta 1 1 False False"

definition is_write_command :: "kvs_cmd \<Rightarrow> bool" where
  "is_write_command cmd = is_write (command_meta cmd)"

definition command_argc_ok :: "kvs_cmd \<Rightarrow> nat \<Rightarrow> bool" where
  "command_argc_ok cmd argc \<longleftrightarrow>
     min_argc (command_meta cmd) \<le> argc \<and> argc \<le> max_argc (command_meta cmd)"

definition command_result_changed_data :: "kvs_cmd \<Rightarrow> int \<Rightarrow> bool" where
  "command_result_changed_data cmd ret =
     (if ret < 0 then False
      else if cmd \<in> {KVS_CMD_SET, KVS_CMD_RSET, KVS_CMD_HSET, KVS_CMD_SKSET, KVS_CMD_SETEX,
                     KVS_CMD_RSETEX, KVS_CMD_HSETEX, KVS_CMD_SKSETEX, KVS_CMD_VSET} then True
      else if cmd \<in> {KVS_CMD_DEL, KVS_CMD_RDEL, KVS_CMD_HDEL, KVS_CMD_SKDEL, KVS_CMD_MOD,
                     KVS_CMD_RMOD, KVS_CMD_HMOD, KVS_CMD_SKMOD, KVS_CMD_EXPIRE, KVS_CMD_REXPIRE,
                     KVS_CMD_HEXPIRE, KVS_CMD_SKEXPIRE} then ret = 0
      else False)"

text \<open>
  \<open>persist_command_if_changed\<close>; the length is the request's, converted to \<open>int\<close>. The result
  of the append is ignored; \<open>None\<close> is waiting on a full ring.
\<close>

definition persist_command_if_changed ::
    "'f env \<Rightarrow> kvs_cmd \<Rightarrow> int \<Rightarrow> string \<Rightarrow> 'f server \<Rightarrow> 'f server option" where
  "persist_command_if_changed e cmd ret raw s =
     (let raw_len = int_wrap (int (length raw)) in
      if \<not> persist_on_success (command_meta cmd) \<or> \<not> command_result_changed_data cmd ret \<or>
         raw_len \<le> 0 then Some s
      else map_option (\<lambda>(_, ring). s\<lparr>sv_ring := ring\<rparr>)
        (kvs_persistence_append (sv_loading s) (sv_appendonly s) (e_aok e) (sv_ring s)
           (Some raw) raw_len))"

subsection \<open>Replies\<close>

type_synonym 'f cres = "fault + int \<times> cptr \<times> 'f server"

text \<open>\<open>kvs_malloc(cap)\<close>, the early return when it fails, and \<open>sprintf\<close> into the buffer.\<close>

definition answer :: "'f env \<Rightarrow> nat \<Rightarrow> string \<Rightarrow> 'f server \<Rightarrow> 'f cres" where
  "answer e cap msg s =
     (if \<not> e_rok e then Inr (-2, None, s)
      else if length msg + 1 > cap then Inl Overflow
      else Inr (int (length msg), Some msg, s))"

text \<open>The same, followed by the logging of the request.\<close>

definition answer_persist ::
    "'f env \<Rightarrow> kvs_cmd \<Rightarrow> int \<Rightarrow> string \<Rightarrow> nat \<Rightarrow> string \<Rightarrow> 'f server \<Rightarrow> 'f cres" where
  "answer_persist e cmd ret raw cap msg s =
     (if \<not> e_rok e then Inr (-2, None, s)
      else if length msg + 1 > cap then Inl Overflow
      else (case persist_command_if_changed e cmd ret raw s of
              None \<Rightarrow> Inl Waiting
            | Some s' \<Rightarrow> Inr (int (length msg), Some msg, s')))"

definition kvs_reply_error :: "'f env \<Rightarrow> string \<Rightarrow> 'f server \<Rightarrow> 'f cres" where
  "kvs_reply_error e msg s = answer e (length msg + 1) msg s"

abbreviation err_internal :: string where "err_internal \<equiv> ''-ERR internal error'' @ CRLF"
abbreviation err_argc :: string where "err_argc \<equiv> ''-ERR wrong number of arguments'' @ CRLF"
abbreviation ok_reply :: string where "ok_reply \<equiv> ''+OK'' @ CRLF"

text \<open>The reply patterns that the cases of the four engines share.\<close>

definition reply_set :: "'f env \<Rightarrow> kvs_cmd \<Rightarrow> string \<Rightarrow> int \<Rightarrow> 'f server \<Rightarrow> 'f cres" where
  "reply_set e cmd raw ret s =
     (if ret < 0 then answer_persist e cmd ret raw 25 err_internal s
      else answer_persist e cmd ret raw 6 ok_reply s)"

definition reply_get :: "'f env \<Rightarrow> vptr \<Rightarrow> 'f server \<Rightarrow> 'f cres" where
  "reply_get e v s =
     (case v of
        VNull \<Rightarrow> answer e 6 (''$-1'' @ CRLF) s
      | VFreed \<Rightarrow> Inl Memory
      | VStr r \<Rightarrow> let msg = ''$'' @ dec (length r) @ CRLF @ r @ CRLF
                  in answer e (length msg + 1) msg s)"

definition reply_del :: "'f env \<Rightarrow> kvs_cmd \<Rightarrow> string \<Rightarrow> int \<Rightarrow> 'f server \<Rightarrow> 'f cres" where
  "reply_del e cmd raw ret s =
     (if ret < 0 then answer_persist e cmd ret raw 25 err_internal s
      else if ret = 0 then answer_persist e cmd ret raw 6 ('':1'' @ CRLF) s
      else answer_persist e cmd ret raw 6 ('':0'' @ CRLF) s)"

definition reply_mod :: "'f env \<Rightarrow> kvs_cmd \<Rightarrow> string \<Rightarrow> int \<Rightarrow> 'f server \<Rightarrow> 'f cres" where
  "reply_mod e cmd raw ret s =
     (if ret < 0 then answer_persist e cmd ret raw 25 err_internal s
      else if ret = 0 then answer_persist e cmd ret raw 6 ok_reply s
      else answer_persist e cmd ret raw 20 (''-ERR no such key'' @ CRLF) s)"

definition reply_exist :: "'f env \<Rightarrow> int \<Rightarrow> 'f server \<Rightarrow> 'f cres" where
  "reply_exist e ret s =
     (if ret = 0 then answer e 6 ('':1'' @ CRLF) s else answer e 6 ('':0'' @ CRLF) s)"

definition reply_expire :: "'f env \<Rightarrow> kvs_cmd \<Rightarrow> string \<Rightarrow> int \<Rightarrow> 'f server \<Rightarrow> 'f cres" where
  "reply_expire e cmd raw ret s =
     (if ret = 0 then answer_persist e cmd ret raw 6 ('':1'' @ CRLF) s
      else if ret = 1 then answer_persist e cmd ret raw 6 ('':0'' @ CRLF) s
      else answer_persist e cmd ret raw 25 err_internal s)"

definition reply_ttl :: "'f env \<Rightarrow> int \<Rightarrow> 'f server \<Rightarrow> 'f cres" where
  "reply_ttl e ttl s =
     (if ttl = -2 then answer e 6 ('':-2'' @ CRLF) s
      else if ttl = -1 then answer e 6 ('':-1'' @ CRLF) s
      else let msg = '':'' @ dec_int (ttl_seconds ttl) @ CRLF in answer e (length msg + 1) msg s)"

text \<open>The argument count that the expiry commands check again.\<close>

definition recheck_argc :: "'f env \<Rightarrow> nat \<Rightarrow> string list \<Rightarrow> 'f server \<Rightarrow> 'f cres \<Rightarrow> 'f cres" where
  "recheck_argc e n argv s body = (if length argv \<noteq> n then answer e 28 err_argc s else body)"

text \<open>\<open>argv[i]\<close> of an existing argument, and \<open>key\<close>, \<open>value\<close>: NULL when there is none.\<close>

definition arg :: "string list \<Rightarrow> nat \<Rightarrow> cptr" where
  "arg argv i = (if i < length argv then Some (argv ! i) else None)"

text \<open>Carrying on after an engine call that may not return.\<close>

definition engine_call :: "'a option \<Rightarrow> ('a \<Rightarrow> 'f cres) \<Rightarrow> 'f cres" where
  "engine_call r body = (case r of None \<Rightarrow> Inl Memory | Some x \<Rightarrow> body x)"

subsection \<open>Commands on the array\<close>

definition cmd_SET :: "'f env \<Rightarrow> string list \<Rightarrow> string \<Rightarrow> 'f server \<Rightarrow> 'f cres" where
  "cmd_SET e argv raw s =
     (let (ret, x) = kvs_array_set (e_mok e) (sv_array s) (arg argv 1) (arg argv 2) (-1)
      in reply_set e KVS_CMD_SET raw ret (s\<lparr>sv_array := x\<rparr>))"

definition cmd_GET :: "'f env \<Rightarrow> string list \<Rightarrow> string \<Rightarrow> 'f server \<Rightarrow> 'f cres" where
  "cmd_GET e argv raw s =
     (let (v, x) = kvs_array_get (e_now e) (sv_array s) (arg argv 1)
      in reply_get e v (s\<lparr>sv_array := x\<rparr>))"

definition cmd_DEL :: "'f env \<Rightarrow> string list \<Rightarrow> string \<Rightarrow> 'f server \<Rightarrow> 'f cres" where
  "cmd_DEL e argv raw s =
     (let (ret, x) = kvs_array_del (sv_array s) (arg argv 1)
      in reply_del e KVS_CMD_DEL raw ret (s\<lparr>sv_array := x\<rparr>))"

definition cmd_MOD :: "'f env \<Rightarrow> string list \<Rightarrow> string \<Rightarrow> 'f server \<Rightarrow> 'f cres" where
  "cmd_MOD e argv raw s =
     (let (ret, x) = kvs_array_mod (e_mok e) (sv_array s) (arg argv 1) (arg argv 2)
      in reply_mod e KVS_CMD_MOD raw ret (s\<lparr>sv_array := x\<rparr>))"

definition cmd_EXIST :: "'f env \<Rightarrow> string list \<Rightarrow> string \<Rightarrow> 'f server \<Rightarrow> 'f cres" where
  "cmd_EXIST e argv raw s =
     reply_exist e (kvs_array_exist (e_now e) (sv_array s) (arg argv 1)) s"

definition cmd_SETEX :: "'f env \<Rightarrow> string list \<Rightarrow> string \<Rightarrow> 'f server \<Rightarrow> 'f cres" where
  "cmd_SETEX e argv raw s =
     recheck_argc e 4 argv s
       (let (ret, x) = kvs_array_set (e_mok e) (sv_array s) (arg argv 1) (arg argv 2)
            (expire_at (e_now e) (atoll (argv ! 3)))
        in reply_set e KVS_CMD_SETEX raw ret (s\<lparr>sv_array := x\<rparr>))"

definition cmd_EXPIRE :: "'f env \<Rightarrow> string list \<Rightarrow> string \<Rightarrow> 'f server \<Rightarrow> 'f cres" where
  "cmd_EXPIRE e argv raw s =
     recheck_argc e 3 argv s
       (let (ret, x) = kvs_array_expire (sv_array s) (arg argv 1)
            (expire_at (e_now e) (atoll (argv ! 2)))
        in reply_expire e KVS_CMD_EXPIRE raw ret (s\<lparr>sv_array := x\<rparr>))"

definition cmd_TTL :: "'f env \<Rightarrow> string list \<Rightarrow> string \<Rightarrow> 'f server \<Rightarrow> 'f cres" where
  "cmd_TTL e argv raw s =
     recheck_argc e 2 argv s (reply_ttl e (kvs_array_ttl (e_now e) (sv_array s) (arg argv 1)) s)"

subsection \<open>Commands on the red-black tree\<close>

definition cmd_RSET :: "'f env \<Rightarrow> string list \<Rightarrow> string \<Rightarrow> 'f server \<Rightarrow> 'f cres" where
  "cmd_RSET e argv raw s =
     engine_call (kvs_rbtree_set (e_mok e) (sv_rbtree s) (arg argv 1) (arg argv 2) (-1))
       (\<lambda>(ret, x). reply_set e KVS_CMD_RSET raw ret (s\<lparr>sv_rbtree := x\<rparr>))"

definition cmd_RGET :: "'f env \<Rightarrow> string list \<Rightarrow> string \<Rightarrow> 'f server \<Rightarrow> 'f cres" where
  "cmd_RGET e argv raw s =
     engine_call (kvs_rbtree_get (e_now e) (sv_rbtree s) (arg argv 1))
       (\<lambda>(v, x). reply_get e v (s\<lparr>sv_rbtree := x\<rparr>))"

definition cmd_RDEL :: "'f env \<Rightarrow> string list \<Rightarrow> string \<Rightarrow> 'f server \<Rightarrow> 'f cres" where
  "cmd_RDEL e argv raw s =
     engine_call (kvs_rbtree_del (sv_rbtree s) (arg argv 1))
       (\<lambda>(ret, x). reply_del e KVS_CMD_RDEL raw ret (s\<lparr>sv_rbtree := x\<rparr>))"

definition cmd_RMOD :: "'f env \<Rightarrow> string list \<Rightarrow> string \<Rightarrow> 'f server \<Rightarrow> 'f cres" where
  "cmd_RMOD e argv raw s =
     engine_call (kvs_rbtree_mod (e_mok e) (sv_rbtree s) (arg argv 1) (arg argv 2))
       (\<lambda>(ret, x). reply_mod e KVS_CMD_RMOD raw ret (s\<lparr>sv_rbtree := x\<rparr>))"

definition cmd_REXIST :: "'f env \<Rightarrow> string list \<Rightarrow> string \<Rightarrow> 'f server \<Rightarrow> 'f cres" where
  "cmd_REXIST e argv raw s =
     engine_call (kvs_rbtree_exist (e_now e) (sv_rbtree s) (arg argv 1))
       (\<lambda>(ret, x). reply_exist e ret (s\<lparr>sv_rbtree := x\<rparr>))"

definition cmd_RSETEX :: "'f env \<Rightarrow> string list \<Rightarrow> string \<Rightarrow> 'f server \<Rightarrow> 'f cres" where
  "cmd_RSETEX e argv raw s =
     recheck_argc e 4 argv s
       (engine_call (kvs_rbtree_set (e_mok e) (sv_rbtree s) (arg argv 1) (arg argv 2)
            (expire_at (e_now e) (atoll (argv ! 3))))
         (\<lambda>(ret, x). reply_set e KVS_CMD_RSETEX raw ret (s\<lparr>sv_rbtree := x\<rparr>)))"

definition cmd_REXPIRE :: "'f env \<Rightarrow> string list \<Rightarrow> string \<Rightarrow> 'f server \<Rightarrow> 'f cres" where
  "cmd_REXPIRE e argv raw s =
     recheck_argc e 3 argv s
       (engine_call (kvs_rbtree_expire (sv_rbtree s) (arg argv 1)
            (expire_at (e_now e) (atoll (argv ! 2))))
         (\<lambda>(ret, x). reply_expire e KVS_CMD_REXPIRE raw ret (s\<lparr>sv_rbtree := x\<rparr>)))"

definition cmd_RTTL :: "'f env \<Rightarrow> string list \<Rightarrow> string \<Rightarrow> 'f server \<Rightarrow> 'f cres" where
  "cmd_RTTL e argv raw s =
     recheck_argc e 2 argv s
       (engine_call (kvs_rbtree_ttl (e_now e) (sv_rbtree s) (arg argv 1)) (\<lambda>ttl. reply_ttl e ttl s))"

subsection \<open>Commands on the hash table\<close>

definition cmd_HSET :: "'f env \<Rightarrow> string list \<Rightarrow> string \<Rightarrow> 'f server \<Rightarrow> 'f cres" where
  "cmd_HSET e argv raw s =
     engine_call (kvs_hash_set (e_mok e) (sv_hash s) (arg argv 1) (arg argv 2) (-1))
       (\<lambda>(ret, x). reply_set e KVS_CMD_HSET raw ret (s\<lparr>sv_hash := x\<rparr>))"

definition cmd_HGET :: "'f env \<Rightarrow> string list \<Rightarrow> string \<Rightarrow> 'f server \<Rightarrow> 'f cres" where
  "cmd_HGET e argv raw s =
     engine_call (kvs_hash_get (e_now e) (sv_hash s) (arg argv 1))
       (\<lambda>(v, x). reply_get e v (s\<lparr>sv_hash := x\<rparr>))"

definition cmd_HDEL :: "'f env \<Rightarrow> string list \<Rightarrow> string \<Rightarrow> 'f server \<Rightarrow> 'f cres" where
  "cmd_HDEL e argv raw s =
     engine_call (kvs_hash_del (sv_hash s) (arg argv 1))
       (\<lambda>(ret, x). reply_del e KVS_CMD_HDEL raw ret (s\<lparr>sv_hash := x\<rparr>))"

definition cmd_HMOD :: "'f env \<Rightarrow> string list \<Rightarrow> string \<Rightarrow> 'f server \<Rightarrow> 'f cres" where
  "cmd_HMOD e argv raw s =
     engine_call (kvs_hash_mod (e_mok e) (e_now e) (sv_hash s) (arg argv 1) (arg argv 2))
       (\<lambda>(ret, x). reply_mod e KVS_CMD_HMOD raw ret (s\<lparr>sv_hash := x\<rparr>))"

definition cmd_HEXIST :: "'f env \<Rightarrow> string list \<Rightarrow> string \<Rightarrow> 'f server \<Rightarrow> 'f cres" where
  "cmd_HEXIST e argv raw s =
     engine_call (kvs_hash_exist (e_now e) (sv_hash s) (arg argv 1))
       (\<lambda>ret. reply_exist e ret s)"

definition cmd_HSETEX :: "'f env \<Rightarrow> string list \<Rightarrow> string \<Rightarrow> 'f server \<Rightarrow> 'f cres" where
  "cmd_HSETEX e argv raw s =
     recheck_argc e 4 argv s
       (engine_call (kvs_hash_set (e_mok e) (sv_hash s) (arg argv 1) (arg argv 2)
            (expire_at (e_now e) (atoll (argv ! 3))))
         (\<lambda>(ret, x). reply_set e KVS_CMD_HSETEX raw ret (s\<lparr>sv_hash := x\<rparr>)))"

definition cmd_HEXPIRE :: "'f env \<Rightarrow> string list \<Rightarrow> string \<Rightarrow> 'f server \<Rightarrow> 'f cres" where
  "cmd_HEXPIRE e argv raw s =
     recheck_argc e 3 argv s
       (engine_call (kvs_hash_expire (sv_hash s) (arg argv 1)
            (expire_at (e_now e) (atoll (argv ! 2))))
         (\<lambda>(ret, x). reply_expire e KVS_CMD_HEXPIRE raw ret (s\<lparr>sv_hash := x\<rparr>)))"

definition cmd_HTTL :: "'f env \<Rightarrow> string list \<Rightarrow> string \<Rightarrow> 'f server \<Rightarrow> 'f cres" where
  "cmd_HTTL e argv raw s =
     recheck_argc e 2 argv s
       (engine_call (kvs_hash_ttl (e_now e) (sv_hash s) (arg argv 1)) (\<lambda>ttl. reply_ttl e ttl s))"

subsection \<open>Commands on the skip list\<close>

definition cmd_SKSET :: "'f env \<Rightarrow> string list \<Rightarrow> string \<Rightarrow> 'f server \<Rightarrow> 'f cres" where
  "cmd_SKSET e argv raw s =
     engine_call (kvs_skiplist_set (e_mok e) (e_rnd e) (sv_skiplist s) (arg argv 1) (arg argv 2) (-1))
       (\<lambda>(ret, x). reply_set e KVS_CMD_SKSET raw ret (s\<lparr>sv_skiplist := x\<rparr>))"

definition cmd_SKGET :: "'f env \<Rightarrow> string list \<Rightarrow> string \<Rightarrow> 'f server \<Rightarrow> 'f cres" where
  "cmd_SKGET e argv raw s =
     engine_call (kvs_skiplist_get (e_now e) (sv_skiplist s) (arg argv 1))
       (\<lambda>(v, x). reply_get e v (s\<lparr>sv_skiplist := x\<rparr>))"

definition cmd_SKDEL :: "'f env \<Rightarrow> string list \<Rightarrow> string \<Rightarrow> 'f server \<Rightarrow> 'f cres" where
  "cmd_SKDEL e argv raw s =
     engine_call (kvs_skiplist_del (sv_skiplist s) (arg argv 1))
       (\<lambda>(ret, x). reply_del e KVS_CMD_SKDEL raw ret (s\<lparr>sv_skiplist := x\<rparr>))"

definition cmd_SKMOD :: "'f env \<Rightarrow> string list \<Rightarrow> string \<Rightarrow> 'f server \<Rightarrow> 'f cres" where
  "cmd_SKMOD e argv raw s =
     engine_call (kvs_skiplist_mod (e_mok e) (sv_skiplist s) (arg argv 1) (arg argv 2))
       (\<lambda>(ret, x). reply_mod e KVS_CMD_SKMOD raw ret (s\<lparr>sv_skiplist := x\<rparr>))"

definition cmd_SKEXIST :: "'f env \<Rightarrow> string list \<Rightarrow> string \<Rightarrow> 'f server \<Rightarrow> 'f cres" where
  "cmd_SKEXIST e argv raw s =
     engine_call (kvs_skiplist_exist (e_now e) (sv_skiplist s) (arg argv 1))
       (\<lambda>(ret, x). reply_exist e ret (s\<lparr>sv_skiplist := x\<rparr>))"

definition cmd_SKSETEX :: "'f env \<Rightarrow> string list \<Rightarrow> string \<Rightarrow> 'f server \<Rightarrow> 'f cres" where
  "cmd_SKSETEX e argv raw s =
     recheck_argc e 4 argv s
       (engine_call (kvs_skiplist_set (e_mok e) (e_rnd e) (sv_skiplist s) (arg argv 1) (arg argv 2)
            (expire_at (e_now e) (atoll (argv ! 3))))
         (\<lambda>(ret, x). reply_set e KVS_CMD_SKSETEX raw ret (s\<lparr>sv_skiplist := x\<rparr>)))"

definition cmd_SKEXPIRE :: "'f env \<Rightarrow> string list \<Rightarrow> string \<Rightarrow> 'f server \<Rightarrow> 'f cres" where
  "cmd_SKEXPIRE e argv raw s =
     recheck_argc e 3 argv s
       (engine_call (kvs_skiplist_expire (sv_skiplist s) (arg argv 1)
            (expire_at (e_now e) (atoll (argv ! 2))))
         (\<lambda>(ret, x). reply_expire e KVS_CMD_SKEXPIRE raw ret (s\<lparr>sv_skiplist := x\<rparr>)))"

definition cmd_SKTTL :: "'f env \<Rightarrow> string list \<Rightarrow> string \<Rightarrow> 'f server \<Rightarrow> 'f cres" where
  "cmd_SKTTL e argv raw s =
     recheck_argc e 2 argv s
       (engine_call (kvs_skiplist_ttl (e_now e) (sv_skiplist s) (arg argv 1)) (\<lambda>ttl. reply_ttl e ttl s))"

subsection \<open>Commands on the vector engine\<close>

definition cmd_VSET :: "'f env \<Rightarrow> string list \<Rightarrow> string \<Rightarrow> 'f server \<Rightarrow> 'f cres" where
  "cmd_VSET e argv raw s =
     (if length argv \<noteq> 5 then answer e 36 err_argc s
      else
        let dim = atoi (argv ! 3) in
        if dim \<le> 0 then answer e 26 (''-ERR invalid dim'' @ CRLF) s
        else engine_call
          (kvs_vector_set (e_fops e) (e_mok e) (e_now e) (sv_vector s) (arg argv 1) (arg argv 2) dim
             (arg argv 4))
          (\<lambda>(ret, x). let s' = s\<lparr>sv_vector := x\<rparr> in
             if ret < 0 then answer e 30 (''-ERR vector set failed'' @ CRLF) s'
             else answer_persist e KVS_CMD_VSET ret raw 6 ok_reply s'))"

definition bulk :: "string \<Rightarrow> string" where
  "bulk x = ''$'' @ dec (length x) @ CRLF @ x @ CRLF"

definition hit_reply :: "'f fops \<Rightarrow> 'f vresult \<Rightarrow> string" where
  "hit_reply F r = ''*3'' @ CRLF @ bulk (vr_question r) @ bulk (vr_answer r) @
     bulk (take 63 (f_print F (vr_score r)))"

definition vget_key :: "'f env \<Rightarrow> string list \<Rightarrow> 'f server \<Rightarrow> 'f cres" where
  "vget_key e argv s =
     engine_call (kvs_vector_get_by_key (sv_vector s) (arg argv 1))
       (\<lambda>found. case found of
          None \<Rightarrow> answer e 5 (''*0'' @ CRLF) s
        | Some entry \<Rightarrow>
            if ve_freed entry then Inl Memory
            else let msg = ''*2'' @ CRLF @ bulk (ve_question entry) @ bulk (ve_answer entry)
                 in answer e (length msg + 1) msg s)"

definition vget_vector :: "'f env \<Rightarrow> string list \<Rightarrow> 'f server \<Rightarrow> 'f cres" where
  "vget_vector e argv s =
     (let dim = atoi (argv ! 1) in
      if dim \<le> 0 then answer e 26 (''-ERR invalid dim'' @ CRLF) s
      else engine_call
        (kvs_vector_get_by_vector (e_fops e) (e_mok e) (sv_vector s) dim (arg argv 2)
           (f_atof (e_fops e) (argv ! 3)))
        (\<lambda>(ret, res). case res of
           Some r \<Rightarrow> let msg = hit_reply (e_fops e) r in answer e (length msg + 1) msg s
         | None \<Rightarrow>
             if ret = 0 then answer e 5 (''*0'' @ CRLF) s
             else answer e 31 (''-ERR vector get failed'' @ CRLF) s))"

definition cmd_VGET :: "'f env \<Rightarrow> string list \<Rightarrow> string \<Rightarrow> 'f server \<Rightarrow> 'f cres" where
  "cmd_VGET e argv raw s =
     (if length argv = 2 then vget_key e argv s
      else if length argv = 4 then vget_vector e argv s
      else answer e 36 err_argc s)"

definition cmd_VSEARCH :: "'f env \<Rightarrow> string list \<Rightarrow> string \<Rightarrow> 'f server \<Rightarrow> 'f cres" where
  "cmd_VSEARCH e argv raw s =
     (let dim = atoi (argv ! 1); topk = atoi (argv ! 3) in
      if dim \<le> 0 \<or> topk \<le> 0
      then kvs_reply_error e (''-ERR invalid vector search args'' @ CRLF) s
      else engine_call
        (kvs_vector_search (e_fops e) (e_mok e) (sv_vector s) dim (arg argv 2) topk
           (f_atof (e_fops e) (argv ! 4)))
        (\<lambda>(ret, results).
           if ret < 0 then answer e 34 (''-ERR vector search failed'' @ CRLF) s
           else let msg = ''*'' @ dec (length results) @ CRLF @
                      concat (map (hit_reply (e_fops e)) results)
                in answer e (length msg + 1) msg s))"

subsection \<open>Administrative commands\<close>

definition cmd_BGSAVE :: "'f env \<Rightarrow> 'f server \<Rightarrow> 'f cres" where
  "cmd_BGSAVE e s =
     (if \<not> e_fork e then answer e 22 (''-ERR bgsave failed'' @ CRLF) s else answer e 6 ok_reply s)"

definition cmd_SYNC :: "'f env \<Rightarrow> int \<Rightarrow> 'f server \<Rightarrow> 'f cres" where
  "cmd_SYNC e fd s =
     (let (rs, out) = kvs_replication_master_handle_sync (e_pok e) fd (e_peer e) (sv_replicas s)
      in Inr (0, None, s\<lparr>sv_replicas := rs, sv_io := sv_io s @ out\<rparr>))"

definition cmd_FINSYNC :: "'f env \<Rightarrow> int \<Rightarrow> 'f server \<Rightarrow> 'f cres" where
  "cmd_FINSYNC e fd s =
     (let (rs, out) = kvs_replication_master_handle_finsync fd (sv_replicas s)
      in Inr (0, None, s\<lparr>sv_replicas := rs, sv_io := sv_io s @ out\<rparr>))"

definition cmd_PING :: "'f env \<Rightarrow> 'f server \<Rightarrow> 'f cres" where
  "cmd_PING e s = answer e 7 (''+PONG'' @ CRLF) s"

subsection \<open>Dispatch\<close>

definition lookup_command :: "string \<Rightarrow> kvs_cmd option" where
  "lookup_command name =
     map_option (\<lambda>i. command_enum ! i)
       (find (\<lambda>i. strcmp name (command ! i) = 0) [0..<length command])"

primrec run_case ::
    "kvs_cmd \<Rightarrow> 'f env \<Rightarrow> int \<Rightarrow> string list \<Rightarrow> string \<Rightarrow> 'f server \<Rightarrow> 'f cres" where
  "run_case KVS_CMD_SET e fd argv raw s = cmd_SET e argv raw s"
| "run_case KVS_CMD_GET e fd argv raw s = cmd_GET e argv raw s"
| "run_case KVS_CMD_DEL e fd argv raw s = cmd_DEL e argv raw s"
| "run_case KVS_CMD_MOD e fd argv raw s = cmd_MOD e argv raw s"
| "run_case KVS_CMD_EXIST e fd argv raw s = cmd_EXIST e argv raw s"
| "run_case KVS_CMD_RSET e fd argv raw s = cmd_RSET e argv raw s"
| "run_case KVS_CMD_RGET e fd argv raw s = cmd_RGET e argv raw s"
| "run_case KVS_CMD_RDEL e fd argv raw s = cmd_RDEL e argv raw s"
| "run_case KVS_CMD_RMOD e fd argv raw s = cmd_RMOD e argv raw s"
| "run_case KVS_CMD_REXIST e fd argv raw s = cmd_REXIST e argv raw s"
| "run_case KVS_CMD_HSET e fd argv raw s = cmd_HSET e argv raw s"
| "run_case KVS_CMD_HGET e fd argv raw s = cmd_HGET e argv raw s"
| "run_case KVS_CMD_HDEL e fd argv raw s = cmd_HDEL e argv raw s"
| "run_case KVS_CMD_HMOD e fd argv raw s = cmd_HMOD e argv raw s"
| "run_case KVS_CMD_HEXIST e fd argv raw s = cmd_HEXIST e argv raw s"
| "run_case KVS_CMD_SKSET e fd argv raw s = cmd_SKSET e argv raw s"
| "run_case KVS_CMD_SKGET e fd argv raw s = cmd_SKGET e argv raw s"
| "run_case KVS_CMD_SKDEL e fd argv raw s = cmd_SKDEL e argv raw s"
| "run_case KVS_CMD_SKMOD e fd argv raw s = cmd_SKMOD e argv raw s"
| "run_case KVS_CMD_SKEXIST e fd argv raw s = cmd_SKEXIST e argv raw s"
| "run_case KVS_CMD_BGSAVE e fd argv raw s = cmd_BGSAVE e s"
| "run_case KVS_CMD_SYNC e fd argv raw s = cmd_SYNC e fd s"
| "run_case KVS_CMD_FINSYNC e fd argv raw s = cmd_FINSYNC e fd s"
| "run_case KVS_CMD_EXPIRE e fd argv raw s = cmd_EXPIRE e argv raw s"
| "run_case KVS_CMD_TTL e fd argv raw s = cmd_TTL e argv raw s"
| "run_case KVS_CMD_SETEX e fd argv raw s = cmd_SETEX e argv raw s"
| "run_case KVS_CMD_REXPIRE e fd argv raw s = cmd_REXPIRE e argv raw s"
| "run_case KVS_CMD_RTTL e fd argv raw s = cmd_RTTL e argv raw s"
| "run_case KVS_CMD_RSETEX e fd argv raw s = cmd_RSETEX e argv raw s"
| "run_case KVS_CMD_HEXPIRE e fd argv raw s = cmd_HEXPIRE e argv raw s"
| "run_case KVS_CMD_HTTL e fd argv raw s = cmd_HTTL e argv raw s"
| "run_case KVS_CMD_HSETEX e fd argv raw s = cmd_HSETEX e argv raw s"
| "run_case KVS_CMD_SKEXPIRE e fd argv raw s = cmd_SKEXPIRE e argv raw s"
| "run_case KVS_CMD_SKTTL e fd argv raw s = cmd_SKTTL e argv raw s"
| "run_case KVS_CMD_SKSETEX e fd argv raw s = cmd_SKSETEX e argv raw s"
| "run_case KVS_CMD_VSET e fd argv raw s = cmd_VSET e argv raw s"
| "run_case KVS_CMD_VGET e fd argv raw s = cmd_VGET e argv raw s"
| "run_case KVS_CMD_VSEARCH e fd argv raw s = cmd_VSEARCH e argv raw s"
| "run_case KVS_CMD_PING e fd argv raw s = cmd_PING e s"

definition kvs_execute_command ::
    "'f env \<Rightarrow> int \<Rightarrow> string list \<Rightarrow> string \<Rightarrow> 'f server \<Rightarrow> 'f cres" where
  "kvs_execute_command e fd argv0 raw s =
     (let argv = map cstr argv0 in
      if length argv < 1 then kvs_reply_error e err_argc s
      else (case lookup_command (argv ! 0) of
        None \<Rightarrow>
          let msg = ''-ERR unknown command '' @ [CHR 0x27] @ argv ! 0 @ [CHR 0x27] @ CRLF
          in answer e (length msg + 1) msg s
      | Some cmd \<Rightarrow>
          if \<not> command_argc_ok cmd (length argv) then kvs_reply_error e err_argc s
          else if sv_slave_mode s \<and> \<not> sv_replicating s \<and> is_write_command cmd
          then kvs_reply_error e (''-READONLY'' @ CRLF) s
          else run_case cmd e fd argv raw s))"

text \<open>\<open>kvs_protocol\<close>; \<open>amok\<close> are the allocations of the argument vector.\<close>

definition kvs_protocol ::
    "mallocs \<Rightarrow> 'f env \<Rightarrow> int \<Rightarrow> string \<Rightarrow> 'f server \<Rightarrow> 'f cres" where
  "kvs_protocol amok e fd msg s =
     (case resp_parse_arguments amok msg of
        ArgsOob \<Rightarrow> Inl Memory
      | ArgsErr \<Rightarrow> answer e 22 (''-ERR protocol error'' @ CRLF) s
      | ArgsOk argv \<Rightarrow> kvs_execute_command e fd argv msg s)"


subsection \<open>Reply buffers\<close>

text \<open>A result that is not a write outside the reply buffer.\<close>

definition fits :: "'f cres \<Rightarrow> bool" where
  "fits r \<longleftrightarrow> r \<noteq> Inl Overflow"

named_theorems fit_intros \<open>replies that stay inside their buffer\<close>

lemma fits_answer [fit_intros]: "length msg < cap \<Longrightarrow> fits (answer e cap msg s)"
  by (simp add: fits_def answer_def)

lemma fits_answer_persist [fit_intros]:
  "length msg < cap \<Longrightarrow> fits (answer_persist e cmd ret raw cap msg s)"
  by (simp add: fits_def answer_persist_def split: option.splits)

lemma fits_reply_error [fit_intros]: "fits (kvs_reply_error e msg s)"
  by (simp add: kvs_reply_error_def fits_answer)

lemma fits_engine_call [fit_intros]: "(\<And>x. fits (body x)) \<Longrightarrow> fits (engine_call r body)"
  by (simp add: engine_call_def fits_def split: option.splits)

lemma fits_recheck [fit_intros]: "length argv = n \<Longrightarrow> fits body \<Longrightarrow> fits (recheck_argc e n argv s body)"
  by (simp add: recheck_argc_def)

lemma fits_case_prod [fit_intros]: "(\<And>a b. fits (f a b)) \<Longrightarrow> fits (case p of (a, b) \<Rightarrow> f a b)"
  by (cases p) simp

lemma fits_if [fit_intros]: "(b \<Longrightarrow> fits x) \<Longrightarrow> (\<not> b \<Longrightarrow> fits y) \<Longrightarrow> fits (if b then x else y)"
  by simp

lemma fits_case_option [fit_intros]:
  "fits x \<Longrightarrow> (\<And>y. z = Some y \<Longrightarrow> fits (f y)) \<Longrightarrow> fits (case z of None \<Rightarrow> x | Some y \<Rightarrow> f y)"
  by (cases z) simp_all

lemma fits_fault [simp]: "fits (Inl Memory)" "fits (Inr r)"
  by (simp_all add: fits_def)

lemma fits_replies [fit_intros]:
  "fits (reply_set e cmd raw ret s)" "fits (reply_get e v s)" "fits (reply_del e cmd raw ret s)"
  "fits (reply_mod e cmd raw ret s)" "fits (reply_exist e ret s)" "fits (reply_expire e cmd raw ret s)"
  "fits (reply_ttl e ttl s)"
  unfolding reply_set_def reply_get_def reply_del_def reply_mod_def reply_exist_def reply_expire_def
    reply_ttl_def Let_def
  by (cases v; (intro fit_intros; simp)?; simp)+

lemmas engine_case_defs =
  cmd_SET_def cmd_GET_def cmd_DEL_def cmd_MOD_def cmd_EXIST_def cmd_SETEX_def cmd_EXPIRE_def cmd_TTL_def
  cmd_RSET_def cmd_RGET_def cmd_RDEL_def cmd_RMOD_def cmd_REXIST_def cmd_RSETEX_def cmd_REXPIRE_def
  cmd_RTTL_def
  cmd_HSET_def cmd_HGET_def cmd_HDEL_def cmd_HMOD_def cmd_HEXIST_def cmd_HSETEX_def cmd_HEXPIRE_def
  cmd_HTTL_def
  cmd_SKSET_def cmd_SKGET_def cmd_SKDEL_def cmd_SKMOD_def cmd_SKEXIST_def cmd_SKSETEX_def
  cmd_SKEXPIRE_def cmd_SKTTL_def

lemmas other_case_defs =
  cmd_VSET_def cmd_VGET_def vget_key_def vget_vector_def cmd_VSEARCH_def cmd_BGSAVE_def cmd_SYNC_def
  cmd_FINSYNC_def

lemma run_case_fits:
  assumes "cmd \<noteq> KVS_CMD_PING" "command_argc_ok cmd (length argv)"
  shows "fits (run_case cmd e fd argv raw s)"
  using assms
  by (cases cmd; simp only: run_case.simps engine_case_defs other_case_defs Let_def;
      (intro fit_intros)?; simp add: command_argc_ok_def meta_def)

lemma lookup_name: "lookup_command ''PING'' = Some KVS_CMD_PING"
  by code_simp





subsection \<open>Logging\<close>

text \<open>The ring after the request has been appended to it.\<close>

definition log_ring :: "'f env \<Rightarrow> string \<Rightarrow> 'f server \<Rightarrow> aof_ring" where
  "log_ring e raw s = (case kvs_persistence_append (sv_loading s) (sv_appendonly s) (e_aok e)
     (sv_ring s) (Some raw) (int (length raw)) of None \<Rightarrow> sv_ring s | Some (_, ring) \<Rightarrow> ring)"

definition acknowledged :: "string \<Rightarrow> bool" where
  "acknowledged out \<longleftrightarrow> out = ok_reply \<or> out = '':1'' @ CRLF"

text \<open>What a reply does to the ring: a write logs the request exactly when it acknowledges it.\<close>

definition logs :: "kvs_cmd \<Rightarrow> 'f env \<Rightarrow> string \<Rightarrow> 'f server \<Rightarrow> 'f cres \<Rightarrow> bool" where
  "logs cmd e raw s res \<longleftrightarrow> (\<forall>r out s'. res = Inr (r, Some out, s') \<longrightarrow>
     sv_ring s' = (if is_write_command cmd \<and> acknowledged out then log_ring e raw s else sv_ring s))"

definition same_log :: "'f server \<Rightarrow> 'f server \<Rightarrow> bool" where
  "same_log s t \<longleftrightarrow> sv_ring t = sv_ring s \<and> sv_loading t = sv_loading s \<and>
     sv_appendonly t = sv_appendonly s"

definition fits_int :: "string \<Rightarrow> bool" where
  "fits_int raw \<longleftrightarrow> raw \<noteq> [] \<and> length raw < 2 ^ 31"

named_theorems log_intros \<open>the effect of replies on the log\<close>

lemma same_log_engines [simp]:
  "same_log s (s\<lparr>sv_array := a\<rparr>)" "same_log s (s\<lparr>sv_rbtree := t\<rparr>)" "same_log s (s\<lparr>sv_hash := h\<rparr>)"
  "same_log s (s\<lparr>sv_skiplist := k\<rparr>)" "same_log s (s\<lparr>sv_vector := v\<rparr>)" "same_log s s"
  by (simp_all add: same_log_def)

lemma logs_answer:
  "same_log s t \<Longrightarrow> \<not> is_write_command cmd \<or> \<not> acknowledged msg \<Longrightarrow> logs cmd e raw s (answer e cap msg t)"
  by (auto simp: logs_def answer_def same_log_def)

lemma logs_answer_persist:
  assumes "same_log s t" "fits_int raw" "is_write_command cmd" "persist_on_success (command_meta cmd)"
    "command_result_changed_data cmd ret \<longleftrightarrow> acknowledged msg"
  shows "logs cmd e raw s (answer_persist e cmd ret raw cap msg t)"
proof -
  have len: "int_wrap (int (length raw)) = int (length raw)" "raw \<noteq> []"
    using assms(2) by (auto simp: fits_int_def in_int_def)
  show ?thesis
    using assms unfolding logs_def answer_persist_def persist_command_if_changed_def log_ring_def
      same_log_def len(1)
    by (auto simp: Let_def len split: option.splits)
qed

definition set_like :: "kvs_cmd \<Rightarrow> bool" where
  "set_like cmd \<longleftrightarrow> is_write_command cmd \<and> persist_on_success (command_meta cmd) \<and>
     (\<forall>ret. command_result_changed_data cmd ret \<longleftrightarrow> 0 \<le> ret)"

definition del_like :: "kvs_cmd \<Rightarrow> bool" where
  "del_like cmd \<longleftrightarrow> is_write_command cmd \<and> persist_on_success (command_meta cmd) \<and>
     (\<forall>ret. command_result_changed_data cmd ret \<longleftrightarrow> ret = 0)"

lemma set_like [simp]:
  "set_like KVS_CMD_SET" "set_like KVS_CMD_RSET" "set_like KVS_CMD_HSET" "set_like KVS_CMD_SKSET"
  "set_like KVS_CMD_SETEX" "set_like KVS_CMD_RSETEX" "set_like KVS_CMD_HSETEX"
  "set_like KVS_CMD_SKSETEX" "set_like KVS_CMD_VSET"
  by (auto simp: set_like_def is_write_command_def meta_def command_result_changed_data_def)

lemma del_like [simp]:
  "del_like KVS_CMD_DEL" "del_like KVS_CMD_RDEL" "del_like KVS_CMD_HDEL" "del_like KVS_CMD_SKDEL"
  "del_like KVS_CMD_MOD" "del_like KVS_CMD_RMOD" "del_like KVS_CMD_HMOD" "del_like KVS_CMD_SKMOD"
  "del_like KVS_CMD_EXPIRE" "del_like KVS_CMD_REXPIRE" "del_like KVS_CMD_HEXPIRE"
  "del_like KVS_CMD_SKEXPIRE"
  by (auto simp: del_like_def is_write_command_def meta_def command_result_changed_data_def)

lemma logs_reply_set [log_intros]:
  "same_log s t \<Longrightarrow> fits_int raw \<Longrightarrow> set_like cmd \<Longrightarrow> logs cmd e raw s (reply_set e cmd raw ret t)"
  unfolding reply_set_def set_like_def by (cases "ret < 0") (simp_all add: logs_answer_persist acknowledged_def)

lemma logs_reply_del [log_intros]:
  "same_log s t \<Longrightarrow> fits_int raw \<Longrightarrow> del_like cmd \<Longrightarrow> logs cmd e raw s (reply_del e cmd raw ret t)"
  unfolding reply_del_def del_like_def by (cases "ret < 0"; cases "ret = 0") (simp_all add: logs_answer_persist acknowledged_def)

lemma logs_reply_mod [log_intros]:
  "same_log s t \<Longrightarrow> fits_int raw \<Longrightarrow> del_like cmd \<Longrightarrow> logs cmd e raw s (reply_mod e cmd raw ret t)"
  unfolding reply_mod_def del_like_def by (cases "ret < 0"; cases "ret = 0") (simp_all add: logs_answer_persist acknowledged_def)

lemma logs_reply_expire [log_intros]:
  "same_log s t \<Longrightarrow> fits_int raw \<Longrightarrow> del_like cmd \<Longrightarrow> logs cmd e raw s (reply_expire e cmd raw ret t)"
  unfolding reply_expire_def del_like_def by (cases "ret = 0"; cases "ret = 1") (simp_all add: logs_answer_persist acknowledged_def)

lemma logs_reads [log_intros]:
  assumes "same_log s t" "\<not> is_write_command cmd"
  shows "logs cmd e raw s (reply_get e v t)" "logs cmd e raw s (reply_exist e ret t)"
    "logs cmd e raw s (reply_ttl e ttl t)" "logs cmd e raw s (answer e cap msg t)"
    "logs cmd e raw s (kvs_reply_error e msg t)"
  using assms
  by (auto simp: reply_get_def reply_exist_def reply_ttl_def kvs_reply_error_def Let_def logs_answer
      split: vptr.splits) (simp add: logs_def)

lemma logs_structure [log_intros]:
  "(\<And>x. logs cmd e raw s (body x)) \<Longrightarrow> logs cmd e raw s (engine_call r body)"
  "(\<And>a b. logs cmd e raw s (f a b)) \<Longrightarrow> logs cmd e raw s (case p of (a, b) \<Rightarrow> f a b)"
  "(b \<Longrightarrow> logs cmd e raw s x) \<Longrightarrow> (\<not> b \<Longrightarrow> logs cmd e raw s y) \<Longrightarrow> logs cmd e raw s (if b then x else y)"
  "logs cmd e raw s x0 \<Longrightarrow> (\<And>y. z = Some y \<Longrightarrow> logs cmd e raw s (g y)) \<Longrightarrow>
     logs cmd e raw s (case z of None \<Rightarrow> x0 | Some y \<Rightarrow> g y)"
  "logs cmd e raw s res \<Longrightarrow> logs cmd e raw s (recheck_argc e n argv s res)"
  by (auto simp: engine_call_def recheck_argc_def split: option.splits prod.splits intro!: logs_answer)
    (auto simp: logs_def acknowledged_def)

lemma logs_fault [simp]: "logs cmd e raw s (Inl x)" "logs cmd e raw s (Inr (r, None, t))"
  by (simp_all add: logs_def)

lemma VSET_logs: "fits_int raw \<Longrightarrow> logs KVS_CMD_VSET e raw s (cmd_VSET e argv raw s)"
  unfolding cmd_VSET_def Let_def
  by (intro logs_structure logs_answer logs_answer_persist)
    (simp_all add: acknowledged_def is_write_command_def meta_def command_result_changed_data_def)

lemma run_case_logs:
  assumes "fits_int raw"
  shows "logs cmd e raw s (run_case cmd e fd argv raw s)"
proof (cases "cmd = KVS_CMD_VSET")
  case False
  with assms show ?thesis
    by (cases cmd; simp only: run_case.simps engine_case_defs other_case_defs cmd_PING_def Let_def;
        (intro log_intros)?; simp add: is_write_command_def meta_def)
qed (simp add: VSET_logs assms)

lemma kvs_execute_command_cases:
  assumes "argv \<noteq> []" "lookup_command (cstr (argv ! 0)) = Some cmd"
  shows "kvs_execute_command e fd argv raw s =
    (if \<not> command_argc_ok cmd (length argv) then kvs_reply_error e err_argc s
     else if sv_slave_mode s \<and> \<not> sv_replicating s \<and> is_write_command cmd
     then kvs_reply_error e (''-READONLY'' @ CRLF) s
     else run_case cmd e fd (map cstr argv) raw s)"
  using assms by (simp add: kvs_execute_command_def Let_def Suc_le_eq)


text \<open>A server as \<open>main\<close> starts it, with an append-only file.\<close>

definition booted :: "int server" where
  "booted = snd (init_kvengine (\<lambda>_. all_ok) (\<lambda>_. Some []) (zero_server
     \<lparr>sv_appendonly := True, sv_ring := snd (aof_ring_init all_ok 0 zero_ring)\<rparr>))"

lemma booted_simps:
  "sv_array booted = zero_array\<lparr>table_alloc := True\<rparr>" "sv_appendonly booted" "\<not> sv_loading booted" "\<not> sv_slave_mode booted"
  "sv_ring booted = snd (aof_ring_init all_ok 0 zero_ring)"
  by (simp_all add: booted_def init_kvengine_def kvs_array_create_def zero_array_def zero_server_def
      kvs_rbtree_create_def kvs_hash_create_def kvs_skiplist_create_def kvs_vector_create_def Let_def
      skiplist_new_node_def split: prod.splits)

lemma booted_set:
  assumes "fits_int raw"
  shows "\<exists>r s'. kvs_execute_command (calm_env int_fops 0) fd [''SET'', ''k'', ''v''] raw booted =
     Inr (r, Some ok_reply, s')"
proof -
  let ?argv = "[''SET'', ''k'', ''v'']"
  have l: "lookup_command (cstr (?argv ! 0)) = Some KVS_CMD_SET" by code_simp
  have m: "map cstr ?argv = ?argv" "command_argc_ok KVS_CMD_SET (length ?argv)" by code_simp+
  have len: "int_wrap (int (length raw)) = int (length raw)" "raw \<noteq> []"
    using assms by (auto simp: fits_int_def in_int_def)
  have "\<exists>r s'. run_case KVS_CMD_SET (calm_env int_fops 0) fd ?argv raw booted = Inr (r, Some ok_reply, s')"
    using len(2)
    by (simp add: booted_simps cmd_SET_def kvs_array_set_def arg_def array_find_def KVS_ARRAY_SIZE_def
        zero_array_def reply_set_def answer_persist_def persist_command_if_changed_def calm_env_def Let_def
        kvs_persistence_append_def aof_ring_init_def AOF_RING_CAPACITY_def zero_ring_def len(1))
  then show ?thesis
    by (subst kvs_execute_command_cases [OF _ l]) (simp_all only: m booted_simps, simp_all)
qed


text \<open>C29: A replica that is not applying its master's stream answers every write command with
  an error and changes nothing.\<close>

theorem replica_read_only:
  assumes "argv \<noteq> []" "lookup_command (cstr (argv ! 0)) = Some cmd" "is_write_command cmd"
    "sv_slave_mode s" "\<not> sv_replicating s" "e_rok e"
  shows "kvs_execute_command e fd argv raw s =
    (let msg = (if command_argc_ok cmd (length argv) then ''-READONLY'' @ CRLF else err_argc)
     in Inr (int (length msg), Some msg, s))"
  using assms(3-) unfolding kvs_execute_command_cases [OF assms(1,2)]
  by (simp add: kvs_reply_error_def answer_def)

theorem replica_read_only_witness:
  "kvs_execute_command (calm_env int_fops 0) 0 [''DEL'', ''k''] [] (zero_server\<lparr>sv_slave_mode := True\<rparr>) =
     Inr (11, Some (''-READONLY'' @ CRLF), zero_server\<lparr>sv_slave_mode := True\<rparr>)"
proof -
  have "lookup_command (cstr ''DEL'') = Some KVS_CMD_DEL" "is_write_command KVS_CMD_DEL"
    "command_argc_ok KVS_CMD_DEL (Suc (Suc 0))" by code_simp+
  then show ?thesis
    using replica_read_only [of "[''DEL'', ''k'']" KVS_CMD_DEL "zero_server\<lparr>sv_slave_mode := True\<rparr>"
        "calm_env int_fops 0" 0 "[]"]
    by (simp add: calm_env_def zero_server_def)
qed

end
