(* ===== verification/KVS_RBShape.thy ===== *)
theory KVS_RBShape
  imports KVS_RBTree
begin

text \<open>
  The shape of the pointer tree of \<open>kvs_rbtree.c\<close>. A \<open>ptree\<close> is the tree of node addresses
  and colours that the pointers span; a list of frames is the path from a node up to the
  root. \<open>rep\<close> and \<open>crep\<close> relate them to the heap, and the assignments and rotations of the
  code become operations on the focus of such a path.
\<close>

subsection \<open>Trees of addresses and paths in them\<close>

datatype ptree = Lf | Nd ptree addr rb_color ptree

datatype frame = FL addr rb_color ptree | FR ptree addr rb_color

primrec addrs :: "ptree \<Rightarrow> addr list" where
  "addrs Lf = []"
| "addrs (Nd l a c r) = addrs l @ a # addrs r"

primrec plug1 :: "frame \<Rightarrow> ptree \<Rightarrow> ptree" where
  "plug1 (FL a c r) t = Nd t a c r"
| "plug1 (FR l a c) t = Nd l a c t"

primrec plug :: "frame list \<Rightarrow> ptree \<Rightarrow> ptree" where
  "plug [] t = t"
| "plug (f # k) t = plug k (plug1 f t)"

primrec faddr :: "frame \<Rightarrow> addr" where
  "faddr (FL a c r) = a"
| "faddr (FR l a c) = a"

primrec fcolor :: "frame \<Rightarrow> rb_color" where
  "fcolor (FL a c r) = c"
| "fcolor (FR l a c) = c"

primrec before1 :: "frame \<Rightarrow> addr list" where
  "before1 (FL a c r) = []"
| "before1 (FR l a c) = addrs l @ [a]"

primrec after1 :: "frame \<Rightarrow> addr list" where
  "after1 (FL a c r) = a # addrs r"
| "after1 (FR l a c) = []"

text \<open>The addresses left and right of the focus, in the order of the tree.\<close>

primrec before :: "frame list \<Rightarrow> addr list" where
  "before [] = []"
| "before (f # k) = before k @ before1 f"

primrec after :: "frame list \<Rightarrow> addr list" where
  "after [] = []"
| "after (f # k) = after1 f @ after k"

lemma addrs_plug1: "addrs (plug1 f t) = before1 f @ addrs t @ after1 f"
  by (cases f) auto

lemma addrs_plug: "addrs (plug k t) = before k @ addrs t @ after k"
  by (induction k arbitrary: t) (auto simp: addrs_plug1)

primrec caddrs :: "frame list \<Rightarrow> addr set" where
  "caddrs [] = {}"
| "caddrs (f # k) = set (before1 f) \<union> set (after1 f) \<union> caddrs k"

lemma caddrs_eq: "caddrs k = set (before k) \<union> set (after k)"
  by (induction k) auto

lemma faddr_in: "faddr f \<in> set (before1 f) \<union> set (after1 f)"
  by (cases f) auto

subsection \<open>Representation in the heap\<close>

primrec rep :: "'v rbtree \<Rightarrow> ptree \<Rightarrow> addr \<Rightarrow> addr \<Rightarrow> bool" where
  "rep T Lf p par \<longleftrightarrow> p = rb_nil T"
| "rep T (Nd l a c r) p par \<longleftrightarrow> p = a \<and> a \<noteq> rb_nil T \<and> rb_color T a = c \<and> rb_parent T a = par \<and>
     rep T l (rb_left T a) a \<and> rep T r (rb_right T a) a"

definition cpar :: "'v rbtree \<Rightarrow> frame list \<Rightarrow> addr" where
  "cpar T k = (case k of [] \<Rightarrow> rb_nil T | f # _ \<Rightarrow> faddr f)"

lemma cpar_simps [simp]: "cpar T [] = rb_nil T" "cpar T (f # k) = faddr f"
  by (simp_all add: cpar_def)

primrec frep :: "'v rbtree \<Rightarrow> frame \<Rightarrow> addr \<Rightarrow> bool" where
  "frep T (FL a c r) p \<longleftrightarrow> a \<noteq> rb_nil T \<and> rb_color T a = c \<and> rb_left T a = p \<and>
     rep T r (rb_right T a) a"
| "frep T (FR l a c) p \<longleftrightarrow> a \<noteq> rb_nil T \<and> rb_color T a = c \<and> rb_right T a = p \<and>
     rep T l (rb_left T a) a"

primrec crep :: "'v rbtree \<Rightarrow> frame list \<Rightarrow> addr \<Rightarrow> bool" where
  "crep T [] p \<longleftrightarrow> rb_root T = p"
| "crep T (f # k) p \<longleftrightarrow> frep T f p \<and> rb_parent T (faddr f) = cpar T k \<and> crep T k (faddr f)"

text \<open>The pointer \<open>p\<close> is at tree \<open>t\<close> below the path \<open>k\<close>.\<close>

definition foc :: "'v rbtree \<Rightarrow> frame list \<Rightarrow> ptree \<Rightarrow> addr \<Rightarrow> bool" where
  "foc T k t p \<longleftrightarrow> rep T t p (cpar T k) \<and> crep T k p"

lemma foc_up: "foc T (f # k) t p \<longleftrightarrow> foc T k (plug1 f t) (faddr f) \<and>
    p = (case f of FL a c r \<Rightarrow> rb_left T a | FR l a c \<Rightarrow> rb_right T a)"
  by (cases f) (auto simp: foc_def)

lemma foc_root: "foc T k t p \<Longrightarrow> rep T (plug k t) (rb_root T) (rb_nil T)"
proof (induction k arbitrary: t p)
  case Nil
  then show ?case by (simp add: foc_def)
next
  case (Cons f k)
  then have "foc T k (plug1 f t) (faddr f)" by (simp add: foc_up)
  then show ?case by (simp add: Cons.IH)
qed

lemma root_foc: "rep T (plug k t) (rb_root T) (rb_nil T) \<Longrightarrow> \<exists>p. foc T k t p"
proof (induction k arbitrary: t)
  case Nil
  then show ?case by (simp add: foc_def)
next
  case (Cons f k)
  then obtain p where "foc T k (plug1 f t) p" by auto
  then have "foc T k (plug1 f t) (faddr f)" by (cases f) (auto simp: foc_def)
  then show ?case by (auto simp: foc_up)
qed

lemma foc_focus: "foc T k (Nd l a c r) p \<Longrightarrow> p = a" "foc T k Lf p \<Longrightarrow> p = rb_nil T"
  by (simp_all add: foc_def)

subsection \<open>Changes outside the represented part\<close>

definition agree_on :: "addr set \<Rightarrow> 'v rbtree \<Rightarrow> 'v rbtree \<Rightarrow> bool" where
  "agree_on A T T' \<longleftrightarrow> rb_nil T' = rb_nil T \<and> (\<forall>a \<in> A. rb_color T' a = rb_color T a \<and>
     rb_left T' a = rb_left T a \<and> rb_right T' a = rb_right T a \<and> rb_parent T' a = rb_parent T a)"

lemma agree_on_mono: "agree_on A T T' \<Longrightarrow> B \<subseteq> A \<Longrightarrow> agree_on B T T'"
  by (auto simp: agree_on_def)

lemma rep_agree: "rep T t p par \<Longrightarrow> agree_on (set (addrs t)) T T' \<Longrightarrow> rep T' t p par"
proof (induction t arbitrary: p par)
  case (Nd l a c r)
  then have "agree_on (set (addrs l)) T T'" "agree_on (set (addrs r)) T T'"
    by (auto simp: agree_on_def)
  with Nd show ?case by (auto simp: agree_on_def)
qed (simp add: agree_on_def)

lemma frep_agree: "frep T f p \<Longrightarrow> agree_on (set (before1 f) \<union> set (after1 f)) T T' \<Longrightarrow> frep T' f p"
proof (cases f)
  case (FL a c r)
  moreover assume f: "frep T f p" and ag: "agree_on (set (before1 f) \<union> set (after1 f)) T T'"
  moreover have "rep T' r (rb_right T a) a"
    by (rule rep_agree [OF _ agree_on_mono [OF ag]]) (use f FL in auto)
  ultimately show ?thesis by (auto simp: agree_on_def)
next
  case (FR l a c)
  moreover assume f: "frep T f p" and ag: "agree_on (set (before1 f) \<union> set (after1 f)) T T'"
  moreover have "rep T' l (rb_left T a) a"
    by (rule rep_agree [OF _ agree_on_mono [OF ag]]) (use f FR in auto)
  ultimately show ?thesis by (auto simp: agree_on_def)
qed

lemma crep_agree:
  "crep T k p \<Longrightarrow> agree_on (caddrs k) T T' \<Longrightarrow> rb_root T' = rb_root T \<Longrightarrow> crep T' k p"
proof (induction k arbitrary: p)
  case (Cons f k)
  then have "agree_on (set (before1 f) \<union> set (after1 f)) T T'" "agree_on (caddrs k) T T'"
    by (auto elim: agree_on_mono)
  moreover have "rb_parent T' (faddr f) = rb_parent T (faddr f)" "cpar T' k = cpar T k"
    using Cons.prems(2) faddr_in [of f] by (auto simp: agree_on_def cpar_def split: list.splits)
  ultimately show ?case using Cons frep_agree by auto
qed simp

lemma foc_agree:
  "foc T k t p \<Longrightarrow> agree_on (set (addrs t) \<union> caddrs k) T T' \<Longrightarrow> rb_root T' = rb_root T \<Longrightarrow> foc T' k t p"
proof -
  assume f: "foc T k t p" and ag: "agree_on (set (addrs t) \<union> caddrs k) T T'" and r: "rb_root T' = rb_root T"
  have "rep T' t p (cpar T k)" by (rule rep_agree [OF _ agree_on_mono [OF ag]]) (use f in \<open>auto simp: foc_def\<close>)
  moreover have "crep T' k p"
    by (rule crep_agree [OF _ agree_on_mono [OF ag] r]) (use f in \<open>auto simp: foc_def\<close>)
  moreover have "cpar T' k = cpar T k" using ag by (simp add: agree_on_def cpar_def split: list.splits)
  ultimately show ?thesis by (simp add: foc_def)
qed

lemma agree_on_refl [simp]: "agree_on A T T"
  by (simp add: agree_on_def)

lemma agree_on_trans: "agree_on A T U \<Longrightarrow> agree_on A U V \<Longrightarrow> agree_on A T V"
  by (simp add: agree_on_def)

lemma agree_on_assign [simp]:
  "p \<notin> A \<Longrightarrow> agree_on A T (set_color p c U) \<longleftrightarrow> agree_on A T U"
  "p \<notin> A \<Longrightarrow> agree_on A T (set_left p q U) \<longleftrightarrow> agree_on A T U"
  "p \<notin> A \<Longrightarrow> agree_on A T (set_right p q U) \<longleftrightarrow> agree_on A T U"
  "p \<notin> A \<Longrightarrow> agree_on A T (set_parent p q U) \<longleftrightarrow> agree_on A T U"
  "agree_on A T (set_root q U) \<longleftrightarrow> agree_on A T U"
  by (auto simp: agree_on_def set_color_def set_left_def set_right_def set_parent_def set_root_def)

text \<open>The fields an assignment leaves alone.\<close>

lemma assign_fields [simp]:
  "rb_nil (set_color p c T) = rb_nil T" "rb_nil (set_left p q T) = rb_nil T"
  "rb_nil (set_right p q T) = rb_nil T" "rb_nil (set_parent p q T) = rb_nil T"
  "rb_nil (set_root q T) = rb_nil T"
  "rb_root (set_color p c T) = rb_root T" "rb_root (set_left p q T) = rb_root T"
  "rb_root (set_right p q T) = rb_root T" "rb_root (set_parent p q T) = rb_root T"
  "rb_root (set_root q T) = q"
  "rb_color (set_color p c T) = (rb_color T)(p := c)" "rb_color (set_left p q T) = rb_color T"
  "rb_color (set_right p q T) = rb_color T" "rb_color (set_parent p q T) = rb_color T"
  "rb_color (set_root q T) = rb_color T"
  "rb_left (set_color p c T) = rb_left T" "rb_left (set_left p q T) = (rb_left T)(p := q)"
  "rb_left (set_right p q T) = rb_left T" "rb_left (set_parent p q T) = rb_left T"
  "rb_left (set_root q T) = rb_left T"
  "rb_right (set_color p c T) = rb_right T" "rb_right (set_left p q T) = rb_right T"
  "rb_right (set_right p q T) = (rb_right T)(p := q)" "rb_right (set_parent p q T) = rb_right T"
  "rb_right (set_root q T) = rb_right T"
  "rb_parent (set_color p c T) = rb_parent T" "rb_parent (set_left p q T) = rb_parent T"
  "rb_parent (set_right p q T) = rb_parent T" "rb_parent (set_parent p q T) = (rb_parent T)(p := q)"
  "rb_parent (set_root q T) = rb_parent T"
  by (simp_all add: set_color_def set_left_def set_right_def set_parent_def set_root_def)

text \<open>Everything that is not a pointer, a colour or the root.\<close>

definition same_payload :: "'v rbtree \<Rightarrow> 'v rbtree \<Rightarrow> bool" where
  "same_payload T T' \<longleftrightarrow> rb_nil T' = rb_nil T \<and> rb_key T' = rb_key T \<and> rb_value T' = rb_value T \<and>
     rb_expire T' = rb_expire T \<and> rb_live T' = rb_live T \<and> rb_next T' = rb_next T"

lemma same_payload_refl [simp]: "same_payload T T"
  by (simp add: same_payload_def)

lemma same_payload_trans: "same_payload T U \<Longrightarrow> same_payload U V \<Longrightarrow> same_payload T V"
  by (simp add: same_payload_def)

lemma same_payload_assign [simp]:
  "same_payload T (set_color p c U) \<longleftrightarrow> same_payload T U"
  "same_payload T (set_left p q U) \<longleftrightarrow> same_payload T U"
  "same_payload T (set_right p q U) \<longleftrightarrow> same_payload T U"
  "same_payload T (set_parent p q U) \<longleftrightarrow> same_payload T U"
  "same_payload T (set_root q U) \<longleftrightarrow> same_payload T U"
  by (simp_all add: same_payload_def set_color_def set_left_def set_right_def set_parent_def set_root_def)

subsection \<open>Recolouring\<close>

primrec recol :: "addr \<Rightarrow> rb_color \<Rightarrow> ptree \<Rightarrow> ptree" where
  "recol p c Lf = Lf"
| "recol p c (Nd l a d r) = Nd (recol p c l) a (if a = p then c else d) (recol p c r)"

lemma recol_notin [simp]: "p \<notin> set (addrs t) \<Longrightarrow> recol p c t = t"
  by (induction t) auto

lemma rep_set_color: "rep T t q par \<Longrightarrow> rep (set_color p c T) (recol p c t) q par"
  by (induction t arbitrary: q par) auto

lemma foc_set_color:
  assumes "foc T k t q" "p \<notin> caddrs k"
  shows "foc (set_color p c T) k (recol p c t) q"
proof -
  have "crep (set_color p c T) k q"
    by (rule crep_agree [of T]) (use assms in \<open>auto simp: foc_def\<close>)
  then show ?thesis using assms rep_set_color [of T t q "cpar T k" p c]
    by (simp add: foc_def cpar_def split: list.splits)
qed

subsection \<open>Redirecting the pointer to the focus\<close>

definition relink :: "frame list \<Rightarrow> addr \<Rightarrow> 'v rbtree \<Rightarrow> 'v rbtree" where
  "relink k q T = (case k of [] \<Rightarrow> set_root q T
     | FL a c r # _ \<Rightarrow> set_left a q T | FR l a c # _ \<Rightarrow> set_right a q T)"

lemma relink_fields [simp]:
  "rb_nil (relink k q T) = rb_nil T" "rb_color (relink k q T) = rb_color T"
  "rb_parent (relink k q T) = rb_parent T" "same_payload T (relink k q U) = same_payload T U"
  by (simp_all add: relink_def split: list.splits frame.splits)

lemma relink_agree [simp]: "A \<inter> caddrs k = {} \<Longrightarrow> agree_on A T (relink k q U) \<longleftrightarrow> agree_on A T U"
  by (auto simp: relink_def split: list.splits frame.splits)

lemma relink_other [simp]:
  "p \<notin> caddrs k \<Longrightarrow> rb_left (relink k q T) p = rb_left T p"
  "p \<notin> caddrs k \<Longrightarrow> rb_right (relink k q T) p = rb_right T p"
  by (auto simp: relink_def split: list.splits frame.splits)

definition path_ok :: "frame list \<Rightarrow> bool" where
  "path_ok k \<longleftrightarrow> distinct (before k @ after k)"

lemma crep_relink:
  assumes "crep T k p" "path_ok k"
  shows "crep (relink k q T) k q"
proof (cases k)
  case Nil
  then show ?thesis by (simp add: relink_def)
next
  case (Cons f k')
  have out: "faddr f \<notin> caddrs k'"
    using assms(2) Cons faddr_in [of f] by (auto simp: path_ok_def caddrs_eq)
  let ?U = "relink k q T"
  have ag: "agree_on (caddrs k') T ?U" and root: "rb_root ?U = rb_root T"
    using Cons out by (auto simp: relink_def split: frame.splits)
  have "crep T k' (faddr f)" using assms(1) Cons by simp
  then have "crep ?U k' (faddr f)" by (rule crep_agree [OF _ ag root])
  moreover have "frep ?U f q"
  proof (cases f)
    case (FL a c r)
    have "rep T r (rb_right T a) a" using assms(1) Cons FL by simp
    moreover have "a \<notin> set (addrs r)" using assms(2) Cons FL by (auto simp: path_ok_def)
    ultimately show ?thesis
      using assms(1) Cons FL rep_agree [of T r "rb_right T a" a ?U] by (simp add: relink_def)
  next
    case (FR l a c)
    have "rep T l (rb_left T a) a" using assms(1) Cons FR by simp
    moreover have "a \<notin> set (addrs l)" using assms(2) Cons FR by (auto simp: path_ok_def)
    ultimately show ?thesis
      using assms(1) Cons FR rep_agree [of T l "rb_left T a" a ?U] by (simp add: relink_def)
  qed
  moreover have "cpar ?U k' = cpar T k'" by (simp add: cpar_def split: list.splits)
  ultimately show ?thesis using assms(1) Cons by simp
qed

lemma rep_root_in: "rep T t p par \<Longrightarrow> p = rb_nil T \<or> p \<in> set (addrs t)"
  by (cases t) auto

lemma rep_not_nil: "rep T t p par \<Longrightarrow> rb_nil T \<notin> set (addrs t)"
  by (induction t arbitrary: p par) auto

text \<open>Which child of its parent the focus is can be read off the pointers.\<close>

lemma focus_side:
  assumes f: "foc T (fr # k) t x" and x: "x \<noteq> rb_nil T" and d: "distinct (addrs (plug (fr # k) t))"
  shows "case fr of FL a ca s \<Rightarrow> rb_left T a = x \<and> rb_right T a \<noteq> x
    | FR s a ca \<Rightarrow> rb_right T a = x \<and> rb_left T a \<noteq> x"
proof (cases fr)
  case (FL a ca s)
  then have "rb_left T a = x" "rep T s (rb_right T a) a" "rep T t x a" using f by (auto simp: foc_def)
  moreover have "set (addrs t) \<inter> set (addrs s) = {}" using d FL by (auto simp: addrs_plug)
  ultimately show ?thesis using FL x rep_root_in [of T s] rep_root_in [of T t] by fastforce
next
  case (FR s a ca)
  then have "rb_right T a = x" "rep T s (rb_left T a) a" "rep T t x a" using f by (auto simp: foc_def)
  moreover have "set (addrs t) \<inter> set (addrs s) = {}" using d FR by (auto simp: addrs_plug)
  ultimately show ?thesis using FR x rep_root_in [of T s] rep_root_in [of T t] by fastforce
qed

text \<open>How the code redirects: it compares the node with its parent's left child.\<close>

lemma relink_code:
  assumes f: "foc T k t x" and x: "x \<noteq> rb_nil T" and d: "distinct (addrs (plug k t))"
  shows "(if cpar T k = rb_nil T then set_root q U
     else if x = rb_left T (cpar T k) then set_left (cpar T k) q U
     else set_right (cpar T k) q U) = relink k q U"
    "(if cpar T k = rb_nil T then set_root q U
     else if x = rb_right T (cpar T k) then set_right (cpar T k) q U
     else set_left (cpar T k) q U) = relink k q U"
proof -
  have "(if cpar T k = rb_nil T then set_root q U
     else if x = rb_left T (cpar T k) then set_left (cpar T k) q U
     else set_right (cpar T k) q U) = relink k q U \<and>
    (if cpar T k = rb_nil T then set_root q U
     else if x = rb_right T (cpar T k) then set_right (cpar T k) q U
     else set_left (cpar T k) q U) = relink k q U"
  proof (cases k)
    case (Cons fr k')
    have "faddr fr \<noteq> rb_nil T" using f Cons by (cases fr) (auto simp: foc_def)
    then show ?thesis
      using Cons focus_side [OF f [unfolded Cons] x d [unfolded Cons]]
      by (auto simp: relink_def split: frame.splits)
  qed (simp add: relink_def)
  then show "(if cpar T k = rb_nil T then set_root q U
     else if x = rb_left T (cpar T k) then set_left (cpar T k) q U
     else set_right (cpar T k) q U) = relink k q U"
    "(if cpar T k = rb_nil T then set_root q U
     else if x = rb_right T (cpar T k) then set_right (cpar T k) q U
     else set_left (cpar T k) q U) = relink k q U"
    by blast+
qed

subsection \<open>Rotations\<close>

lemma rep_reparent:
  assumes "rep T t p par" "distinct (addrs t)"
  shows "rep (if p \<noteq> rb_nil T then set_parent p q T else T) t p q"
proof (cases t)
  case (Nd l a c r)
  then have "rep T l (rb_left T a) a" "rep T r (rb_right T a) a" "p = a" "a \<noteq> rb_nil T"
    using assms(1) by auto
  moreover have "a \<notin> set (addrs l)" "a \<notin> set (addrs r)" using assms(2) Nd by auto
  ultimately show ?thesis
    using assms(1) Nd rep_agree [of T l "rb_left T a" a "set_parent a q T"]
      rep_agree [of T r "rb_right T a" a "set_parent a q T"] by simp
qed (use assms in simp)

text \<open>What a rotation at \<open>x\<close> with child \<open>y\<close> and inner subtree \<open>b\<close> does, in either direction.\<close>

definition rotated :: "'v rbtree \<Rightarrow> 'v rbtree \<Rightarrow> bool" where
  "rotated T T' \<longleftrightarrow> same_payload T T' \<and> rb_color T' = rb_color T \<and>
     rb_parent T' (rb_nil T) = rb_parent T (rb_nil T)"

lemma left_rotate_foc:
  assumes f: "foc T k (Nd a x cx (Nd b y cy c)) x"
    and d: "distinct (addrs (plug k (Nd a x cx (Nd b y cy c))))"
  shows "foc (rbtree_left_rotate T x) k (Nd (Nd a x cx b) y cy c) y"
    "rotated T (rbtree_left_rotate T x)"
proof -
  let ?nil = "rb_nil T" and ?b = "rb_left T y"
  have y: "rb_right T x = y" and rb: "rep T b ?b y" and rc: "rep T c (rb_right T y) y"
    and ra: "rep T a (rb_left T x) x" and nn: "x \<noteq> ?nil" "y \<noteq> ?nil"
    and col: "rb_color T x = cx" "rb_color T y = cy" and par: "rb_parent T x = cpar T k"
    and ck: "crep T k x"
    using f by (auto simp: foc_def)
  have dd: "x \<noteq> y" "x \<notin> set (addrs b)" "y \<notin> set (addrs b)" "distinct (addrs b)"
    "x \<notin> set (addrs a)" "y \<notin> set (addrs a)" "x \<notin> set (addrs c)" "y \<notin> set (addrs c)"
    "set (addrs a) \<inter> set (addrs b) = {}" "set (addrs c) \<inter> set (addrs b) = {}"
    "caddrs k \<inter> set (addrs a) = {}" "caddrs k \<inter> set (addrs b) = {}" "caddrs k \<inter> set (addrs c) = {}"
    "x \<notin> caddrs k" "y \<notin> caddrs k" "path_ok k"
    using d by (auto simp: addrs_plug caddrs_eq path_ok_def)
  have b_in: "?b = ?nil \<or> ?b \<in> set (addrs b)" by (rule rep_root_in [OF rb])
  define T1 where "T1 = set_right x ?b T"
  define T2 where "T2 = (if rb_left T1 y \<noteq> rb_nil T1 then set_parent (rb_left T1 y) x T1 else T1)"
  define T3 where "T3 = set_parent y (rb_parent T2 x) T2"
  define U where "U = set_parent x y (set_left y x (relink k y T3))"
  have px: "rb_parent T3 x = cpar T k" "rb_left T3 = rb_left T" "rb_nil T3 = ?nil"
    "rb_parent T2 x = cpar T k"
    using b_in dd(1,2) nn par by (auto simp: T1_def T2_def T3_def)
  have U: "rbtree_left_rotate T x = U"
  proof -
    have "rbtree_left_rotate T x = (let T4 = (if rb_parent T3 x = rb_nil T3 then set_root y T3
                else if x = rb_left T3 (rb_parent T3 x) then set_left (rb_parent T3 x) y T3
                else set_right (rb_parent T3 x) y T3) in set_parent x y (set_left y x T4))"
      by (simp only: rbtree_left_rotate_def Let_def y T1_def T2_def T3_def)
    then show ?thesis unfolding px relink_code [OF f nn(1) d] by (simp add: U_def)
  qed
  have T2: "T2 = (if ?b \<noteq> ?nil then set_parent ?b x T1 else T1)" by (simp add: T2_def T1_def)
  have agT3: "agree_on A T T3" if "x \<notin> A" "y \<notin> A" "?b \<notin> A \<or> ?b = ?nil" for A
    using that by (auto simp: T3_def T2 T1_def)
  have agU: "agree_on A T U" if "A \<inter> (caddrs k \<union> {x, y}) = {}" "?b \<notin> A \<or> ?b = ?nil" for A
    using that agT3 [of A] by (simp add: U_def Int_Un_distrib)
  have "crep T3 k x"
    by (rule crep_agree [OF ck agT3]) (use dd b_in in \<open>auto simp: T3_def T2 T1_def\<close>)
  then have "crep (relink k y T3) k y" using dd(16) by (rule crep_relink)
  then have ck': "crep U k y"
    by (rule crep_agree) (use dd in \<open>simp_all add: U_def\<close>)
  have ra': "rep U a (rb_left T x) x" by (rule rep_agree [OF ra agU]) (use dd b_in in auto)
  have rc': "rep U c (rb_right T y) y" by (rule rep_agree [OF rc agU]) (use dd b_in in auto)
  have rb': "rep U b ?b x"
  proof (rule rep_agree [OF rep_reparent [OF rb dd(4), of x]])
    show "agree_on (set (addrs b)) (if ?b \<noteq> ?nil then set_parent ?b x T else T) U"
      using dd by (auto simp: U_def T3_def T2 T1_def agree_on_def relink_def split: list.splits frame.splits)
  qed
  have flds: "rb_left U y = x" "rb_left U x = rb_left T x" "rb_right U x = ?b" "rb_right U y = rb_right T y"
    "rb_parent U x = y" "rb_parent U y = cpar T k" "rb_nil U = ?nil" "rb_color U = rb_color T"
    "cpar U k = cpar T k" "rb_parent U ?nil = rb_parent T ?nil"
    using dd(1,2,3,14,15) nn par px(4) b_in
    by (auto simp: U_def T3_def T2 T1_def cpar_def split: list.splits)
  show "foc (rbtree_left_rotate T x) k (Nd (Nd a x cx b) y cy c) y"
    unfolding U foc_def using ck' ra' rb' rc' nn col flds by simp
  show "rotated T (rbtree_left_rotate T x)"
    unfolding U rotated_def using flds by (simp add: U_def T3_def T2 T1_def)
qed

text \<open>The right rotation is the left one in the mirror.\<close>

definition mirror :: "'v rbtree \<Rightarrow> 'v rbtree" where
  "mirror T = T\<lparr>rb_left := rb_right T, rb_right := rb_left T\<rparr>"

primrec mir :: "ptree \<Rightarrow> ptree" where
  "mir Lf = Lf"
| "mir (Nd l a c r) = Nd (mir r) a c (mir l)"

primrec mirf :: "frame \<Rightarrow> frame" where
  "mirf (FL a c r) = FR (mir r) a c"
| "mirf (FR l a c) = FL a c (mir l)"

lemma mirror_fields [simp]:
  "rb_root (mirror T) = rb_root T" "rb_nil (mirror T) = rb_nil T" "rb_color (mirror T) = rb_color T"
  "rb_left (mirror T) = rb_right T" "rb_right (mirror T) = rb_left T" "rb_parent (mirror T) = rb_parent T"
  "rb_key (mirror T) = rb_key T" "rb_value (mirror T) = rb_value T" "rb_expire (mirror T) = rb_expire T"
  "rb_live (mirror T) = rb_live T" "rb_next (mirror T) = rb_next T" "mirror (mirror T) = T"
  by (simp_all add: mirror_def)

lemma mir_mir [simp]: "mir (mir t) = t"
  by (induction t) auto

lemma mirf_mirf [simp]: "mirf (mirf f) = f"
  by (cases f) auto

lemma map_mirf [simp]: "map mirf (map mirf k) = k"
  by (induction k) auto

lemma addrs_mir [simp]: "addrs (mir t) = rev (addrs t)"
  by (induction t) auto

lemma mir_plug1: "plug1 (mirf f) (mir t) = mir (plug1 f t)"
  by (cases f) auto

lemma mir_plug: "plug (map mirf k) (mir t) = mir (plug k t)"
  by (induction k arbitrary: t) (auto simp: mir_plug1)

lemma faddr_mirf [simp]: "faddr (mirf f) = faddr f" "fcolor (mirf f) = fcolor f"
  by (cases f; simp)+

lemma rep_mirror [simp]: "rep (mirror T) (mir t) p par \<longleftrightarrow> rep T t p par"
  by (induction t arbitrary: p par) auto

lemma frep_mirror [simp]: "frep (mirror T) (mirf f) p \<longleftrightarrow> frep T f p"
  by (cases f) auto

lemma cpar_mirror [simp]: "cpar (mirror T) (map mirf k) = cpar T k"
  by (cases k) auto

lemma crep_mirror [simp]: "crep (mirror T) (map mirf k) p \<longleftrightarrow> crep T k p"
  by (induction k arbitrary: p) auto

lemma foc_mirror: "foc (mirror T) (map mirf k) (mir t) p \<longleftrightarrow> foc T k t p"
  by (simp add: foc_def)

lemma mirror_assign [simp]:
  "mirror (set_color p c T) = set_color p c (mirror T)" "mirror (set_left p q T) = set_right p q (mirror T)"
  "mirror (set_right p q T) = set_left p q (mirror T)" "mirror (set_parent p q T) = set_parent p q (mirror T)"
  "mirror (set_root q T) = set_root q (mirror T)"
  by (simp_all add: mirror_def set_color_def set_left_def set_right_def set_parent_def set_root_def)

lemma right_rotate_mirror: "rbtree_right_rotate (mirror T) x = mirror (rbtree_left_rotate T x)"
  by (simp add: rbtree_right_rotate_def rbtree_left_rotate_def Let_def)

lemma left_rotate_mirror: "rbtree_left_rotate (mirror T) x = mirror (rbtree_right_rotate T x)"
  by (simp add: rbtree_right_rotate_def rbtree_left_rotate_def Let_def)

lemma same_payload_mirror [simp]: "same_payload (mirror T) (mirror U) \<longleftrightarrow> same_payload T U"
  by (simp add: same_payload_def)

lemma right_rotate_foc:
  assumes f: "foc T k (Nd (Nd a x cx b) y cy c) y"
    and d: "distinct (addrs (plug k (Nd (Nd a x cx b) y cy c)))"
  shows "foc (rbtree_right_rotate T y) k (Nd a x cx (Nd b y cy c)) x"
    "rotated T (rbtree_right_rotate T y)"
proof -
  have f': "foc (mirror T) (map mirf k) (Nd (mir c) y cy (Nd (mir b) x cx (mir a))) y"
    using f foc_mirror [of T k "Nd (Nd a x cx b) y cy c" y] by simp
  have d': "distinct (addrs (plug (map mirf k) (Nd (mir c) y cy (Nd (mir b) x cx (mir a)))))"
    using d mir_plug [of k "Nd (Nd a x cx b) y cy c"] by (simp del: addrs.simps) 
  show "foc (rbtree_right_rotate T y) k (Nd a x cx (Nd b y cy c)) x"
    using left_rotate_foc(1) [OF f' d'] foc_mirror [of "rbtree_right_rotate T y" k "Nd a x cx (Nd b y cy c)" x]
    by (simp add: left_rotate_mirror)
  show "rotated T (rbtree_right_rotate T y)"
    using left_rotate_foc(2) [OF f' d'] by (simp add: left_rotate_mirror rotated_def)
qed

end
