(* ===== verification/KVS_RBFix.thy ===== *)
theory KVS_RBFix
  imports KVS_RBShape
begin

text \<open>
  The two repair loops of \<open>kvs_rbtree.c\<close>. Colour and black-height invariants are stated for
  trees and for paths, so that a loop invariant can say which of them holds where; each
  case of the code moves, recolours or rotates the focus. Both loops end with a proper
  red-black tree over the same nodes.
\<close>

subsection \<open>Red-black trees\<close>

primrec pcol :: "ptree \<Rightarrow> rb_color" where
  "pcol Lf = BLACK"
| "pcol (Nd l a c r) = c"

primrec bh :: "ptree \<Rightarrow> nat" where
  "bh Lf = 0"
| "bh (Nd l a c r) = (if c = BLACK then bh l + 1 else bh l)"

primrec invh :: "ptree \<Rightarrow> bool" where
  "invh Lf \<longleftrightarrow> True"
| "invh (Nd l a c r) \<longleftrightarrow> bh l = bh r \<and> invh l \<and> invh r"

primrec invc :: "ptree \<Rightarrow> bool" where
  "invc Lf \<longleftrightarrow> True"
| "invc (Nd l a c r) \<longleftrightarrow> (c = RED \<longrightarrow> pcol l = BLACK \<and> pcol r = BLACK) \<and> invc l \<and> invc r"

definition rbt :: "ptree \<Rightarrow> bool" where
  "rbt t \<longleftrightarrow> invc t \<and> invh t \<and> pcol t = BLACK"

text \<open>The same for a path, given the black height and the colour of what hangs below it.\<close>

primrec ctx_h :: "frame list \<Rightarrow> nat \<Rightarrow> bool" where
  "ctx_h [] n \<longleftrightarrow> True"
| "ctx_h (f # k) n \<longleftrightarrow> (case f of FL a c r \<Rightarrow> invh r \<and> bh r = n | FR l a c \<Rightarrow> invh l \<and> bh l = n) \<and>
     ctx_h k (if fcolor f = BLACK then n + 1 else n)"

primrec ctx_c :: "frame list \<Rightarrow> rb_color \<Rightarrow> bool" where
  "ctx_c [] col \<longleftrightarrow> col = BLACK"
| "ctx_c (f # k) col \<longleftrightarrow>
     (case f of FL a c r \<Rightarrow> invc r \<and> (c = RED \<longrightarrow> col = BLACK \<and> pcol r = BLACK)
      | FR l a c \<Rightarrow> invc l \<and> (c = RED \<longrightarrow> col = BLACK \<and> pcol l = BLACK)) \<and> ctx_c k (fcolor f)"

lemma not_color [simp]: "c \<noteq> BLACK \<longleftrightarrow> c = RED" "c \<noteq> RED \<longleftrightarrow> c = BLACK"
  by (cases c; simp)+

lemma rbt_plug:
  "rbt (plug k t) \<longleftrightarrow> invc t \<and> invh t \<and> ctx_c k (pcol t) \<and> ctx_h k (bh t)"
proof (induction k arbitrary: t)
  case (Cons f k)
  show ?case
  proof (cases f)
    case (FL a c r)
    then show ?thesis unfolding plug.simps plug1.simps Cons.IH
      by (cases c) (simp_all, metis+)
  next
    case (FR l a c)
    then show ?thesis unfolding plug.simps plug1.simps Cons.IH
      by (cases c) (simp_all, metis+)
  qed
qed (auto simp: rbt_def)

lemma ctx_c_BLACK: "ctx_c k c \<Longrightarrow> ctx_c k BLACK"
  by (cases k) (auto split: frame.splits)

lemma invh_mir: "invh t \<Longrightarrow> bh (mir t) = bh t \<and> invh (mir t)"
  by (induction t) auto

lemma pcol_mir [simp]: "pcol (mir t) = pcol t"
  by (cases t) auto

lemma invc_mir [simp]: "invc (mir t) = invc t"
  by (induction t) auto

lemma ctx_c_mir [simp]: "ctx_c (map mirf k) c = ctx_c k c"
proof (induction k arbitrary: c)
  case (Cons f k)
  then show ?case by (cases f) auto
qed simp

lemma ctx_h_mir: "ctx_h k n \<Longrightarrow> ctx_h (map mirf k) n"
proof (induction k arbitrary: n)
  case (Cons f k)
  then show ?case by (cases f) (auto simp: invh_mir)
qed simp

subsection \<open>The heap around the focus\<close>

definition tree_at :: "'v rbtree \<Rightarrow> frame list \<Rightarrow> ptree \<Rightarrow> addr \<Rightarrow> bool" where
  "tree_at T k t p \<longleftrightarrow> foc T k t p \<and> distinct (addrs (plug k t)) \<and> rb_color T (rb_nil T) = BLACK"

lemma tree_at_mirror: "tree_at (mirror T) (map mirf k) (mir t) p \<longleftrightarrow> tree_at T k t p"
  by (simp add: tree_at_def foc_mirror mir_plug)

lemma tree_at_up: "tree_at T (f # k) t p \<Longrightarrow> tree_at T k (plug1 f t) (faddr f)"
  by (simp add: tree_at_def foc_up)

lemma tree_at_down:
  "tree_at T k (Nd l a c r) a \<Longrightarrow> tree_at T (FL a c r # k) l (rb_left T a)"
  "tree_at T k (Nd l a c r) a \<Longrightarrow> tree_at T (FR l a c # k) r (rb_right T a)"
  by (simp_all add: tree_at_def foc_up)

text \<open>The pointers and colours that can be read at the focus.\<close>

lemma rep_color: "rep T t p par \<Longrightarrow> rb_color T (rb_nil T) = BLACK \<Longrightarrow> rb_color T p = pcol t"
  by (cases t) auto

lemma tree_at_color: "tree_at T k t p \<Longrightarrow> rb_color T p = pcol t"
  by (auto simp: tree_at_def foc_def intro: rep_color)

lemma tree_at_node:
  assumes "tree_at T k (Nd l a c r) p"
  shows "p = a" "a \<noteq> rb_nil T" "rb_parent T a = cpar T k" "rb_color T a = c"
    "rb_color T (rb_left T a) = pcol l" "rb_color T (rb_right T a) = pcol r"
    "l = Lf \<longleftrightarrow> rb_left T a = rb_nil T" "r = Lf \<longleftrightarrow> rb_right T a = rb_nil T"
  using assms rep_color [of T l "rb_left T a" a] rep_color [of T r "rb_right T a" a]
  by (auto simp: tree_at_def foc_def) (cases l; cases r; auto)+

lemma tree_at_child:
  assumes "tree_at T k (Nd l a c r) a"
  shows "l = Nd ll b d lr \<Longrightarrow> rb_left T a = b \<and> rb_parent T b = a \<and> b \<noteq> rb_nil T"
    "r = Nd ll b d lr \<Longrightarrow> rb_right T a = b \<and> rb_parent T b = a \<and> b \<noteq> rb_nil T"
  using assms by (auto simp: tree_at_def foc_def)

lemma tree_at_set_color:
  assumes "tree_at T k t p" "q \<notin> caddrs k" "q \<noteq> rb_nil T"
  shows "tree_at (set_color q c T) k (recol q c t) p"
proof -
  have "addrs (recol q c t) = addrs t" by (induction t) auto
  then show ?thesis using assms by (simp add: tree_at_def foc_set_color addrs_plug)
qed

lemma tree_at_left_rotate:
  assumes "tree_at T k (Nd a x cx (Nd b y cy c)) x"
  shows "tree_at (rbtree_left_rotate T x) k (Nd (Nd a x cx b) y cy c) y"
    "same_payload T (rbtree_left_rotate T x)"
    "rb_parent (rbtree_left_rotate T x) (rb_nil T) = rb_parent T (rb_nil T)"
  using assms left_rotate_foc [of T k a x cx b y cy c]
  by (auto simp: tree_at_def rotated_def same_payload_def addrs_plug)

lemma tree_at_right_rotate:
  assumes "tree_at T k (Nd (Nd a x cx b) y cy c) y"
  shows "tree_at (rbtree_right_rotate T y) k (Nd a x cx (Nd b y cy c)) x"
    "same_payload T (rbtree_right_rotate T y)"
    "rb_parent (rbtree_right_rotate T y) (rb_nil T) = rb_parent T (rb_nil T)"
  using assms right_rotate_foc [of T k a x cx b y cy c]
  by (auto simp: tree_at_def rotated_def same_payload_def addrs_plug)

lemma set_color_same: "rb_color T p = c \<Longrightarrow> set_color p c T = T"
  by (auto simp: set_color_def)

text \<open>A finished repair: a red-black tree over the nodes \<open>as\<close> in order, nothing else changed.\<close>

definition repaired :: "'v rbtree \<Rightarrow> addr list \<Rightarrow> 'v rbtree \<Rightarrow> bool" where
  "repaired T as T' \<longleftrightarrow> (\<exists>t. tree_at T' [] t (rb_root T') \<and> addrs t = as \<and> rbt t) \<and> same_payload T T'"

lemma tree_at_root: "tree_at T k t p \<Longrightarrow> tree_at T [] (plug k t) (rb_root T)"
  using foc_root [of T k t p] by (simp add: tree_at_def foc_def)

lemma repaired_root_black:
  assumes "repaired T as T'"
  shows "set_color (rb_root T') BLACK T' = T'"
  using assms by (auto simp: repaired_def rbt_def intro!: set_color_same dest: tree_at_color)

lemma repairedI:
  assumes "tree_at T' k t p" "rbt (plug k t)" "same_payload T T'"
  shows "repaired T (addrs (plug k t)) T'"
  using tree_at_root [OF assms(1)] assms(2,3) by (auto simp: repaired_def)

lemma repaired_mirror:
  assumes "repaired T as T'"
  shows "repaired (mirror T) (rev as) (mirror T')"
proof -
  obtain t where t: "tree_at T' [] t (rb_root T')" "addrs t = as" "rbt t" "same_payload T T'"
    using assms by (auto simp: repaired_def)
  have "tree_at (mirror T') [] (mir t) (rb_root T')" using t(1) tree_at_mirror [of T' "[]" t] by simp
  moreover have "rbt (mir t)" using t(3) by (auto simp: rbt_def invh_mir)
  ultimately show ?thesis using t(2,4) by (auto simp: repaired_def)
qed

subsection \<open>Insertion\<close>

text \<open>The loop invariant: the focus \<open>z\<close> is red and its subtree is fine; the path is fine if
  the focus were black.\<close>

definition ins_inv :: "'v rbtree \<Rightarrow> frame list \<Rightarrow> ptree \<Rightarrow> addr \<Rightarrow> bool" where
  "ins_inv T k t z \<longleftrightarrow> tree_at T k t z \<and> (\<exists>l r. t = Nd l z RED r) \<and> invc t \<and> invh t \<and>
     ctx_c k BLACK \<and> ctx_h k (bh t)"

lemma ins_inv_mirror: "ins_inv T k t z \<Longrightarrow> ins_inv (mirror T) (map mirf k) (mir t) z"
  by (auto simp: ins_inv_def tree_at_mirror invh_mir intro: ctx_h_mir)

text \<open>A black parent ends the loop.\<close>

lemma insert_fixup_done:
  assumes "ins_inv T k t z" "k = [] \<or> fcolor (hd k) = BLACK"
  shows "\<exists>T'. rbtree_insert_fixup T z = Some T' \<and> repaired T (addrs (plug k t)) T'"
proof -
  obtain l r where t: "t = Nd l z RED r" and at: "tree_at T k t z" using assms(1) by (auto simp: ins_inv_def)
  have par: "rb_parent T z = cpar T k" using tree_at_node [of T k l z RED r z] at t by simp
  show ?thesis
  proof (cases k)
    case Nil
    have "rb_color T (rb_parent T z) = BLACK" using par Nil at by (simp add: tree_at_def)
    then have fx: "rbtree_insert_fixup T z = Some (set_color z BLACK T)"
      using at Nil by (subst rbtree_insert_fixup.simps) (simp add: tree_at_def foc_def)
    have z: "z \<notin> set (addrs l)" "z \<notin> set (addrs r)" using at t Nil by (auto simp: tree_at_def)
    have "tree_at (set_color z BLACK T) [] (recol z BLACK t) z"
      using tree_at_set_color [of T "[]" t z z] at Nil tree_at_node(2) t by fastforce
    then have "tree_at (set_color z BLACK T) [] (Nd l z BLACK r) z" using t z by simp
    moreover have "rbt (Nd l z BLACK r)" using assms(1) t by (auto simp: ins_inv_def rbt_def)
    ultimately have "repaired T (addrs (Nd l z BLACK r)) (set_color z BLACK T)"
      using repairedI [of "set_color z BLACK T" "[]" "Nd l z BLACK r" z T] by simp
    then show ?thesis using fx t Nil by simp
  next
    case (Cons f k')
    have "rb_color T (faddr f) = fcolor f" using at Cons by (cases f) (auto simp: tree_at_def foc_def)
    then have "rb_color T (rb_parent T z) = BLACK" using par Cons assms(2) by simp
    then have fx: "rbtree_insert_fixup T z = Some (set_color (rb_root T) BLACK T)"
      by (subst rbtree_insert_fixup.simps) simp
    have "rbt (plug k t)"
      using assms Cons unfolding rbt_plug ins_inv_def by (auto split: frame.splits)
    from repairedI [OF at this same_payload_refl] fx show ?thesis
      by (auto simp: repaired_root_black)
  qed
qed

text \<open>A red parent has a black parent of its own.\<close>

lemma red_parent:
  assumes "ctx_c (f # k) BLACK" "fcolor f = RED"
  obtains g k' where "k = g # k'" "fcolor g = BLACK"
  using assms by (cases k; cases f) (auto split: frame.splits)

primrec paintf :: "rb_color \<Rightarrow> frame \<Rightarrow> frame" where
  "paintf d (FL a c r) = FL a d r"
| "paintf d (FR l a c) = FR l a d"

text \<open>What the code reads when the parent \<open>p\<close> is the left child of \<open>g\<close>.\<close>

lemma insert_step_reads:
  assumes at: "tree_at T (f # FL g cg u # k) (Nd l z RED r) z"
  shows "rb_parent T z = faddr f" "rb_parent T (faddr f) = g" "rb_left T g = faddr f"
    "rb_color T (rb_right T g) = pcol u"
    "z = rb_right T (faddr f) \<longleftrightarrow> (\<exists>s p c. f = FR s p c)"
proof -
  have f: "foc T (f # FL g cg u # k) (Nd l z RED r) z" and d: "distinct (addrs (plug (f # FL g cg u # k) (Nd l z RED r)))"
    and nil: "rb_color T (rb_nil T) = BLACK" using at by (auto simp: tree_at_def)
  show "rb_parent T z = faddr f" using f by (simp add: foc_def)
  show "rb_parent T (faddr f) = g" "rb_left T g = faddr f" using f by (auto simp: foc_def)
  have "rep T u (rb_right T g) g" using f by (simp add: foc_def)
  then show "rb_color T (rb_right T g) = pcol u" using nil by (rule rep_color)
  have "z \<noteq> rb_nil T" using f by (simp add: foc_def)
  from focus_side [OF f this d] show "z = rb_right T (faddr f) \<longleftrightarrow> (\<exists>s p c. f = FR s p c)"
    by (cases f) auto
qed

text \<open>Red uncle: recolour and move two levels up.\<close>

lemma insert_step_red_uncle:
  assumes at: "tree_at T (f # FL g cg (Nd ul y RED ur) # k) (Nd l z RED r) z"
  shows "\<exists>T'. insert_fixup_step T z = (T', g) \<and> same_payload T T' \<and>
    tree_at T' k (Nd (plug1 (paintf BLACK f) (Nd l z RED r)) g RED (Nd ul y BLACK ur)) g"
proof -
  let ?t = "Nd l z RED r" and ?u = "Nd ul y RED ur"
  note rd = insert_step_reads [OF at]
  have g: "tree_at T k (Nd (plug1 f ?t) g cg ?u) g" using tree_at_up [OF tree_at_up [OF at]] by simp
  have y: "rb_right T g = y" using tree_at_child(2) [OF g refl] by simp
  have d: "distinct (before k @ (before1 f @ addrs ?t @ after1 f) @ g # (addrs ul @ y # addrs ur) @ after k)"
    using g by (simp add: tree_at_def addrs_plug addrs_plug1)
  have nn: "faddr f \<noteq> rb_nil T" "y \<noteq> rb_nil T" "g \<noteq> rb_nil T"
    using at by (cases f; auto simp: tree_at_def foc_def)+
  let ?T1 = "set_color (faddr f) BLACK T"
  let ?T3 = "set_color g RED (set_color y BLACK ?T1)"
  have "rb_color T y = RED" using rd(4) y by simp
  then have "insert_fixup_step T z = (?T3, g)"
    by (simp add: insert_fixup_step_def Let_def rd y)
  moreover have "tree_at ?T3 k (Nd (plug1 (paintf BLACK f) ?t) g RED (Nd ul y BLACK ur)) g"
  proof -
    have "faddr f \<notin> caddrs k" "y \<notin> caddrs k" "g \<notin> caddrs k"
      using d faddr_in [of f] by (auto simp: caddrs_eq)
    then have "tree_at ?T3 k (recol g RED (recol y BLACK (recol (faddr f) BLACK (Nd (plug1 f ?t) g cg ?u)))) g"
      using g nn by (intro tree_at_set_color) auto
    moreover have "recol g RED (recol y BLACK (recol (faddr f) BLACK (Nd (plug1 f ?t) g cg ?u))) =
        Nd (plug1 (paintf BLACK f) ?t) g RED (Nd ul y BLACK ur)"
      using d by (cases f) auto
    ultimately show ?thesis by simp
  qed
  ultimately show ?thesis by auto
qed

text \<open>Black uncle: one or two rotations, after which the parent is black.\<close>

lemma rotate_up_right:
  assumes at: "tree_at T k (Nd (Nd a p cp b) g cg u) g"
  defines "T' \<equiv> rbtree_right_rotate (set_color g RED (set_color p BLACK T)) g"
  shows "tree_at T' k (Nd a p BLACK (Nd b g RED u)) p" "same_payload T T'"
proof -
  have d: "distinct (before k @ (addrs a @ p # addrs b) @ g # addrs u @ after k)"
    using at by (simp add: tree_at_def addrs_plug)
  have nn: "p \<noteq> rb_nil T" "g \<noteq> rb_nil T" using at by (auto simp: tree_at_def foc_def)
  let ?T2 = "set_color g RED (set_color p BLACK T)"
  have "tree_at ?T2 k (recol g RED (recol p BLACK (Nd (Nd a p cp b) g cg u))) g"
    using at nn d by (intro tree_at_set_color) (auto simp: caddrs_eq)
  moreover have "recol g RED (recol p BLACK (Nd (Nd a p cp b) g cg u)) = Nd (Nd a p BLACK b) g RED u"
    using d by auto
  ultimately have "tree_at ?T2 k (Nd (Nd a p BLACK b) g RED u) g" by simp
  from tree_at_right_rotate [OF this]
  show "tree_at T' k (Nd a p BLACK (Nd b g RED u)) p" "same_payload T T'"
    by (simp_all add: T'_def same_payload_def set_color_def)
qed

lemma insert_step_black_uncle_outer:
  assumes at: "tree_at T (FL p cp s # FL g cg u # k) (Nd l z RED r) z" and u: "pcol u = BLACK"
  shows "\<exists>T'. insert_fixup_step T z = (T', z) \<and> same_payload T T' \<and>
    tree_at T' (FL p BLACK (Nd s g RED u) # k) (Nd l z RED r) z"
proof -
  note rd = insert_step_reads [OF at]
  have g: "tree_at T k (Nd (Nd (Nd l z RED r) p cp s) g cg u) g"
    using tree_at_up [OF tree_at_up [OF at]] by simp
  let ?T' = "rbtree_right_rotate (set_color g RED (set_color p BLACK T)) g"
  have "insert_fixup_step T z = (?T', z)"
    using rd u by (simp add: insert_fixup_step_def Let_def)
  moreover note rot = rotate_up_right [OF g]
  moreover have "tree_at ?T' (FL p BLACK (Nd s g RED u) # k) (Nd l z RED r) z"
    using tree_at_down(1) [OF rot(1)] tree_at_child(1) [OF rot(1) refl] by simp
  ultimately show ?thesis by blast
qed

lemma insert_step_black_uncle_inner:
  assumes at: "tree_at T (FR s p cp # FL g cg u # k) (Nd l z RED r) z" and u: "pcol u = BLACK"
  shows "\<exists>T'. insert_fixup_step T z = (T', p) \<and> same_payload T T' \<and>
    tree_at T' (FL z BLACK (Nd r g RED u) # k) (Nd s p cp l) p"
proof -
  note rd = insert_step_reads [OF at]
  let ?T1 = "rbtree_left_rotate T p"
  have p: "tree_at T (FL g cg u # k) (Nd s p cp (Nd l z RED r)) p" using tree_at_up [OF at] by simp
  note rot = tree_at_left_rotate [OF p]
  have g: "tree_at ?T1 k (Nd (Nd (Nd s p cp l) z RED r) g cg u) g" using tree_at_up [OF rot(1)] by simp
  have par: "rb_parent ?T1 p = z" using tree_at_child(1) [OF rot(1) refl] by simp
  have par2: "rb_parent ?T1 z = g" using tree_at_child(1) [OF g refl] by simp
  let ?T' = "rbtree_right_rotate (set_color g RED (set_color z BLACK ?T1)) g"
  have "insert_fixup_step T z = (?T', p)"
    using rd u par par2 by (simp add: insert_fixup_step_def Let_def)
  moreover note rot2 = rotate_up_right [OF g]
  moreover have "tree_at ?T' (FL z BLACK (Nd r g RED u) # k) (Nd s p cp l) p"
    using tree_at_down(1) [OF rot2(1)] tree_at_child(1) [OF rot2(1) refl] by simp
  moreover have "same_payload T ?T'" using rot(2) rot2(2) by (rule same_payload_trans)
  ultimately show ?thesis by blast
qed

text \<open>One iteration, when the parent is the left child of the grandparent.\<close>

lemma insert_step_left:
  assumes inv: "ins_inv T (f # FL g BLACK u # k) t z" and red: "fcolor f = RED"
  shows "\<exists>T' k' t' z'. insert_fixup_step T z = (T', z') \<and> same_payload T T' \<and> ins_inv T' k' t' z' \<and>
    addrs (plug k' t') = addrs (plug (f # FL g BLACK u # k) t) \<and>
    (k' = k \<or> k' \<noteq> [] \<and> fcolor (hd k') = BLACK)"
proof -
  obtain l r where t: "t = Nd l z RED r" and at: "tree_at T (f # FL g BLACK u # k) (Nd l z RED r) z"
    using inv by (auto simp: ins_inv_def)
  show ?thesis
  proof (cases "pcol u")
    case RED
    then obtain ul y ur where u: "u = Nd ul y RED ur" by (cases u) auto
    let ?t' = "Nd (plug1 (paintf BLACK f) (Nd l z RED r)) g RED (Nd ul y BLACK ur)"
    obtain T' where T': "insert_fixup_step T z = (T', g)" "same_payload T T'" "tree_at T' k ?t' g"
      using insert_step_red_uncle [of T f g BLACK ul y ur k l z r] at u by auto
    have "ins_inv T' k ?t' g"
      using T'(3) inv red unfolding ins_inv_def t u by (cases f) auto
    moreover have "addrs (plug k ?t') = addrs (plug (f # FL g BLACK u # k) t)"
      by (cases f) (simp_all add: addrs_plug t u)
    ultimately show ?thesis using T' by blast
  next
    case BLACK
    show ?thesis
    proof (cases f)
      case (FL p cp s)
      obtain T' where T': "insert_fixup_step T z = (T', z)" "same_payload T T'"
        "tree_at T' (FL p BLACK (Nd s g RED u) # k) (Nd l z RED r) z"
        using insert_step_black_uncle_outer [of T p cp s g BLACK u k l z r] at FL BLACK by auto
      have "ins_inv T' (FL p BLACK (Nd s g RED u) # k) t z"
        using T'(3) inv red BLACK unfolding ins_inv_def t FL by auto
      then show ?thesis using T'(1,2) FL t
        by (intro exI [of _ T'] exI [of _ "FL p BLACK (Nd s g RED u) # k"] exI [of _ t] exI [of _ z])
          (auto simp: addrs_plug)
    next
      case (FR s p cp)
      obtain T' where T': "insert_fixup_step T z = (T', p)" "same_payload T T'"
        "tree_at T' (FL z BLACK (Nd r g RED u) # k) (Nd s p cp l) p"
        using insert_step_black_uncle_inner [of T s p cp g BLACK u k l z r] at FR BLACK by auto
      have "ins_inv T' (FL z BLACK (Nd r g RED u) # k) (Nd s p cp l) p"
        using T'(3) inv red BLACK unfolding ins_inv_def t FR by auto
      then show ?thesis using T'(1,2) FR t
        by (intro exI [of _ T'] exI [of _ "FL z BLACK (Nd r g RED u) # k"] exI [of _ "Nd s p cp l"] exI [of _ p])
          (auto simp: addrs_plug)
    qed
  qed
qed

lemma insert_fixup_step_mirror:
  assumes "rb_parent T z \<noteq> rb_left T (rb_parent T (rb_parent T z))"
    "rb_parent T z = rb_right T (rb_parent T (rb_parent T z))"
  shows "insert_fixup_step T z = map_prod mirror id (insert_fixup_step (mirror T) z)"
  using assms
  by (simp add: insert_fixup_step_def Let_def left_rotate_mirror right_rotate_mirror
      mirror_assign(1) [symmetric] del: mirror_assign)

lemma insert_step_right:
  assumes inv: "ins_inv T (f # FR u g BLACK # k) t z" and red: "fcolor f = RED"
  shows "\<exists>T' k' t' z'. insert_fixup_step T z = (T', z') \<and> same_payload T T' \<and> ins_inv T' k' t' z' \<and>
    addrs (plug k' t') = addrs (plug (f # FR u g BLACK # k) t) \<and>
    (length k' < Suc (length k) \<or> k' \<noteq> [] \<and> fcolor (hd k') = BLACK)"
proof -
  let ?k = "f # FR u g BLACK # k"
  have inv': "ins_inv (mirror T) (mirf f # FL g BLACK (mir u) # map mirf k) (mir t) z"
    using ins_inv_mirror [OF inv] by simp
  obtain U k1 t1 z1 where U: "insert_fixup_step (mirror T) z = (U, z1)" "same_payload (mirror T) U"
    "ins_inv U k1 t1 z1" "addrs (plug k1 t1) = addrs (plug (map mirf ?k) (mir t))"
    "k1 = map mirf k \<or> k1 \<noteq> [] \<and> fcolor (hd k1) = BLACK"
    using insert_step_left [OF inv'] red by auto
  obtain l r where t: "t = Nd l z RED r" using inv by (auto simp: ins_inv_def)
  have at: "tree_at T (FR u g BLACK # k) (plug1 f t) (faddr f)" "tree_at T ?k t z"
    using inv tree_at_up [of T f "FR u g BLACK # k" t z] by (auto simp: ins_inv_def)
  have par: "rb_parent T z = faddr f" "rb_parent T (faddr f) = g" "faddr f \<noteq> rb_nil T"
    using at(2) t by (cases f; auto simp: tree_at_def foc_def)+
  have "rb_right T g = faddr f \<and> rb_left T g \<noteq> faddr f"
    using focus_side [of T "FR u g BLACK" k "plug1 f t" "faddr f"] at(1) par(3) by (simp add: tree_at_def)
  then have "insert_fixup_step T z = (mirror U, z1)"
    using insert_fixup_step_mirror [of T z] par U(1) by simp
  moreover have "same_payload T (mirror U)" using U(2) same_payload_mirror [of T "mirror U"] by simp
  moreover have "ins_inv (mirror U) (map mirf k1) (mir t1) z1" by (rule ins_inv_mirror [OF U(3)])
  moreover have "addrs (plug (map mirf k1) (mir t1)) = addrs (plug ?k t)"
    using U(4) unfolding mir_plug by simp
  moreover have "length (map mirf k1) < Suc (length k) \<or> map mirf k1 \<noteq> [] \<and> fcolor (hd (map mirf k1)) = BLACK"
    using U(5) by (cases k1) auto
  ultimately show ?thesis by blast
qed

lemma insert_step:
  assumes inv: "ins_inv T (f # k) t z" and red: "fcolor f = RED"
  shows "\<exists>T' k' t' z'. insert_fixup_step T z = (T', z') \<and> same_payload T T' \<and> ins_inv T' k' t' z' \<and>
    addrs (plug k' t') = addrs (plug (f # k) t) \<and>
    (length k' < length k \<or> k' \<noteq> [] \<and> fcolor (hd k') = BLACK)"
proof -
  have "ctx_c (f # k) BLACK" using inv by (simp add: ins_inv_def)
  then obtain g k0 where k: "k = g # k0" "fcolor g = BLACK" using red red_parent by blast
  show ?thesis
  proof (cases g)
    case (FL a c u)
    then show ?thesis using insert_step_left [of T f a u k0 t z] inv red k by auto
  next
    case (FR u a c)
    then show ?thesis using insert_step_right [of T f u a k0 t z] inv red k by simp
  qed
qed

text \<open>The loop ends, and leaves a red-black tree over the same nodes.\<close>

lemma repaired_trans: "same_payload T U \<Longrightarrow> repaired U as V \<Longrightarrow> repaired T as V"
  by (auto simp: repaired_def intro: same_payload_trans)

lemma insert_fixup_correct:
  "ins_inv T k t z \<Longrightarrow>
   \<exists>T'. rbtree_insert_fixup T z = Some T' \<and> repaired T (addrs (plug k t)) T'"
proof (induction k arbitrary: T t z rule: length_induct)
  case (1 k)
  show ?case
  proof (cases "k = [] \<or> fcolor (hd k) = BLACK")
    case True
    then show ?thesis by (rule insert_fixup_done [OF "1.prems"])
  next
    case False
    then obtain f k0 where k: "k = f # k0" "fcolor f = RED" by (cases k) auto
    obtain T1 k1 t1 z1 where s: "insert_fixup_step T z = (T1, z1)" "same_payload T T1" "ins_inv T1 k1 t1 z1"
      "addrs (plug k1 t1) = addrs (plug k t)" "length k1 < length k0 \<or> k1 \<noteq> [] \<and> fcolor (hd k1) = BLACK"
      using insert_step [of T f k0 t z] "1.prems" k by auto
    have "\<exists>T'. rbtree_insert_fixup T1 z1 = Some T' \<and> repaired T1 (addrs (plug k1 t1)) T'"
    proof (cases "length k1 < length k0")
      case True
      then show ?thesis using "1.IH" k s(3) by simp
    next
      case False
      then show ?thesis using s(3,5) insert_fixup_done by blast
    qed
    moreover have "rb_color T (rb_parent T z) = RED"
      using "1.prems" k by (cases f) (auto simp: ins_inv_def tree_at_def foc_def)
    then have "rbtree_insert_fixup T z = rbtree_insert_fixup T1 z1"
      using s(1) by (subst rbtree_insert_fixup.simps) simp
    ultimately show ?thesis using s(2,4) repaired_trans by fastforce
  qed
qed

end
