(* ===== verification/KVS_RBDel.thy ===== *)
theory KVS_RBDel
  imports KVS_RBFix
begin

text \<open>
  The repair loop of \<open>rbtree_delete\<close>: the subtree at the focus is one black node short, and each
  iteration either restores the balance or moves the shortage up.
\<close>

subsection \<open>A subtree that is one black node short\<close>

primrec paintb :: "ptree \<Rightarrow> ptree" where
  "paintb Lf = Lf"
| "paintb (Nd l a c r) = Nd l a BLACK r"

lemma addrs_paintb [simp]: "addrs (paintb t) = addrs t" "pcol (paintb t) = BLACK"
  by (cases t; simp)+

lemma invh_paintb [simp]: "invh (paintb t) = invh t"
  by (cases t) auto

lemma paintb_black: "pcol t = BLACK \<Longrightarrow> paintb t = t"
  by (cases t) auto

lemma bh_paintb: "bh (paintb t) = (if pcol t = RED then bh t + 1 else bh t)"
  by (cases t) auto

lemma mir_paintb: "mir (paintb t) = paintb (mir t)"
  by (cases t) auto

text \<open>The loop invariant: one black node is missing above the focus \<open>x\<close>, whose subtree is
  fine if it were black. The focus may be the sentinel, whose parent field counts then.\<close>

definition del_inv :: "'v rbtree \<Rightarrow> frame list \<Rightarrow> ptree \<Rightarrow> addr \<Rightarrow> bool" where
  "del_inv T k t x \<longleftrightarrow> tree_at T k t x \<and> rb_parent T x = cpar T k \<and> invc (paintb t) \<and> invh t \<and>
     ctx_c k BLACK \<and> ctx_h k (bh t + 1)"

lemma del_inv_mirror: "del_inv T k t x \<Longrightarrow> del_inv (mirror T) (map mirf k) (mir t) x"
  by (auto simp: del_inv_def tree_at_mirror invh_mir mir_paintb [symmetric] intro: ctx_h_mir)

lemma root_in_path: "crep T k p \<Longrightarrow> k \<noteq> [] \<Longrightarrow> rb_root T \<in> caddrs k"
proof (induction k arbitrary: p)
  case (Cons f k)
  then show ?case using faddr_in [of f] by (cases k) auto
qed simp

lemma path_not_nil: "crep T k p \<Longrightarrow> rb_nil T \<notin> caddrs k"
proof (induction k arbitrary: p)
  case (Cons f k)
  then show ?case by (cases f) (auto dest: rep_not_nil)
qed simp

lemma focus_not_root:
  assumes "tree_at T k t x" "k \<noteq> []"
  shows "x \<noteq> rb_root T"
proof -
  have k: "crep T k x" "rep T t x (cpar T k)" "distinct (addrs (plug k t))"
    using assms(1) by (auto simp: tree_at_def foc_def)
  have "rb_root T \<in> caddrs k" using root_in_path [OF k(1) assms(2)] .
  moreover have "rb_root T \<noteq> rb_nil T" using calculation path_not_nil [OF k(1)] by auto
  moreover have "rb_root T \<notin> set (addrs t)" using calculation(1) k(3) by (auto simp: addrs_plug caddrs_eq)
  ultimately show ?thesis using rep_root_in [OF k(2)] by auto
qed

lemma delete_fixup_done:
  assumes inv: "del_inv T k t x" and stop: "k = [] \<or> pcol t = RED"
  shows "\<exists>T'. rbtree_delete_fixup T x = Some T' \<and> repaired T (addrs (plug k t)) T'"
proof -
  have at: "tree_at T k t x" using inv by (simp add: del_inv_def)
  have "x = rb_root T \<or> rb_color T x = RED"
    using stop at tree_at_color [OF at] by (auto simp: tree_at_def foc_def)
  then have fx: "rbtree_delete_fixup T x = Some (set_color x BLACK T)"
    by (subst rbtree_delete_fixup.simps) auto
  have "tree_at (set_color x BLACK T) k (paintb t) x"
  proof (cases t)
    case Lf
    then have "rb_color T x = BLACK" using tree_at_color [OF at] by simp
    then show ?thesis using Lf at by (simp add: set_color_same)
  next
    case (Nd l a c r)
    then have x: "x = a" "x \<noteq> rb_nil T" using at tree_at_node(1,2) by blast+
    have "x \<notin> caddrs k" "x \<notin> set (addrs l)" "x \<notin> set (addrs r)"
      using at Nd x by (auto simp: tree_at_def addrs_plug caddrs_eq)
    then show ?thesis using tree_at_set_color [OF at _ x(2), of BLACK] Nd x by simp
  qed
  moreover have "rbt (plug k (paintb t))"
    using inv stop unfolding rbt_plug del_inv_def bh_paintb by auto
  ultimately have "repaired T (addrs (plug k (paintb t))) (set_color x BLACK T)"
    using repairedI [of "set_color x BLACK T" k "paintb t" x T] by simp
  then show ?thesis using fx by (simp add: addrs_plug)
qed

text \<open>The rest of an iteration once the sibling \<open>w\<close> of the left child \<open>x\<close> is black.\<close>

definition del_tail :: "'v rbtree \<Rightarrow> addr \<Rightarrow> addr \<Rightarrow> 'v rbtree \<times> addr" where
  "del_tail T1 x w1 =
     (if rb_color T1 (rb_left T1 w1) = BLACK \<and> rb_color T1 (rb_right T1 w1) = BLACK
      then (set_color w1 RED T1, rb_parent T1 x)
      else
        let (T2, w2) =
              (if rb_color T1 (rb_right T1 w1) = BLACK then
                 let A = set_color (rb_left T1 w1) BLACK T1;
                     B = set_color w1 RED A;
                     C = rbtree_right_rotate B w1
                 in (C, rb_right C (rb_parent C x))
               else (T1, w1));
            T3 = set_color w2 (rb_color T2 (rb_parent T2 x)) T2;
            T4 = set_color (rb_parent T3 x) BLACK T3;
            T5 = set_color (rb_right T4 w2) BLACK T4;
            T6 = rbtree_left_rotate T5 (rb_parent T5 x)
        in (T6, rb_root T6))"

lemma delete_fixup_step_left:
  assumes "x = rb_left T (rb_parent T x)"
  shows "delete_fixup_step T x =
    (let w = rb_right T (rb_parent T x) in
     if rb_color T w = RED then
       let B = set_color (rb_parent T x) RED (set_color w BLACK T);
           C = rbtree_left_rotate B (rb_parent T x)
       in del_tail C x (rb_right C (rb_parent C x))
     else del_tail T x w)"
  using assms unfolding delete_fixup_step_def del_tail_def
  by (auto simp: Let_def split: prod.splits)

lemma keeps_parent:
  assumes "tree_at T' (f # k) t x" "rb_parent T' (rb_nil T) = rb_parent T (rb_nil T)"
    "rb_parent T x = faddr f" "rb_nil T' = rb_nil T"
  shows "rb_parent T' x = faddr f"
  using assms by (cases t) (auto simp: tree_at_def foc_def)

text \<open>Far nephew red: recolour and rotate; the tree is finished.\<close>

lemma final_rotation:
  assumes at: "tree_at T k (Nd t p c (Nd wl w cw (Nd a b cb d))) p"
  defines "T5 \<equiv> set_color b BLACK (set_color p BLACK (set_color w c T))"
  shows "tree_at (rbtree_left_rotate T5 p) k (Nd (Nd t p BLACK wl) w c (Nd a b BLACK d)) w"
    "same_payload T (rbtree_left_rotate T5 p)"
proof -
  let ?t = "Nd t p c (Nd wl w cw (Nd a b cb d))"
  have dd: "distinct (before k @ (addrs t @ p # (addrs wl @ w # addrs a @ b # addrs d)) @ after k)"
    using at by (simp add: tree_at_def addrs_plug)
  have nn: "p \<noteq> rb_nil T" "w \<noteq> rb_nil T" "b \<noteq> rb_nil T" using at by (auto simp: tree_at_def foc_def)
  have "tree_at T5 k (recol b BLACK (recol p BLACK (recol w c ?t))) p"
    unfolding T5_def using at nn dd by (intro tree_at_set_color) (auto simp: caddrs_eq)
  moreover have "recol b BLACK (recol p BLACK (recol w c ?t)) = Nd t p BLACK (Nd wl w c (Nd a b BLACK d))"
    using dd by auto
  ultimately have "tree_at T5 k (Nd t p BLACK (Nd wl w c (Nd a b BLACK d))) p" by simp
  from tree_at_left_rotate [OF this]
  show "tree_at (rbtree_left_rotate T5 p) k (Nd (Nd t p BLACK wl) w c (Nd a b BLACK d)) w"
    "same_payload T (rbtree_left_rotate T5 p)"
    by (simp_all add: T5_def same_payload_def set_color_def)
qed

lemma del_tail_reads:
  assumes at: "tree_at T (FL p c (Nd wl w cw wr) # k) t x"
  shows "rb_right T p = w" "rb_color T p = c" "rb_color T (rb_left T w) = pcol wl"
    "rb_color T (rb_right T w) = pcol wr" "rb_left T p = x"
    "tree_at T k (Nd t p c (Nd wl w cw wr)) p"
proof -
  show up: "tree_at T k (Nd t p c (Nd wl w cw wr)) p" using tree_at_up [OF at] by simp
  show w: "rb_right T p = w" "rb_color T p = c" "rb_left T p = x"
    using at by (auto simp: tree_at_def foc_def)
  have "tree_at T (FR t p c # k) (Nd wl w cw wr) w" using tree_at_down(2) [OF up] w by simp
  from tree_at_node [OF this]
  show "rb_color T (rb_left T w) = pcol wl" "rb_color T (rb_right T w) = pcol wr" by simp_all
qed

lemma del_tail_far:
  assumes at: "tree_at T (FL p c (Nd wl w cw (Nd a b RED d)) # k) t x" and par: "rb_parent T x = p"
  shows "\<exists>T'. del_tail T x w = (T', rb_root T') \<and> same_payload T T' \<and>
    tree_at T' k (Nd (Nd t p BLACK wl) w c (Nd a b BLACK d)) w"
proof -
  note rd = del_tail_reads [OF at]
  have w: "tree_at T (FR t p c # k) (Nd wl w cw (Nd a b RED d)) w"
    using tree_at_down(2) [OF rd(6)] rd(1) by simp
  have b: "rb_right T w = b" using tree_at_child(2) [OF w refl] by simp
  have "w \<noteq> p" using rd(6) by (auto simp: tree_at_def addrs_plug)
  then have "del_tail T x w = (let T' = rbtree_left_rotate (set_color b BLACK (set_color p BLACK (set_color w c T))) p
      in (T', rb_root T'))"
    using rd(1-5) par b by (simp add: del_tail_def Let_def)
  then show ?thesis using final_rotation [OF rd(6)] by (auto simp: Let_def)
qed

lemma tree_at_unique: "tree_at T k t x \<Longrightarrow> tree_at T' k' t y \<Longrightarrow> rb_nil T' = rb_nil T \<Longrightarrow> y = x"
  by (cases t) (auto simp: tree_at_def foc_def)

text \<open>Near nephew red, far one black: a rotation at the sibling leads to the previous case.\<close>

lemma del_tail_near:
  assumes at: "tree_at T (FL p c (Nd (Nd a b RED d) w cw wr) # k) t x" and par: "rb_parent T x = p"
    and far: "pcol wr = BLACK"
  shows "\<exists>T'. del_tail T x w = (T', rb_root T') \<and> same_payload T T' \<and>
    tree_at T' k (Nd (Nd t p BLACK a) b c (Nd d w BLACK wr)) b"
proof -
  note rd = del_tail_reads [OF at]
  let ?w = "Nd (Nd a b RED d) w cw wr"
  have w: "tree_at T (FR t p c # k) ?w w" using tree_at_down(2) [OF rd(6)] rd(1) by simp
  have b: "rb_left T w = b" using tree_at_child(1) [OF w refl] by simp
  let ?B = "set_color w RED (set_color b BLACK T)"
  let ?C = "rbtree_right_rotate ?B w"
  have dd: "distinct (before k @ (addrs t @ p # ((addrs a @ b # addrs d) @ w # addrs wr)) @ after k)"
    using rd(6) by (simp add: tree_at_def addrs_plug)
  have nn: "w \<noteq> rb_nil T" "b \<noteq> rb_nil T" using w by (auto simp: tree_at_def foc_def)
  have "tree_at ?B (FR t p c # k) (recol w RED (recol b BLACK ?w)) w"
    using w nn dd by (intro tree_at_set_color) (auto simp: caddrs_eq)
  moreover have "recol w RED (recol b BLACK ?w) = Nd (Nd a b BLACK d) w RED wr" using dd by auto
  ultimately have "tree_at ?B (FR t p c # k) (Nd (Nd a b BLACK d) w RED wr) w" by simp
  note rot = tree_at_right_rotate [OF this]
  have up: "tree_at ?C k (Nd t p c (Nd a b BLACK (Nd d w RED wr))) p" using tree_at_up [OF rot(1)] by simp
  have sp: "same_payload T ?C" using rot(2) by (simp add: same_payload_def set_color_def)
  have nil: "rb_nil ?C = rb_nil T" using sp by (simp add: same_payload_def)
  have lx: "rb_left ?C p = x"
    using tree_at_unique [OF at tree_at_down(1) [OF up] nil] .
  have at2: "tree_at ?C (FL p c (Nd a b BLACK (Nd d w RED wr)) # k) t x"
    using tree_at_down(1) [OF up] lx by simp
  have par2: "rb_parent ?C x = p"
    using keeps_parent [OF at2, of T] rot(3) par nil by simp
  have rC: "rb_right ?C p = b" using del_tail_reads(1) [OF at2] .
  have "del_tail ?C x b = del_tail T x w"
    using rd(1-5) par far b del_tail_reads(1-5) [OF at2] par2 rC
    by (simp add: del_tail_def Let_def)
  then show ?thesis using del_tail_far [OF at2 par2] same_payload_trans [OF sp] by auto
qed

text \<open>Both nephews black: the sibling becomes red and the defect moves up.\<close>

lemma del_tail_up:
  assumes at: "tree_at T (FL p c (Nd wl w cw wr) # k) t x" and par: "rb_parent T x = p"
    and blk: "pcol wl = BLACK" "pcol wr = BLACK"
  shows "del_tail T x w = (set_color w RED T, p)"
    "tree_at (set_color w RED T) k (Nd t p c (Nd wl w RED wr)) p"
proof -
  note rd = del_tail_reads [OF at]
  show "del_tail T x w = (set_color w RED T, p)" using rd par blk by (simp add: del_tail_def)
  have dd: "distinct (before k @ (addrs t @ p # (addrs wl @ w # addrs wr)) @ after k)"
    using rd(6) by (simp add: tree_at_def addrs_plug)
  have "w \<noteq> rb_nil T" using rd(6) by (auto simp: tree_at_def foc_def)
  then have "tree_at (set_color w RED T) k (recol w RED (Nd t p c (Nd wl w cw wr))) p"
    using rd(6) dd by (intro tree_at_set_color) (auto simp: caddrs_eq)
  moreover have "recol w RED (Nd t p c (Nd wl w cw wr)) = Nd t p c (Nd wl w RED wr)" using dd by auto
  ultimately show "tree_at (set_color w RED T) k (Nd t p c (Nd wl w RED wr)) p" by simp
qed

text \<open>An iteration with a black sibling either finishes the tree or moves one level up.\<close>

lemma del_tail_correct:
  assumes inv: "del_inv T (FL p c (Nd wl w BLACK wr) # k) t x" and blk: "pcol t = BLACK"
  defines "as \<equiv> addrs (plug k (Nd t p c (Nd wl w BLACK wr)))"
  shows "\<exists>T' x'. del_tail T x w = (T', x') \<and> same_payload T T' \<and>
    (x' = rb_root T' \<and> repaired T as T' \<or>
     (\<exists>t'. del_inv T' k t' x' \<and> pcol t' = c \<and> addrs (plug k t') = as))"
proof -
  have at: "tree_at T (FL p c (Nd wl w BLACK wr) # k) t x" and par: "rb_parent T x = p"
    using inv by (auto simp: del_inv_def)
  have I: "invc t" "invh t" "invc wl" "invc wr" "invh wl" "invh wr" "bh wl = bh wr" "bh wl = bh t"
    "ctx_c k c" "ctx_h k (if c = BLACK then bh t + 2 else bh t + 1)"
    using inv blk by (auto simp: del_inv_def paintb_black)
  show ?thesis
  proof (cases "pcol wr = RED")
    case True
    then obtain a b d where wr: "wr = Nd a b RED d" by (cases wr) auto
    obtain T' where T': "del_tail T x w = (T', rb_root T')" "same_payload T T'"
      "tree_at T' k (Nd (Nd t p BLACK wl) w c (Nd a b BLACK d)) w"
      using del_tail_far [OF at [unfolded wr] par] by blast
    have "rbt (plug k (Nd (Nd t p BLACK wl) w c (Nd a b BLACK d)))"
      using I wr unfolding rbt_plug by (cases c) auto
    from repairedI [OF T'(3) this T'(2)] have "repaired T as T'" by (simp add: as_def addrs_plug wr)
    then show ?thesis using T' by blast
  next
    case far: False
    show ?thesis
    proof (cases "pcol wl = RED")
      case True
      then obtain a b d where wl: "wl = Nd a b RED d" by (cases wl) auto
      obtain T' where T': "del_tail T x w = (T', rb_root T')" "same_payload T T'"
        "tree_at T' k (Nd (Nd t p BLACK a) b c (Nd d w BLACK wr)) b"
        using del_tail_near [OF at [unfolded wl] par] far by auto
      have "rbt (plug k (Nd (Nd t p BLACK a) b c (Nd d w BLACK wr)))"
        using I wl unfolding rbt_plug by (cases c) auto
      from repairedI [OF T'(3) this T'(2)] have "repaired T as T'" by (simp add: as_def addrs_plug wl)
      then show ?thesis using T' by blast
    next
      case near: False
      note up = del_tail_up [OF at par]
      let ?t' = "Nd t p c (Nd wl w RED wr)"
      have "del_inv (set_color w RED T) k ?t' p"
        using up near far I blk tree_at_node(3) [OF up(2)] ctx_c_BLACK [of k c]
        by (cases c) (auto simp: del_inv_def cpar_def split: list.splits)
      then show ?thesis using up(1) near far
        by (intro exI [of _ "set_color w RED T"] exI [of _ p] conjI) (auto simp: as_def addrs_plug)
    qed
  qed
qed

text \<open>A red sibling is rotated away first.\<close>

lemma del_red_sibling:
  assumes inv: "del_inv T (FL p c (Nd wl w RED wr) # k) t x"
  defines "C \<equiv> rbtree_left_rotate (set_color p RED (set_color w BLACK T)) p"
  shows "del_inv C (FL p RED wl # FL w BLACK wr # k) t x" "same_payload T C" "rb_right C (rb_parent C x) = rb_left T w"
    "\<exists>a b d. wl = Nd a b BLACK d \<and> rb_left T w = b"
proof -
  have at: "tree_at T (FL p c (Nd wl w RED wr) # k) t x" and par: "rb_parent T x = p"
    using inv by (auto simp: del_inv_def)
  note rd = del_tail_reads [OF at]
  let ?t = "Nd t p c (Nd wl w RED wr)"
  have dd: "distinct (before k @ (addrs t @ p # (addrs wl @ w # addrs wr)) @ after k)"
    using rd(6) by (simp add: tree_at_def addrs_plug)
  have nn: "p \<noteq> rb_nil T" "w \<noteq> rb_nil T" using rd(6) by (auto simp: tree_at_def foc_def)
  let ?B = "set_color p RED (set_color w BLACK T)"
  have "tree_at ?B k (recol p RED (recol w BLACK ?t)) p"
    using rd(6) nn dd by (intro tree_at_set_color) (auto simp: caddrs_eq)
  moreover have "recol p RED (recol w BLACK ?t) = Nd t p RED (Nd wl w BLACK wr)" using dd by auto
  ultimately have "tree_at ?B k (Nd t p RED (Nd wl w BLACK wr)) p" by simp
  note rot = tree_at_left_rotate [OF this, folded C_def]
  show sp: "same_payload T C" using rot(2) by (simp add: same_payload_def set_color_def)
  have nil: "rb_nil C = rb_nil T" using sp by (simp add: same_payload_def)
  have w: "tree_at C (FL w BLACK wr # k) (Nd t p RED wl) p"
    using tree_at_down(1) [OF rot(1)] tree_at_child(1) [OF rot(1) refl] by simp
  have "rb_left C p = x" using tree_at_unique [OF at tree_at_down(1) [OF w] nil] .
  then have at2: "tree_at C (FL p RED wl # FL w BLACK wr # k) t x" using tree_at_down(1) [OF w] by simp
  have par2: "rb_parent C x = p" using keeps_parent [OF at2, of T] rot(3) par nil by simp
  have I: "c = BLACK" "bh wl = bh t + 1" "pcol wl = BLACK"
    using inv by (auto simp: del_inv_def)
  then obtain a b d where wl: "wl = Nd a b BLACK d" by (cases wl) auto
  have b: "rb_left T w = b"
    using at wl by (auto simp: tree_at_def foc_def)
  show "\<exists>a b d. wl = Nd a b BLACK d \<and> rb_left T w = b" using wl b by blast
  show "rb_right C (rb_parent C x) = rb_left T w" using del_tail_reads(1) at2 par2 wl b by simp
  show "del_inv C (FL p RED wl # FL w BLACK wr # k) t x"
    using inv at2 par2 I unfolding del_inv_def by auto
qed

definition del_out :: "'v rbtree \<Rightarrow> addr list \<Rightarrow> nat \<Rightarrow> 'v rbtree \<Rightarrow> addr \<Rightarrow> bool" where
  "del_out T as n T' x' \<longleftrightarrow> same_payload T T' \<and>
     (x' = rb_root T' \<and> repaired T as T' \<or>
      (\<exists>k t. del_inv T' k t x' \<and> addrs (plug k t) = as \<and> (length k < n \<or> pcol t = RED)))"

lemma del_out_trans: "same_payload T U \<Longrightarrow> del_out U as n T' x' \<Longrightarrow> del_out T as n T' x'"
  unfolding del_out_def by (auto intro: same_payload_trans repaired_trans)

lemma del_out_mirror:
  assumes "del_out (mirror T) as n U x'"
  shows "del_out T (rev as) n (mirror U) x'"
proof -
  have sp: "same_payload T (mirror U)" using assms same_payload_mirror [of T "mirror U"] by (simp add: del_out_def)
  consider (ended) "x' = rb_root U" "repaired (mirror T) as U"
    | (more) k t where "del_inv U k t x'" "addrs (plug k t) = as" "length k < n \<or> pcol t = RED"
    using assms by (auto simp: del_out_def)
  then show ?thesis
  proof cases
    case ended
    then show ?thesis using sp repaired_mirror [OF ended(2)] by (simp add: del_out_def)
  next
    case more
    have "addrs (plug (map mirf k) (mir t)) = rev as" using more(2) by (simp add: mir_plug)
    moreover have "length (map mirf k) < n \<or> pcol (mir t) = RED" using more(3) by simp
    ultimately show ?thesis using sp del_inv_mirror [OF more(1)] unfolding del_out_def by blast
  qed
qed

lemma del_step_left:
  assumes inv: "del_inv T (FL p c s # k) t x" and blk: "pcol t = BLACK"
  shows "\<exists>T' x'. delete_fixup_step T x = (T', x') \<and>
    del_out T (addrs (plug (FL p c s # k) t)) (Suc (length k)) T' x'"
proof -
  have "bh s = bh t + 1" using inv by (simp add: del_inv_def)
  then obtain wl w cw wr where s: "s = Nd wl w cw wr" by (cases s) auto
  have at: "tree_at T (FL p c (Nd wl w cw wr) # k) t x" and par: "rb_parent T x = p"
    using inv s by (auto simp: del_inv_def)
  note rd = del_tail_reads [OF at]
  have cw: "rb_color T w = cw" using rd(6) by (auto simp: tree_at_def foc_def)
  have st: "delete_fixup_step T x = (let B = set_color p RED (set_color w BLACK T); C = rbtree_left_rotate B p
      in if cw = RED then del_tail C x (rb_right C (rb_parent C x)) else del_tail T x w)"
    using rd par cw by (simp add: delete_fixup_step_left Let_def)
  show ?thesis
  proof (cases cw)
    case BLACK
    have "delete_fixup_step T x = del_tail T x w" using st BLACK by (simp add: Let_def)
    then show ?thesis using del_tail_correct [of T p c wl w wr k t x] inv blk s BLACK
      by (auto simp: del_out_def)
  next
    case RED
    define C where "C = rbtree_left_rotate (set_color p RED (set_color w BLACK T)) p"
    note red = del_red_sibling [OF inv [unfolded s RED], folded C_def]
    obtain a b d where wl: "wl = Nd a b BLACK d" "rb_left T w = b" using red(4) by blast
    have st': "delete_fixup_step T x = del_tail C x b" using st RED red(3) wl(2) by (simp add: Let_def C_def)
    have as: "addrs (plug (FL p c s # k) t) = addrs (plug (FL w BLACK wr # k) (Nd t p RED (Nd a b BLACK d)))"
      by (simp add: s addrs_plug wl(1))
    obtain T' x' where T': "del_tail C x b = (T', x')"
      "del_out C (addrs (plug (FL p c s # k) t)) (Suc (length k)) T' x'"
      using del_tail_correct [OF red(1) [unfolded wl(1)] blk] unfolding del_out_def as by blast
    show ?thesis using st' T'(1) del_out_trans [OF red(2) T'(2)] by simp
  qed
qed

text \<open>The other half of the iteration is its mirror image.\<close>

lemma delete_fixup_step_mirror:
  assumes "x \<noteq> rb_left T (rb_parent T x)" "x = rb_right T (rb_parent T x)"
  shows "delete_fixup_step T x = map_prod mirror id (delete_fixup_step (mirror T) x)"
proof -
  have "x = rb_left (mirror T) (rb_parent (mirror T) x)" using assms by simp
  then show ?thesis
    using assms(1) unfolding delete_fixup_step_def
    by (simp add: Let_def left_rotate_mirror right_rotate_mirror conj_commute split_def
        mirror_assign(1) [symmetric] del: mirror_assign)
qed

lemma del_step_right:
  assumes inv: "del_inv T (FR s p c # k) t x" and blk: "pcol t = BLACK"
  shows "\<exists>T' x'. delete_fixup_step T x = (T', x') \<and>
    del_out T (addrs (plug (FR s p c # k) t)) (Suc (length k)) T' x'"
proof -
  have at: "tree_at T (FR s p c # k) t x" and par: "rb_parent T x = p" and s: "bh s = bh t + 1"
    using inv by (auto simp: del_inv_def)
  from s obtain wl w cw wr where w: "s = Nd wl w cw wr" by (cases s) auto
  have "rb_right T p = x" "rb_left T p \<noteq> rb_nil T" using at w by (auto simp: tree_at_def foc_def)
  moreover have "rb_left T p \<noteq> x"
    using focus_side [of T "FR s p c" k t x] at calculation by (cases "x = rb_nil T") (auto simp: tree_at_def)
  ultimately have step: "delete_fixup_step T x = map_prod mirror id (delete_fixup_step (mirror T) x)"
    using delete_fixup_step_mirror [of x T] par by auto
  have "del_inv (mirror T) (FL p c (mir s) # map mirf k) (mir t) x" using del_inv_mirror [OF inv] by simp
  from del_step_left [OF this] blk obtain U x' where U: "delete_fixup_step (mirror T) x = (U, x')"
    "del_out (mirror T) (addrs (plug (map mirf (FR s p c # k)) (mir t))) (Suc (length k)) U x'" by auto
  have "del_out T (addrs (plug (FR s p c # k) t)) (Suc (length k)) (mirror U) x'"
    using del_out_mirror [OF U(2)] unfolding mir_plug by simp
  then show ?thesis using step U(1) by simp
qed

lemma del_step:
  assumes "del_inv T (f # k) t x" "pcol t = BLACK"
  shows "\<exists>T' x'. delete_fixup_step T x = (T', x') \<and>
    del_out T (addrs (plug (f # k) t)) (Suc (length k)) T' x'"
proof (cases f)
  case (FL p c s)
  show ?thesis using del_step_left [OF assms(1) [unfolded FL] assms(2)] FL by simp
next
  case (FR s p c)
  show ?thesis using del_step_right [OF assms(1) [unfolded FR] assms(2)] FR by simp
qed

lemma delete_fixup_at_root: "x = rb_root T \<Longrightarrow> repaired U as T \<Longrightarrow> rbtree_delete_fixup T x = Some T"
  by (subst rbtree_delete_fixup.simps) (simp add: repaired_root_black)

text \<open>The loop ends, and leaves a red-black tree over the same nodes.\<close>

lemma delete_fixup_correct:
  "del_inv T k t x \<Longrightarrow>
   \<exists>T'. rbtree_delete_fixup T x = Some T' \<and> repaired T (addrs (plug k t)) T'"
proof (induction k arbitrary: T t x rule: length_induct)
  case (1 k)
  show ?case
  proof (cases "k = [] \<or> pcol t = RED")
    case True
    then show ?thesis by (rule delete_fixup_done [OF "1.prems"])
  next
    case False
    then obtain f k0 where k: "k = f # k0" and blk: "pcol t = BLACK" by (cases k) auto
    have at: "tree_at T k t x" using "1.prems" by (simp add: del_inv_def)
    obtain T1 x1 where s: "delete_fixup_step T x = (T1, x1)" "del_out T (addrs (plug k t)) (length k) T1 x1"
      using del_step [OF "1.prems" [unfolded k] blk] k by auto
    have "x \<noteq> rb_root T" "rb_color T x = BLACK"
      using focus_not_root [OF at] tree_at_color [OF at] k blk by auto
    then have run: "rbtree_delete_fixup T x = rbtree_delete_fixup T1 x1"
      using s(1) by (subst rbtree_delete_fixup.simps) simp
    consider (ended) "x1 = rb_root T1" "repaired T (addrs (plug k t)) T1"
      | (more) k1 t1 where "del_inv T1 k1 t1 x1" "addrs (plug k1 t1) = addrs (plug k t)"
          "length k1 < length k \<or> pcol t1 = RED"
      using s(2) unfolding del_out_def by blast
    then show ?thesis
    proof cases
      case ended
      then show ?thesis using run delete_fixup_at_root by metis
    next
      case more
      then have "\<exists>T'. rbtree_delete_fixup T1 x1 = Some T' \<and> repaired T1 (addrs (plug k t)) T'"
        using "1.IH" delete_fixup_done [OF more(1)] by metis
      then show ?thesis using run s(2) repaired_trans unfolding del_out_def by metis
    qed
  qed
qed

end
