(* ===== verification/KVS_RBStore.thy ===== *)
theory KVS_RBStore
  imports KVS_RBDel
begin

text \<open>
  Search, insertion and deletion of \<open>kvs_rbtree.c\<close> on trees in key order: each ends, keeps the
  tree a red-black search tree and changes its set of nodes as it should.
\<close>

subsection \<open>Red-black search trees\<close>

text \<open>The tree of \<open>T\<close> is a red-black tree over the nodes \<open>N\<close>, in the order of their keys.\<close>

definition rb_tree :: "'v rbtree \<Rightarrow> addr set \<Rightarrow> bool" where
  "rb_tree T N \<longleftrightarrow> (\<exists>t. tree_at T [] t (rb_root T) \<and> rbt t \<and> set (addrs t) = N \<and>
     sorted_wrt (<) (map (rb_key T) (addrs t)))"

lemma search_from_hit:
  assumes "rep T t x par" "sorted_wrt (<) (map (rb_key T) (addrs t))" "a \<in> set (addrs t)"
  shows "search_from T (rb_key T a) x = Some a"
  using assms
proof (induction t arbitrary: x par)
  case (Nd l b c r)
  show ?case
  proof (cases "a = b")
    case True
    then show ?thesis using Nd.prems by (subst search_from.simps) simp
  next
    case False
    consider "a \<in> set (addrs l)" "rb_key T a < rb_key T b" | "a \<in> set (addrs r)" "rb_key T b < rb_key T a"
      using Nd.prems False by (auto simp: sorted_wrt_append)
    then show ?thesis using Nd by cases (subst search_from.simps, auto simp: sorted_wrt_append)+
  qed
qed simp

lemma search_from_miss:
  assumes "rep T t x par" "k \<notin> rb_key T ` set (addrs t)"
  shows "search_from T k x = Some (rb_nil T)"
  using assms
proof (induction t arbitrary: x par)
  case (Nd l b c r)
  have "search_from T k (rb_left T b) = Some (rb_nil T)" "search_from T k (rb_right T b) = Some (rb_nil T)"
    by (rule Nd.IH(1) [of _ b] Nd.IH(2) [of _ b]; use Nd.prems in auto)+
  then show ?case using Nd.prems by (subst search_from.simps) auto
qed (subst search_from.simps, simp)

lemma search_hit: "rb_tree T N \<Longrightarrow> a \<in> N \<Longrightarrow> rbtree_search T (rb_key T a) = Some a"
  by (auto simp: rb_tree_def tree_at_def foc_def rbtree_search_def intro: search_from_hit)

lemma search_miss: "rb_tree T N \<Longrightarrow> k \<notin> rb_key T ` N \<Longrightarrow> rbtree_search T k = Some (rb_nil T)"
  by (auto simp: rb_tree_def tree_at_def foc_def rbtree_search_def intro: search_from_miss)

lemma rb_tree_nil: "rb_tree T N \<Longrightarrow> rb_nil T \<notin> N"
  using rep_not_nil by (auto simp: rb_tree_def tree_at_def foc_def)

lemma rb_tree_inj: "rb_tree T N \<Longrightarrow> inj_on (rb_key T) N"
  using search_hit by (metis inj_onI option.inject)

lemma rb_tree_finite: "rb_tree T N \<Longrightarrow> finite N"
  by (auto simp: rb_tree_def)

text \<open>Payload changes that keep the links and the keys.\<close>

lemma rb_tree_links:
  assumes "rb_tree T N" "agree_on N T U" "rb_root U = rb_root T" "rb_color U (rb_nil T) = BLACK"
    "\<And>a. a \<in> N \<Longrightarrow> rb_key U a = rb_key T a"
  shows "rb_tree U N"
proof -
  obtain t where t: "tree_at T [] t (rb_root T)" "rbt t" "set (addrs t) = N"
    "sorted_wrt (<) (map (rb_key T) (addrs t))" using assms(1) by (auto simp: rb_tree_def)
  have "rb_nil U = rb_nil T" using assms(2) by (simp add: agree_on_def)
  then have "tree_at U [] t (rb_root U)"
    using t foc_agree [of T "[]" t "rb_root T" U] assms(2-4) by (simp add: tree_at_def)
  moreover have "map (rb_key U) (addrs t) = map (rb_key T) (addrs t)" using assms(5) t(3) by simp
  ultimately show ?thesis using t unfolding rb_tree_def by metis
qed

subsection \<open>Insertion\<close>

lemma insert_descend_path:
  assumes "tree_at T k t x" "q \<notin> rb_key T ` set (addrs t)"
    "\<And>a. a \<in> set (before k) \<Longrightarrow> rb_key T a < q" "\<And>a. a \<in> set (after k) \<Longrightarrow> q < rb_key T a"
    "sorted_wrt (<) (map (rb_key T) (addrs t))"
  shows "\<exists>k'. insert_descend T q x (cpar T k) = Some (Some (cpar T k')) \<and> tree_at T k' Lf (rb_nil T) \<and>
    plug k' Lf = plug k t \<and> (\<forall>a \<in> set (before k'). rb_key T a < q) \<and> (\<forall>a \<in> set (after k'). q < rb_key T a)"
  using assms
proof (induction t arbitrary: k x)
  case Lf
  then show ?case
    by (intro exI [of _ k]) (subst insert_descend.simps, auto simp: tree_at_def foc_def)
next
  case (Nd l b c r)
  note nd = tree_at_node [OF Nd.prems(1)]
  have ord: "\<forall>a \<in> set (addrs l). rb_key T a < rb_key T b" "\<forall>a \<in> set (addrs r). rb_key T b < rb_key T a"
    "sorted_wrt (<) (map (rb_key T) (addrs l))" "sorted_wrt (<) (map (rb_key T) (addrs r))"
    using Nd.prems(5) by (auto simp: sorted_wrt_append)
  have at: "tree_at T k (Nd l b c r) b" using Nd.prems(1) nd(1) by simp
  have "q \<noteq> rb_key T b" using Nd.prems(2) by auto
  then consider "q < rb_key T b" | "rb_key T b < q" by (meson linorder_neq_iff)
  then show ?case
  proof cases
    case 1
    have "insert_descend T q x (cpar T k) = insert_descend T q (rb_left T b) (cpar T (FL b c r # k))"
      using 1 nd by (subst insert_descend.simps) simp
    moreover have "\<exists>k'. insert_descend T q (rb_left T b) (cpar T (FL b c r # k)) = Some (Some (cpar T k')) \<and>
      tree_at T k' Lf (rb_nil T) \<and> plug k' Lf = plug (FL b c r # k) l \<and>
      (\<forall>a \<in> set (before k'). rb_key T a < q) \<and> (\<forall>a \<in> set (after k'). q < rb_key T a)"
      by (rule Nd.IH(1) [OF tree_at_down(1) [OF at]]) (use 1 Nd.prems ord in \<open>auto intro: less_trans\<close>)
    ultimately show ?thesis by simp
  next
    case 2
    have "insert_descend T q x (cpar T k) = insert_descend T q (rb_right T b) (cpar T (FR l b c # k))"
      using 2 nd less_not_sym [OF 2] by (subst insert_descend.simps) simp
    moreover have "\<exists>k'. insert_descend T q (rb_right T b) (cpar T (FR l b c # k)) = Some (Some (cpar T k')) \<and>
      tree_at T k' Lf (rb_nil T) \<and> plug k' Lf = plug (FR l b c # k) r \<and>
      (\<forall>a \<in> set (before k'). rb_key T a < q) \<and> (\<forall>a \<in> set (after k'). q < rb_key T a)"
      by (rule Nd.IH(2) [OF tree_at_down(2) [OF at]]) (use 2 Nd.prems ord in \<open>auto intro: less_trans\<close>)
    ultimately show ?thesis by simp
  qed
qed

text \<open>Hanging the new node below the path that was found.\<close>

lemma insert_link:
  assumes at: "tree_at T k Lf (rb_nil T)" and z: "z \<notin> caddrs k" "z \<noteq> rb_nil T"
  defines "T5 \<equiv> set_color z RED (set_right z (rb_nil T) (set_left z (rb_nil T) (relink k z (set_parent z (cpar T k) T))))"
  shows "tree_at T5 k (Nd Lf z RED Lf) z"
proof -
  have d: "distinct (addrs (plug k Lf))" and c: "crep T k (rb_nil T)" and b: "rb_color T (rb_nil T) = BLACK"
    using at by (auto simp: tree_at_def foc_def)
  have "crep (set_parent z (cpar T k) T) k (rb_nil T)"
    by (rule crep_agree [OF c]) (use z in auto)
  then have "crep (relink k z (set_parent z (cpar T k) T)) k z"
    by (rule crep_relink) (use d in \<open>simp add: path_ok_def addrs_plug\<close>)
  then have "crep T5 k z"
    unfolding T5_def by (rule crep_agree) (use z in auto)
  moreover have "cpar T5 k = cpar T k" by (simp add: T5_def cpar_def split: list.splits)
  moreover have "distinct (addrs (plug k (Nd Lf z RED Lf)))" using d z(1) by (auto simp: addrs_plug caddrs_eq)
  ultimately show ?thesis using z(2) b unfolding tree_at_def foc_def by (simp add: T5_def)
qed

lemma insert_side:
  assumes at: "tree_at T k Lf (rb_nil T)" and lo: "\<forall>a \<in> set (before k). rb_key T a < q"
    and hi: "\<forall>a \<in> set (after k). q < rb_key T a"
  shows "(if cpar T k = rb_nil T then set_root z U
     else if q < rb_key T (cpar T k) then set_left (cpar T k) z U else set_right (cpar T k) z U) = relink k z U"
proof (cases k)
  case (Cons f k')
  have "cpar T k \<noteq> rb_nil T" using at Cons by (cases f) (auto simp: tree_at_def foc_def)
  then show ?thesis using lo hi Cons by (cases f) (auto simp: relink_def dest: less_not_sym)
qed (simp add: relink_def)

lemma payload_assign: "rb_key (set_parent p q T) = rb_key T" "rb_live (set_parent p q T) = rb_live T"
  by (simp_all add: set_parent_def)

lemma insert_correct:
  assumes tr: "rb_tree T N" and z: "z \<notin> N" "z \<noteq> rb_nil T" "rb_key T z \<notin> rb_key T ` N"
  shows "\<exists>T'. rbtree_insert T z = Some T' \<and> rb_tree T' (insert z N) \<and> same_payload T T'"
proof -
  obtain t where t: "tree_at T [] t (rb_root T)" "rbt t" "set (addrs t) = N"
    "sorted_wrt (<) (map (rb_key T) (addrs t))" using tr by (auto simp: rb_tree_def)
  obtain k where k: "insert_descend T (rb_key T z) (rb_root T) (rb_nil T) = Some (Some (cpar T k))"
    "tree_at T k Lf (rb_nil T)" "plug k Lf = t"
    "\<forall>a \<in> set (before k). rb_key T a < rb_key T z" "\<forall>a \<in> set (after k). rb_key T z < rb_key T a"
    using insert_descend_path [of T "[]" t "rb_root T" "rb_key T z"] t z(3) by auto
  have as: "addrs t = before k @ after k" using k(3) addrs_plug [of k Lf] by simp
  define T5 where "T5 = set_color z RED (set_right z (rb_nil T) (set_left z (rb_nil T)
      (relink k z (set_parent z (cpar T k) T))))"
  have "tree_at T5 k (Nd Lf z RED Lf) z"
    unfolding T5_def by (rule insert_link [OF k(2)]) (use z t(3) as in \<open>auto simp: caddrs_eq\<close>)
  moreover have "ctx_c k BLACK" "ctx_h k 0" using t(2) k(3) by (auto simp: rbt_plug)
  ultimately have "ins_inv T5 k (Nd Lf z RED Lf) z" by (simp add: ins_inv_def)
  from insert_fixup_correct [OF this] obtain T' where T': "rbtree_insert_fixup T5 z = Some T'"
    "repaired T5 (before k @ z # after k) T'" by (auto simp: addrs_plug)
  have sp: "same_payload T T5" by (simp add: T5_def)
  define T1 where "T1 = set_parent z (cpar T k) T"
  have T1: "rb_nil T1 = rb_nil T" "rb_key T1 = rb_key T" by (simp_all add: T1_def payload_assign)
  have side: "(if cpar T k = rb_nil T1 then set_root z T1
     else if strcmp (rb_key T1 z) (rb_key T1 (cpar T k)) < 0 then set_left (cpar T k) z T1
     else set_right (cpar T k) z T1) = relink k z T1"
    unfolding T1 strcmp_less_0 by (rule insert_side [OF k(2,4,5)])
  have "rbtree_insert T z = rbtree_insert_fixup T5 z"
    unfolding rbtree_insert_def k(1) option.case Let_def T1_def [symmetric] side
    by (simp add: T5_def T1_def)
  then have "rbtree_insert T z = Some T'" using T'(1) by simp
  moreover have "same_payload T T'" using repaired_trans [OF sp T'(2)] by (simp add: repaired_def)
  moreover have "rb_tree T' (insert z N)"
    using T'(2) t(3,4) k(4,5) calculation(2)
    by (auto simp: repaired_def rb_tree_def as sorted_wrt_append same_payload_def)
  ultimately show ?thesis by blast
qed

subsection \<open>Deletion\<close>

lemma node_path:
  "tree_at T k t x \<Longrightarrow> a \<in> set (addrs t) \<Longrightarrow>
   \<exists>k' l c r. tree_at T k' (Nd l a c r) a \<and> plug k' (Nd l a c r) = plug k t"
proof (induction t arbitrary: k x)
  case (Nd l b c r)
  have at: "tree_at T k (Nd l b c r) b" using Nd.prems(1) tree_at_node(1) [OF Nd.prems(1)] by simp
  consider "a = b" | "a \<in> set (addrs l)" | "a \<in> set (addrs r)" using Nd.prems(2) by auto
  then show ?case
  proof cases
    case 1
    then show ?thesis using at by blast
  next
    case 2
    then show ?thesis using Nd.IH(1) [OF tree_at_down(1) [OF at]] by simp
  next
    case 3
    then show ?thesis using Nd.IH(2) [OF tree_at_down(2) [OF at]] by simp
  qed
qed simp

lemma mini_path:
  "tree_at T k t x \<Longrightarrow> t \<noteq> Lf \<Longrightarrow>
   \<exists>k' y c r. rbtree_mini T x = Some y \<and> tree_at T k' (Nd Lf y c r) y \<and>
     plug k' (Nd Lf y c r) = plug k t \<and> before k' = before k"
proof (induction t arbitrary: k x)
  case (Nd l b c r)
  note nd = tree_at_node [OF Nd.prems(1)]
  have at: "tree_at T k (Nd l b c r) b" using Nd.prems(1) nd(1) by simp
  show ?case
  proof (cases "l = Lf")
    case True
    then show ?thesis using at nd(1,7) by (subst rbtree_mini.simps) auto
  next
    case False
    have "rbtree_mini T x = rbtree_mini T (rb_left T b)"
      using nd(1,7) False by (subst rbtree_mini.simps) simp
    then show ?thesis using Nd.IH(1) [OF tree_at_down(1) [OF at] False] by simp
  qed
qed simp

text \<open>Unlinking a node with at most one child.\<close>

lemma splice:
  assumes at: "tree_at T k (Nd l y c r) y" and one: "l = Lf \<or> r = Lf"
  defines "x \<equiv> (if l = Lf then rb_right T y else rb_left T y)"
  defines "T2 \<equiv> relink k x (set_parent x (cpar T k) T)"
  shows "tree_at T2 k (if l = Lf then r else l) x" "rb_parent T2 x = cpar T2 k"
proof -
  define s where "s = (if l = Lf then r else l)"
  have d: "distinct (before k @ (addrs l @ y # addrs r) @ after k)" and nil: "rb_color T (rb_nil T) = BLACK"
    and c: "crep T k y" and s: "rep T s x y"
    using at by (auto simp: tree_at_def foc_def addrs_plug x_def s_def)
  have ds: "distinct (addrs s)" "set (addrs s) \<inter> caddrs k = {}" "distinct (addrs (plug k s))" "path_ok k"
    using d by (auto simp: s_def caddrs_eq addrs_plug path_ok_def)
  have x: "x \<notin> caddrs k" using rep_root_in [OF s] ds(2) path_not_nil [OF c] by auto
  have "rep (set_parent x (cpar T k) T) s x (cpar T k)"
    using rep_reparent [OF s ds(1), of "cpar T k"] s by (cases "x = rb_nil T"; cases s) auto
  then have "rep T2 s x (cpar T k)"
    unfolding T2_def by (rule rep_agree) (use ds(2) in simp)
  moreover have "crep (set_parent x (cpar T k) T) k y"
    by (rule crep_agree [OF c]) (use x in auto)
  then have "crep T2 k x" unfolding T2_def by (rule crep_relink) (rule ds(4))
  moreover have cp: "cpar T2 k = cpar T k" by (simp add: T2_def cpar_def split: list.splits)
  ultimately show "tree_at T2 k (if l = Lf then r else l) x"
    using ds(3) nil unfolding tree_at_def foc_def s_def by (simp add: T2_def)
  show "rb_parent T2 x = cpar T2 k" unfolding cp by (simp add: T2_def)
qed

lemma tree_at_links:
  assumes "tree_at T k t p" "agree_on UNIV T U" "rb_root U = rb_root T"
  shows "tree_at U k t p"
  using assms foc_agree [of T k t p U] agree_on_mono [OF assms(2), of "set (addrs t) \<union> caddrs k"]
  by (auto simp: tree_at_def agree_on_def)

lemma unlinked:
  assumes rb: "rbt (plug k (Nd l y c r))" and one: "l = Lf \<or> r = Lf" 
    and at: "tree_at U k (if l = Lf then r else l) x" "rb_parent U x = cpar U k"
  shows "\<exists>T'. (if c = BLACK then rbtree_delete_fixup U x else Some U) = Some T' \<and>
    repaired U (before k @ addrs l @ addrs r @ after k) T'"
proof -
  define s where "s = (if l = Lf then r else l)"
  have as: "before k @ addrs l @ addrs r @ after k = addrs (plug k s)" using one by (auto simp: s_def addrs_plug)
  have I: "invc s" "invh s" "ctx_c k c" "ctx_h k (if c = BLACK then bh s + 1 else bh s)" "c = RED \<Longrightarrow> pcol s = BLACK"
    using rb one by (auto simp: rbt_plug s_def)
  show ?thesis
  proof (cases c)
    case RED
    have "rbt (plug k s)" using I RED ctx_c_BLACK by (auto simp: rbt_plug)
    then show ?thesis using repairedI [of U k s x U] at(1) RED unfolding as s_def by auto
  next
    case BLACK
    have "invc (paintb s)" using I(1) by (cases s) auto
    then have "del_inv U k s x" using at I BLACK by (simp add: del_inv_def s_def)
    then show ?thesis using delete_fixup_correct [of U k s x] BLACK unfolding as by auto
  qed
qed

lemma swap_payload_links [simp]:
  "agree_on A T (swap_payload z y U) \<longleftrightarrow> agree_on A T U" "rb_root (swap_payload z y U) = rb_root U"
  "rb_color (swap_payload z y U) = rb_color U" "rb_nil (swap_payload z y U) = rb_nil U"
  "rb_parent (swap_payload z y U) = rb_parent U"
  by (simp_all add: swap_payload_def agree_on_def)

lemma delete_code:
  assumes at: "tree_at T k (Nd l y c r) y" and one: "l = Lf \<or> r = Lf" and z: "z \<in> rb_live T"
    and y: "(if rb_left T z = rb_nil T \<or> rb_right T z = rb_nil T then Some z else rbtree_successor T z) = Some y"
  defines "x \<equiv> (if l = Lf then rb_right T y else rb_left T y)"
  defines "T2 \<equiv> relink k x (set_parent x (cpar T k) T)"
  defines "U \<equiv> (if y \<noteq> z then swap_payload z y T2 else T2)"
  shows "rbtree_delete T z = map_option (\<lambda>T'. (T', y)) (if c = BLACK then rbtree_delete_fixup U x else Some U)"
proof -
  note nd = tree_at_node [OF at]
  have x: "(if rb_left T y \<noteq> rb_nil T then rb_left T y
     else if rb_right T y \<noteq> rb_nil T then rb_right T y else rb_nil T) = x"
    using nd(7,8) by (auto simp: x_def)
  have yx: "x \<noteq> y"
  proof -
    have "rep T (if l = Lf then r else l) x y" "y \<notin> set (addrs l @ addrs r)"
      using at by (auto simp: tree_at_def foc_def x_def addrs_plug)
    then show ?thesis using rep_root_in [of T "if l = Lf then r else l" x y] nd(2) by (auto split: if_splits)
  qed
  define T1 where "T1 = set_parent x (cpar T k) T"
  have T1: "rb_parent T1 y = cpar T k" "rb_nil T1 = rb_nil T" "rb_left T1 = rb_left T"
    using yx nd(3) by (simp_all add: T1_def)
  have link: "(if rb_parent T1 y = rb_nil T1 then set_root x T1
      else if y = rb_left T1 (rb_parent T1 y) then set_left (rb_parent T1 y) x T1
      else set_right (rb_parent T1 y) x T1) = T2"
    unfolding T1 T2_def T1_def [symmetric]
    by (rule relink_code(1)) (use at nd(2) in \<open>auto simp: tree_at_def\<close>)
  have col: "rb_color U y = c" using nd(4) by (auto simp: U_def T2_def)
  show ?thesis
    unfolding rbtree_delete_def y option.case Let_def x nd(3) T1_def [symmetric] link U_def [symmetric] col
    using z by simp
qed

lemma delete_at:
  assumes at: "tree_at T k (Nd l y c r) y" and one: "l = Lf \<or> r = Lf" and z: "z \<in> rb_live T"
    and rb: "rbt (plug k (Nd l y c r))"
    and y: "(if rb_left T z = rb_nil T \<or> rb_right T z = rb_nil T then Some z else rbtree_successor T z) = Some y"
  shows "\<exists>T'. rbtree_delete T z = Some (T', y) \<and>
    repaired (if y \<noteq> z then swap_payload z y T else T) (before k @ addrs l @ addrs r @ after k) T'"
proof -
  define x where "x = (if l = Lf then rb_right T y else rb_left T y)"
  define T2 where "T2 = relink k x (set_parent x (cpar T k) T)"
  define U where "U = (if y \<noteq> z then swap_payload z y T2 else T2)"
  note sp = splice [OF at one, folded x_def, folded T2_def]
  have "tree_at U k (if l = Lf then r else l) x" "rb_parent U x = cpar U k"
    using tree_at_links [OF sp(1), of U] sp(2) by (auto simp: U_def cpar_def split: list.splits)
  from unlinked [OF rb one this] obtain T' where
    T': "(if c = BLACK then rbtree_delete_fixup U x else Some U) = Some T'"
      "repaired U (before k @ addrs l @ addrs r @ after k) T'" by blast
  have "same_payload T T2" by (simp add: T2_def)
  then have "same_payload (if y \<noteq> z then swap_payload z y T else T) U"
    by (auto simp: U_def same_payload_def swap_payload_def)
  from repaired_trans [OF this T'(2)] T'(1)
    delete_code [OF at one z y, folded x_def, folded T2_def, folded U_def]
  show ?thesis by simp
qed

text \<open>Deleting a node removes it or its successor; then the successor's key and value
  live on in the node that was to be deleted.\<close>

definition deleted :: "'v rbtree \<Rightarrow> addr \<Rightarrow> addr \<Rightarrow> 'v rbtree \<Rightarrow> bool" where
  "deleted T z y T' \<longleftrightarrow> same_payload (if y \<noteq> z then swap_payload z y T else T) T'"

lemma delete_correct:
  assumes tr: "rb_tree T N" and z: "z \<in> N" "z \<in> rb_live T"
  shows "\<exists>T' y. rbtree_delete T z = Some (T', y) \<and> y \<in> N \<and> rb_tree T' (N - {y}) \<and> deleted T z y T'"
proof -
  obtain t where t: "tree_at T [] t (rb_root T)" "rbt t" "set (addrs t) = N"
    "sorted_wrt (<) (map (rb_key T) (addrs t))" using tr by (auto simp: rb_tree_def)
  obtain k l c r where k: "tree_at T k (Nd l z c r) z" "plug k (Nd l z c r) = t"
    using node_path [OF t(1), of z] z(1) t(3) by auto
  note nd = tree_at_node [OF k(1)]
  have as: "addrs t = before k @ addrs l @ z # addrs r @ after k" using k(2) by (auto simp: addrs_plug)
  have dis: "distinct (addrs t)" using t(1) by (simp add: tree_at_def)
  show ?thesis
  proof (cases "l = Lf \<or> r = Lf")
    case True
    then obtain T' where T': "rbtree_delete T z = Some (T', z)"
      "repaired T (before k @ addrs l @ addrs r @ after k) T'"
      using delete_at [OF k(1) True z(2)] t(2) k(2) nd(7,8) by auto
    have "rb_key T' = rb_key T" using T'(2) by (auto simp: repaired_def same_payload_def)
    moreover have "set (before k @ addrs l @ addrs r @ after k) = N - {z}"
      using dis t(3) [symmetric] unfolding as by auto
    ultimately have "rb_tree T' (N - {z})"
      using T'(2) t(4) unfolding repaired_def rb_tree_def as by (auto simp: sorted_wrt_append)
    then show ?thesis using T' z(1) by (auto simp: deleted_def repaired_def)
  next
    case False
    have r: "tree_at T (FR l z c # k) r (rb_right T z)" by (rule tree_at_down(2) [OF k(1)])
    obtain k' y c' r' where y: "rbtree_mini T (rb_right T z) = Some y" "tree_at T k' (Nd Lf y c' r') y"
      "plug k' (Nd Lf y c' r') = t" "before k' = before k @ addrs l @ [z]"
      using mini_path [OF r] False k(2) by auto
    have as': "addrs t = before k @ addrs l @ z # y # addrs r' @ after k'" using y(3,4) by (auto simp: addrs_plug)
    have yz: "y \<noteq> z" using dis as' by auto
    have succ: "rbtree_successor T z = Some y" using y(1) nd(8) False by (simp add: rbtree_successor_def)
    obtain T' where T': "rbtree_delete T z = Some (T', y)"
      "repaired (swap_payload z y T) (before k @ addrs l @ z # addrs r' @ after k') T'"
      using delete_at [OF y(2) _ z(2), unfolded y(3)] t(2) nd(7,8) False succ yz y(4) by auto
    have keys: "rb_key T' = (rb_key T)(z := rb_key T y, y := rb_key T z)"
      using T'(2) by (auto simp: repaired_def same_payload_def swap_payload_def)
    have nodes: "set (before k @ addrs l @ z # addrs r' @ after k') = N - {y}"
      using dis t(3) [symmetric] unfolding as' by auto
    have "map (rb_key T') (before k @ addrs l @ z # addrs r' @ after k') =
        map (rb_key T) (before k @ addrs l @ y # addrs r' @ after k')"
      using dis unfolding as' keys by auto
    moreover have "sorted_wrt (<) (map (rb_key T) (before k @ addrs l @ y # addrs r' @ after k'))"
      using t(4) unfolding as' by (simp add: sorted_wrt_append)
    ultimately have "rb_tree T' (N - {y})" using T'(2) nodes unfolding repaired_def rb_tree_def by metis
    then show ?thesis using T' yz t(3) as' by (auto simp: deleted_def repaired_def)
  qed
qed

lemma deleted_at:
  assumes "deleted T z y T'" "a \<noteq> z"
  defines "b \<equiv> (if a = y then z else a)"
  shows "b \<noteq> y" "rb_key T' b = rb_key T a" "rb_value T' b = rb_value T a" "rb_expire T' b = rb_expire T b"
  using assms by (auto simp: deleted_def same_payload_def swap_payload_def split: if_splits)

lemma deleted_from:
  assumes "deleted T z y T'" "b \<in> N - {y}" "y \<in> N"
  obtains a where "a \<in> N - {z}" "rb_key T' b = rb_key T a" "rb_value T' b = rb_value T a"
proof (cases "y = z")
  case True
  then show ?thesis using that [of b] assms by (auto simp: deleted_def same_payload_def)
next
  case False
  then show ?thesis using that [of "if b = z then y else b"] assms
    by (auto simp: deleted_def same_payload_def swap_payload_def split: if_splits)
qed

lemma deleted_heap: "deleted T z y T' \<Longrightarrow> rb_live T' = rb_live T \<and> rb_next T' = rb_next T \<and> rb_nil T' = rb_nil T"
  by (auto simp: deleted_def same_payload_def swap_payload_def)

end
