(* ===== verification/KVS_RBEngine.thy ===== *)
theory KVS_RBEngine
  imports KVS_RBStore
begin

text \<open>
  The operations of the red-black tree engine against the contract \<open>kv_store\<close>. The frame law of
  \<open>kv_engine\<close> does not hold for expiry times, because \<open>rbtree_delete\<close> does not move them with
  the key and the value; it does hold while no entry has one.
\<close>

subsection \<open>The engine\<close>

definition rb_heap :: "'v rbtree \<Rightarrow> addr set \<Rightarrow> bool" where
  "rb_heap T N \<longleftrightarrow> rb_tree T N \<and> insert (rb_nil T) N \<subseteq> rb_live T \<and> (\<forall>a \<in> rb_live T. a < rb_next T)"

lemma rb_tree_same:
  assumes "agree_on UNIV T U" "rb_root U = rb_root T" "rb_key U = rb_key T"
  shows "rb_tree U N \<longleftrightarrow> rb_tree T N"
proof -
  have "agree_on UNIV U T" using assms(1) by (simp add: agree_on_def)
  then have "tree_at U [] t (rb_root U) \<longleftrightarrow> tree_at T [] t (rb_root T)" for t
    using assms tree_at_links by metis
  then show ?thesis by (simp add: rb_tree_def assms(3))
qed

lemma rb_tree_free [simp]: "rb_tree (free_rb_node p T) N \<longleftrightarrow> rb_tree T N"
  by (rule rb_tree_same) (simp_all add: free_rb_node_def agree_on_def)

lemma rb_tree_nil_black: "rb_tree T N \<Longrightarrow> rb_color T (rb_nil T) = BLACK"
  by (auto simp: rb_tree_def tree_at_def)

lemma heap_delete:
  assumes h: "rb_heap T N" and z: "z \<in> N"
  obtains T' y where "rbtree_delete T z = Some (T', y)" "y \<in> N" "deleted T z y T'"
    "rb_heap (free_rb_node y T') (N - {y})" "rb_live (free_rb_node y T') = rb_live T - {y}"
proof -
  obtain T' y where T': "rbtree_delete T z = Some (T', y)" "y \<in> N" "rb_tree T' (N - {y})" "deleted T z y T'"
    using delete_correct [of T N z] h z by (auto simp: rb_heap_def)
  have "rb_nil T \<notin> N" using h rb_tree_nil by (auto simp: rb_heap_def)
  then have "rb_heap (free_rb_node y T') (N - {y})"
    using T' h deleted_heap [OF T'(4)] unfolding rb_heap_def rb_tree_free by (auto simp: free_rb_node_def)
  then show ?thesis using that T' deleted_heap [OF T'(4)] by (simp add: free_rb_node_def)
qed

lemma heap_new:
  fixes T :: "'v rbtree" and k :: string and v :: 'v and e :: int
  assumes "rb_heap T N"
  defines "U \<equiv> new_rb_node k v e T" and "n \<equiv> rb_next T"
  shows "rb_heap U N" "n \<in> rb_live U" "n \<notin> insert (rb_nil U) N" "rb_key U n = k" "rb_value U n = v"
    "rb_expire U n = e" "\<And>a. a \<noteq> n \<Longrightarrow> rb_key U a = rb_key T a \<and> rb_value U a = rb_value T a \<and> rb_expire U a = rb_expire T a"
proof -
  have tr: "rb_tree T N" and n: "n \<notin> N" "n \<noteq> rb_nil T" using assms(1) by (auto simp: rb_heap_def n_def)
  have "rb_tree U N"
    using tr by (rule rb_tree_links)
      (use n rb_tree_nil_black [OF tr] in \<open>auto simp: U_def new_rb_node_def Let_def agree_on_def n_def\<close>)
  then show "rb_heap U N" using assms(1) by (auto simp: rb_heap_def U_def new_rb_node_def Let_def)
qed (use assms in \<open>auto simp: rb_heap_def new_rb_node_def Let_def\<close>)

lemma heap_insert:
  assumes h: "rb_heap U N" and n: "n \<in> rb_live U" "n \<notin> insert (rb_nil U) N" "rb_key U n \<notin> rb_key U ` N"
  obtains T' where "rbtree_insert U n = Some T'" "rb_heap T' (insert n N)" "same_payload U T'"
proof -
  obtain T' where T': "rbtree_insert U n = Some T'" "rb_tree T' (insert n N)" "same_payload U T'"
    using insert_correct [of U N n] n h by (auto simp: rb_heap_def)
  then show ?thesis using that [OF T'(1) _ T'(3)] n(1) h by (auto simp: rb_heap_def same_payload_def)
qed

text \<open>Every node that is allocated is in the tree or the sentinel, and holds a string.\<close>

definition kvs_rbtree_inv :: "vptr rbtree \<Rightarrow> bool" where
  "kvs_rbtree_inv T \<longleftrightarrow> (\<exists>N. rb_heap T N \<and> (\<forall>a \<in> N. \<exists>v. rb_value T a = VStr v) \<and>
     rb_live T = insert (rb_nil T) N)"

definition kvs_rbtree_abs :: "vptr rbtree \<Rightarrow> store" where
  "kvs_rbtree_abs T k = (case rbtree_search T k of None \<Rightarrow> None
     | Some n \<Rightarrow> if n = rb_nil T then None
         else (case rb_value T n of VStr v \<Rightarrow> Some (v, rb_expire T n) | _ \<Rightarrow> None))"

lemma abs_node:
  "rb_tree T N \<Longrightarrow> a \<in> N \<Longrightarrow> rb_value T a = VStr v \<Longrightarrow> kvs_rbtree_abs T (rb_key T a) = Some (v, rb_expire T a)"
  using rb_tree_nil [of T N] by (auto simp: kvs_rbtree_abs_def search_hit)

lemma abs_miss: "rb_tree T N \<Longrightarrow> k \<notin> rb_key T ` N \<Longrightarrow> kvs_rbtree_abs T k = None"
  by (simp add: kvs_rbtree_abs_def search_miss)

lemma abs_SomeE:
  assumes "rb_tree T N" "kvs_rbtree_abs T k = Some (v, e)"
  obtains a where "a \<in> N" "e = rb_expire T a"
proof -
  have "k \<in> rb_key T ` N" using assms abs_miss by fastforce
  then obtain a where a: "a \<in> N" "k = rb_key T a" by blast
  then have "e = rb_expire T a"
    using assms search_hit [OF assms(1) a(1)] by (auto simp: kvs_rbtree_abs_def split: if_splits vptr.splits)
  then show ?thesis using that a(1) by blast
qed

abbreviation strs :: "vptr rbtree \<Rightarrow> addr set \<Rightarrow> bool" where
  "strs T N \<equiv> \<forall>a \<in> N. \<exists>v. rb_value T a = VStr v"

text \<open>What deleting a node does to the store: its key goes, every other key keeps its value.\<close>

lemma deleted_abs:
  assumes h: "rb_heap T N" "strs T N" and z: "z \<in> N" "y \<in> N" and del: "deleted T z y T'"
    and h': "rb_heap (free_rb_node y T') (N - {y})"
  shows "strs (free_rb_node y T') (N - {y})" "kvs_rbtree_abs (free_rb_node y T') (rb_key T z) = None"
    "same_vals (rb_key T z) (kvs_rbtree_abs T) (kvs_rbtree_abs (free_rb_node y T'))"
    "expiries (kvs_rbtree_abs (free_rb_node y T')) \<subseteq> expiries (kvs_rbtree_abs T)"
proof -
  let ?U = "free_rb_node y T'"
  have tr: "rb_tree T N" "rb_tree ?U (N - {y})" using h(1) h' by (simp_all add: rb_heap_def)
  have f: "rb_key ?U = rb_key T'" "rb_value ?U = rb_value T'" "rb_expire ?U = rb_expire T'"
    by (simp_all add: free_rb_node_def)
  show "strs ?U (N - {y})" unfolding f using h(2) by (metis deleted_from [OF del _ z(2)] DiffD1)
  have keys: "rb_key ?U ` (N - {y}) \<subseteq> rb_key T ` (N - {z})"
    unfolding f by (metis deleted_from [OF del _ z(2)] image_eqI image_subsetI)
  have "rb_key T z \<notin> rb_key T ` (N - {z})" using rb_tree_inj [OF tr(1)] z(1) by (auto simp: inj_on_def)
  then show "kvs_rbtree_abs ?U (rb_key T z) = None" using keys by (intro abs_miss [OF tr(2)]) auto
  have ex: "rb_expire T' = rb_expire T"
    using del by (auto simp: deleted_def same_payload_def swap_payload_def split: if_splits)
  show "expiries (kvs_rbtree_abs ?U) \<subseteq> expiries (kvs_rbtree_abs T)"
  proof
    fix e assume "e \<in> expiries (kvs_rbtree_abs ?U)"
    then obtain q w where "kvs_rbtree_abs ?U q = Some (w, e)" by (rule expiriesE)
    then obtain b where "b \<in> N - {y}" "e = rb_expire ?U b" by (rule abs_SomeE [OF tr(2)])
    then show "e \<in> expiries (kvs_rbtree_abs T)"
      using abs_node [OF tr(1)] h(2) expiriesI unfolding f ex by (metis DiffD1)
  qed
  show "same_vals (rb_key T z) (kvs_rbtree_abs T) (kvs_rbtree_abs ?U)"
    unfolding same_vals_def
  proof (intro allI impI)
    fix k' assume k': "k' \<noteq> rb_key T z"
    show "map_option fst (kvs_rbtree_abs ?U k') = map_option fst (kvs_rbtree_abs T k')"
    proof (cases "k' \<in> rb_key T ` N")
      case True
      then obtain a v where a: "a \<in> N" "k' = rb_key T a" "rb_value T a = VStr v" "a \<noteq> z" using h(2) k' by blast
      define b where "b = (if a = y then z else a)"
      note b = deleted_at [OF del a(4), folded b_def]
      have "b \<in> N - {y}" using a z b(1) by (auto simp: b_def)
      from abs_node [OF tr(2) this] b a abs_node [OF tr(1) a(1,3)] show ?thesis by (simp add: f)
    next
      case False
      then have "k' \<notin> rb_key ?U ` (N - {y})" using keys by blast
      then show ?thesis using abs_miss [OF tr(1) False] abs_miss [OF tr(2)] by simp
    qed
  qed
qed

lemma rb_del_hit:
  assumes "rb_heap T N" "strs T N" "z \<in> N" and live: "rb_live T = insert (rb_nil T) N"
  obtains T' where "kvs_rbtree_del T (Some (rb_key T z)) = Some (0, T')" "kvs_rbtree_inv T'"
    "kvs_rbtree_abs T' (rb_key T z) = None" "same_vals (rb_key T z) (kvs_rbtree_abs T) (kvs_rbtree_abs T')"
    "expiries (kvs_rbtree_abs T') \<subseteq> expiries (kvs_rbtree_abs T)"
proof -
  have tr: "rb_tree T N" using assms(1) by (simp add: rb_heap_def)
  obtain T1 y where d: "rbtree_delete T z = Some (T1, y)" "y \<in> N" "deleted T z y T1"
    "rb_heap (free_rb_node y T1) (N - {y})" "rb_live (free_rb_node y T1) = rb_live T - {y}"
    by (rule heap_delete [OF assms(1,3)])
  note ab = deleted_abs [OF assms(1-3) d(2,3,4)]
  have "rb_live (free_rb_node y T1) = insert (rb_nil (free_rb_node y T1)) (N - {y})"
    using d(2,5) live rb_tree_nil [OF tr] deleted_heap [OF d(3)] by (auto simp: free_rb_node_def)
  moreover have "kvs_rbtree_del T (Some (rb_key T z)) = Some (0, free_rb_node y T1)"
    using d(1) assms(3) rb_tree_nil [OF tr] by (auto simp: kvs_rbtree_del_def search_hit [OF tr])
  ultimately show ?thesis using that ab d(4) unfolding kvs_rbtree_inv_def by blast
qed

lemma rb_cases:
  assumes "kvs_rbtree_inv T"
  obtains (hit) N z v where "rb_heap T N" "strs T N" "z \<in> N" "rb_key T z = k" "rbtree_search T k = Some z"
      "z \<noteq> rb_nil T" "rb_value T z = VStr v" "kvs_rbtree_abs T k = Some (v, rb_expire T z)"
      "rb_live T = insert (rb_nil T) N"
    | (miss) N where "rb_heap T N" "strs T N" "k \<notin> rb_key T ` N" "rbtree_search T k = Some (rb_nil T)"
      "kvs_rbtree_abs T k = None"
proof -
  obtain N where N: "rb_heap T N" "strs T N" "rb_tree T N" "rb_live T = insert (rb_nil T) N"
    using assms by (auto simp: kvs_rbtree_inv_def rb_heap_def)
  show ?thesis
  proof (cases "k \<in> rb_key T ` N")
    case True
    then obtain z v where z: "z \<in> N" "k = rb_key T z" "rb_value T z = VStr v" using N(2) by blast
    then show ?thesis using hit [of N z v] N(1,2,4) rb_tree_nil [OF N(3)] search_hit [OF N(3)] abs_node [OF N(3) z(1,3)]
      by auto
  next
    case False
    then show ?thesis using miss N(1,2) search_miss [OF N(3)] abs_miss [OF N(3)] by blast
  qed
qed

lemma rb_del_spec:
  assumes "kvs_rbtree_inv T"
  obtains r T' where "kvs_rbtree_del T (Some k) = Some (r, T')" "kvs_rbtree_inv T'"
    "r = (if kvs_rbtree_abs T k = None then 1 else 0)" "kvs_rbtree_abs T' k = None"
    "same_vals k (kvs_rbtree_abs T) (kvs_rbtree_abs T')" "expiries (kvs_rbtree_abs T') \<subseteq> expiries (kvs_rbtree_abs T)"
proof (cases rule: rb_cases [OF assms, where k = k, case_names hit miss])
  case (hit N z v)
  then show ?thesis using rb_del_hit [OF hit(1-3,9)] that by (metis option.distinct(1))
next
  case (miss N)
  then show ?thesis using that [of 1 T] assms by (simp add: kvs_rbtree_del_def)
qed

lemma rb_get_spec:
  assumes "kvs_rbtree_inv T"
  obtains p T' where "kvs_rbtree_get now T (Some k) = Some (p, T')" "kvs_rbtree_inv T'"
    "p = vptr_of (view now (kvs_rbtree_abs T) k)" "same_vals k (kvs_rbtree_abs T) (kvs_rbtree_abs T')"
    "kvs_rbtree_abs T' k = (if p = VNull then None else kvs_rbtree_abs T k)" "expiries (kvs_rbtree_abs T') \<subseteq> expiries (kvs_rbtree_abs T)"
proof (cases rule: rb_cases [OF assms, where k = k, case_names hit miss])
  case (hit N z v)
  obtain r T' where d: "kvs_rbtree_del T (Some k) = Some (r, T')" "kvs_rbtree_inv T'" "kvs_rbtree_abs T' k = None"
    "same_vals k (kvs_rbtree_abs T) (kvs_rbtree_abs T')" "expiries (kvs_rbtree_abs T') \<subseteq> expiries (kvs_rbtree_abs T)" by (rule rb_del_spec [OF assms])
  show ?thesis
  proof (cases "expired now (rb_expire T z)")
    case True
    show ?thesis
      by (rule that [of VNull T']) (use True d hit(5,6,8) in \<open>simp_all add: kvs_rbtree_get_def view_def\<close>)
  next
    case False
    show ?thesis
      by (rule that [of "VStr v" T]) (use False assms hit(5-8) in \<open>simp_all add: kvs_rbtree_get_def view_def\<close>)
  qed
next
  case (miss N)
  show ?thesis
    by (rule that [of VNull T]) (use assms miss(4,5) in \<open>simp_all add: kvs_rbtree_get_def view_def\<close>)
qed

lemma rb_exist_spec:
  assumes "kvs_rbtree_inv T"
  obtains r T' where "kvs_rbtree_exist now T (Some k) = Some (r, T')" "kvs_rbtree_inv T'"
    "r = (if view now (kvs_rbtree_abs T) k = None then 1 else 0)"
    "same_vals k (kvs_rbtree_abs T) (kvs_rbtree_abs T')"
    "kvs_rbtree_abs T' k = (if r = 1 then None else kvs_rbtree_abs T k)" "expiries (kvs_rbtree_abs T') \<subseteq> expiries (kvs_rbtree_abs T)"
proof (cases rule: rb_cases [OF assms, where k = k, case_names hit miss])
  case (hit N z v)
  obtain r T' where d: "kvs_rbtree_del T (Some k) = Some (r, T')" "kvs_rbtree_inv T'" "kvs_rbtree_abs T' k = None"
    "same_vals k (kvs_rbtree_abs T) (kvs_rbtree_abs T')" "expiries (kvs_rbtree_abs T') \<subseteq> expiries (kvs_rbtree_abs T)" by (rule rb_del_spec [OF assms])
  show ?thesis
  proof (cases "expired now (rb_expire T z)")
    case True
    show ?thesis
      by (rule that [of 1 T']) (use True d hit(5,6,8) in \<open>simp_all add: kvs_rbtree_exist_def view_def\<close>)
  next
    case False
    show ?thesis
      by (rule that [of 0 T]) (use False assms hit(5-8) in \<open>simp_all add: kvs_rbtree_exist_def view_def\<close>)
  qed
next
  case (miss N)
  show ?thesis
    by (rule that [of 1 T]) (use assms miss(4,5) in \<open>simp_all add: kvs_rbtree_exist_def view_def\<close>)
qed

text \<open>Assigning to the value or the expiry time of a node.\<close>

lemma rb_update:
  assumes h: "rb_heap T N" "strs T N" "z \<in> N" "rb_live T = insert (rb_nil T) N"
    and same: "agree_on UNIV T U" "rb_root U = rb_root T" "rb_key U = rb_key T" "rb_live U = rb_live T"
      "rb_next U = rb_next T"
    and rest: "\<And>a. a \<noteq> z \<Longrightarrow> rb_value U a = rb_value T a \<and> rb_expire U a = rb_expire T a"
    and w: "rb_value U z = VStr w"
  shows "kvs_rbtree_inv U" "kvs_rbtree_abs U = (kvs_rbtree_abs T)(rb_key T z \<mapsto> (w, rb_expire U z))"
proof -
  have nil: "rb_nil U = rb_nil T" using same(1) by (simp add: agree_on_def)
  have tr: "rb_tree T N" "rb_tree U N" using h(1) rb_tree_same [OF same(1-3)] by (simp_all add: rb_heap_def)
  have strs: "strs U N" using h(2) rest w by metis
  then show "kvs_rbtree_inv U"
    using h(1,4) tr(2) nil same unfolding kvs_rbtree_inv_def rb_heap_def by auto
  show "kvs_rbtree_abs U = (kvs_rbtree_abs T)(rb_key T z \<mapsto> (w, rb_expire U z))"
  proof
    fix q
    consider "q = rb_key T z" | a v where "a \<in> N" "a \<noteq> z" "q = rb_key T a" "q \<noteq> rb_key T z" "rb_value T a = VStr v"
      | "q \<notin> rb_key T ` N" "q \<noteq> rb_key T z"
      using h(2) by blast
    then show "kvs_rbtree_abs U q = ((kvs_rbtree_abs T)(rb_key T z \<mapsto> (w, rb_expire U z))) q"
    proof cases
      case 1
      then show ?thesis using abs_node [OF tr(2) h(3) w] same(3) by simp
    next
      case 2
      then show ?thesis using abs_node [OF tr(2) 2(1)] abs_node [OF tr(1) 2(1,5)] rest same(3) by simp
    next
      case 3
      then show ?thesis using abs_miss [OF tr(1)] abs_miss [OF tr(2)] same(3) by simp
    qed
  qed
qed

lemma rb_mod_spec:
  assumes "kvs_rbtree_inv T"
  obtains r T' where "kvs_rbtree_mod all_ok T (Some k) (Some v) = Some (r, T')" "kvs_rbtree_inv T'"
    "(case kvs_rbtree_abs T k of None \<Rightarrow> r = 1 \<and> T' = T
      | Some (v0, e) \<Rightarrow> r = 0 \<and> kvs_rbtree_abs T' = (kvs_rbtree_abs T)(k \<mapsto> (v, e)))"
proof (cases rule: rb_cases [OF assms, where k = k, case_names hit miss])
  case (hit N z v0)
  let ?U = "T\<lparr>rb_value := (rb_value T)(z := VStr v)\<rparr>"
  have "kvs_rbtree_inv ?U" "kvs_rbtree_abs ?U = (kvs_rbtree_abs T)(k \<mapsto> (v, rb_expire T z))"
    using rb_update [OF hit(1-3,9), of ?U v] hit(4) by (simp_all add: agree_on_def)
  then show ?thesis using that [of 0 ?U] hit(5-8) by (simp add: kvs_rbtree_mod_def)
next
  case (miss N)
  show ?thesis using that [of 1 T] miss(4,5) assms by (simp add: kvs_rbtree_mod_def)
qed

lemma rb_expire_spec:
  assumes "kvs_rbtree_inv T"
  obtains r T' where "kvs_rbtree_expire T (Some k) e = Some (r, T')" "kvs_rbtree_inv T'"
    "r = (if kvs_rbtree_abs T k = None then 1 else 0)" "same_vals k (kvs_rbtree_abs T) (kvs_rbtree_abs T')"
    "kvs_rbtree_abs T' k = (case kvs_rbtree_abs T k of None \<Rightarrow> None
       | Some (v, e0) \<Rightarrow> if e = 0 then None else Some (v, e))"
    "expiries (kvs_rbtree_abs T') \<subseteq> insert e (expiries (kvs_rbtree_abs T))"
proof (cases rule: rb_cases [OF assms, where k = k, case_names hit miss])
  case (hit N z v0)
  obtain r T' where d: "kvs_rbtree_del T (Some k) = Some (r, T')" "kvs_rbtree_inv T'" "kvs_rbtree_abs T' k = None"
    "r = (if kvs_rbtree_abs T k = None then 1 else 0)"
    "same_vals k (kvs_rbtree_abs T) (kvs_rbtree_abs T')" "expiries (kvs_rbtree_abs T') \<subseteq> expiries (kvs_rbtree_abs T)" by (rule rb_del_spec [OF assms])
  let ?U = "T\<lparr>rb_expire := (rb_expire T)(z := e)\<rparr>"
  have "kvs_rbtree_inv ?U" "kvs_rbtree_abs ?U = (kvs_rbtree_abs T)(k \<mapsto> (v0, e))"
    using rb_update [OF hit(1-3,9), of ?U v0] hit(4,7) by (simp_all add: agree_on_def)
  then show ?thesis using that [of 0 ?U] that [of r T'] d hit(5-8) expiries_upd [of "kvs_rbtree_abs T" k "Some (v0, e)"]
    by (cases "e = 0") (auto simp: kvs_rbtree_expire_def same_vals_def)
next
  case (miss N)
  show ?thesis using that [of 1 T] miss(4,5) assms by (auto simp: kvs_rbtree_expire_def)
qed

lemma rb_ttl_spec:
  assumes "kvs_rbtree_inv T"
  shows "kvs_rbtree_ttl now T (Some k) =
    Some (case kvs_rbtree_abs T k of None \<Rightarrow> -2 | Some (v, e) \<Rightarrow> ttl_of now e)"
  by (cases rule: rb_cases [OF assms, where k = k]) (simp_all add: kvs_rbtree_ttl_def)

lemma abs_cong:
  assumes "rb_tree T N" "rb_tree U N" "strs T N"
    "\<And>a. a \<in> N \<Longrightarrow> rb_key U a = rb_key T a \<and> rb_value U a = rb_value T a \<and> rb_expire U a = rb_expire T a"
  shows "kvs_rbtree_abs U = kvs_rbtree_abs T"
proof
  fix q
  consider a v where "a \<in> N" "q = rb_key T a" "rb_value T a = VStr v" | "q \<notin> rb_key T ` N"
    using assms(3) by blast
  then show "kvs_rbtree_abs U q = kvs_rbtree_abs T q"
  proof cases
    case 1
    then show ?thesis using abs_node [OF assms(1) 1(1)] abs_node [OF assms(2) 1(1)] assms(4) [OF 1(1)] by simp
  next
    case 2
    then have "q \<notin> rb_key U ` N" using assms(4) by auto
    then show ?thesis using 2 abs_miss [OF assms(1)] abs_miss [OF assms(2)] by simp
  qed
qed

lemma insert_abs:
  assumes U: "rb_heap U N" "strs U N" and n: "n \<notin> N" "rb_key U n \<notin> rb_key U ` N" "rb_value U n = VStr v"
    and T': "rb_heap T' (insert n N)" "same_payload U T'" and live: "rb_live U = insert n (insert (rb_nil U) N)"
  shows "kvs_rbtree_inv T'" "kvs_rbtree_abs T' = (kvs_rbtree_abs U)(rb_key U n \<mapsto> (v, rb_expire U n))"
proof -
  have tr: "rb_tree U N" "rb_tree T' (insert n N)" using U(1) T'(1) by (simp_all add: rb_heap_def)
  have eq: "rb_key T' = rb_key U" "rb_value T' = rb_value U" "rb_expire T' = rb_expire U"
    using T'(2) by (simp_all add: same_payload_def)
  have "rb_live T' = insert (rb_nil T') (insert n N)" using live T'(2) by (auto simp: same_payload_def)
  then show "kvs_rbtree_inv T'" using T'(1) U(2) n(3) eq unfolding kvs_rbtree_inv_def by auto
  show "kvs_rbtree_abs T' = (kvs_rbtree_abs U)(rb_key U n \<mapsto> (v, rb_expire U n))"
  proof
    fix q
    consider "q = rb_key U n" | a w where "a \<in> N" "q = rb_key U a" "q \<noteq> rb_key U n" "rb_value U a = VStr w"
      | "q \<notin> rb_key U ` N" "q \<noteq> rb_key U n"
      using U(2) by blast
    then show "kvs_rbtree_abs T' q = ((kvs_rbtree_abs U)(rb_key U n \<mapsto> (v, rb_expire U n))) q"
    proof cases
      case 1
      then show ?thesis using abs_node [OF tr(2), of n] n(3) eq by simp
    next
      case 2
      then show ?thesis using abs_node [OF tr(2), of a] abs_node [OF tr(1) 2(1,4)] eq by simp
    next
      case 3
      then show ?thesis using abs_miss [OF tr(1)] abs_miss [OF tr(2), of q] eq by simp
    qed
  qed
qed

text \<open>The first half of \<open>kvs_rbtree_set\<close>: an entry with the same key is removed.\<close>

lemma rb_make_room:
  assumes h: "rb_heap U N" "strs U N" and n: "n \<in> rb_live U" "n \<notin> insert (rb_nil U) N"
  shows "\<exists>T1 M. (case rbtree_search U k of None \<Rightarrow> None | Some ex \<Rightarrow> if ex \<noteq> rb_nil U
      then map_option (\<lambda>(T', cur). free_rb_node cur T') (rbtree_delete U ex) else Some U) = Some T1 \<and>
    rb_heap T1 M \<and> strs T1 M \<and> n \<in> rb_live T1 \<and> n \<notin> insert (rb_nil T1) M \<and> rb_key T1 n = rb_key U n \<and>
    rb_value T1 n = rb_value U n \<and> rb_expire T1 n = rb_expire U n \<and> k \<notin> rb_key T1 ` M \<and>
    same_vals k (kvs_rbtree_abs U) (kvs_rbtree_abs T1) \<and>
    expiries (kvs_rbtree_abs T1) \<subseteq> expiries (kvs_rbtree_abs U) \<and>
    rb_live T1 - insert (rb_nil T1) M = rb_live U - insert (rb_nil U) N"
proof (cases "k \<in> rb_key U ` N")
  case True
  then obtain z where z: "z \<in> N" "k = rb_key U z" by blast
  have tr: "rb_tree U N" using h(1) by (simp add: rb_heap_def)
  obtain T1 y where d: "rbtree_delete U z = Some (T1, y)" "y \<in> N" "deleted U z y T1"
    "rb_heap (free_rb_node y T1) (N - {y})" "rb_live (free_rb_node y T1) = rb_live U - {y}"
    by (rule heap_delete [OF h(1) z(1)])
  let ?V = "free_rb_node y T1"
  note ab = deleted_abs [OF h z(1) d(2,3,4), folded z(2)]
  have tr1: "rb_tree ?V (N - {y})" using d(4) by (simp add: rb_heap_def)
  have "k \<notin> rb_key ?V ` (N - {y})"
  proof
    assume "k \<in> rb_key ?V ` (N - {y})"
    then obtain b where b: "b \<in> N - {y}" "k = rb_key ?V b" by blast
    then obtain w where "rb_value ?V b = VStr w" using ab(1) by blast
    from abs_node [OF tr1 b(1) this] ab(2) b(2) show False by simp
  qed
  moreover have "n \<noteq> z" "n \<noteq> y" using n(2) z(1) d(2) by auto
  then have "rb_key ?V n = rb_key U n" "rb_value ?V n = rb_value U n" "rb_expire ?V n = rb_expire U n"
    using deleted_at [OF d(3), of n] by (auto simp: free_rb_node_def)
  moreover have "rb_nil ?V = rb_nil U" using deleted_heap [OF d(3)] by (simp add: free_rb_node_def)
  moreover have "rbtree_search U k = Some z" "z \<noteq> rb_nil U"
    using search_hit [OF tr z(1)] z rb_tree_nil [OF tr] by auto
  ultimately show ?thesis
    using d(1,2,4,5) ab(1,3,4) n \<open>n \<noteq> y\<close> by (intro exI [of _ ?V] exI [of _ "N - {y}"]) auto
next
  case False
  then have "rbtree_search U k = Some (rb_nil U)" using h(1) search_miss by (auto simp: rb_heap_def)
  then show ?thesis using False h n by (intro exI [of _ U] exI [of _ N]) simp
qed

lemma rb_set_spec:
  assumes "kvs_rbtree_inv T"
  obtains T' where "kvs_rbtree_set all_ok T (Some k) (Some v) e = Some (0, T')" "kvs_rbtree_inv T'"
    "kvs_rbtree_abs T' k = Some (v, e)" "same_vals k (kvs_rbtree_abs T) (kvs_rbtree_abs T')"
    "expiries (kvs_rbtree_abs T') \<subseteq> insert e (expiries (kvs_rbtree_abs T))"
proof -
  obtain N where N: "rb_heap T N" "strs T N" "rb_live T = insert (rb_nil T) N" using assms by (auto simp: kvs_rbtree_inv_def)
  define U where "U = new_rb_node k (VStr v) e T"
  define n where "n = rb_next T"
  note U = heap_new [OF N(1), where k = k and v = "VStr v" and e = e, folded U_def n_def]
  have other: "a \<in> N \<Longrightarrow> a \<noteq> n" for a using U(3) by auto
  have trs: "rb_tree T N" "rb_tree U N" using N(1) U(1) by (simp_all add: rb_heap_def)
  have strs: "strs U N" using N(2) U(7) other by auto
  have same: "kvs_rbtree_abs U = kvs_rbtree_abs T" using abs_cong [OF trs N(2)] U(7) other by blast
  obtain T1 M where T1: "(case rbtree_search U k of None \<Rightarrow> None | Some ex \<Rightarrow> if ex \<noteq> rb_nil U
      then map_option (\<lambda>(T', cur). free_rb_node cur T') (rbtree_delete U ex) else Some U) = Some T1"
    "rb_heap T1 M" "strs T1 M" "n \<in> rb_live T1" "n \<notin> insert (rb_nil T1) M" "rb_key T1 n = k"
    "rb_value T1 n = VStr v" "rb_expire T1 n = e" "k \<notin> rb_key T1 ` M"
    "same_vals k (kvs_rbtree_abs U) (kvs_rbtree_abs T1)" "expiries (kvs_rbtree_abs T1) \<subseteq> expiries (kvs_rbtree_abs U)"
    "rb_live T1 - insert (rb_nil T1) M = rb_live U - insert (rb_nil U) N"
    using rb_make_room [OF U(1) strs U(2,3), of k] unfolding U(4-6) by blast
  obtain T2 where T2: "rbtree_insert T1 n = Some T2" "rb_heap T2 (insert n M)" "same_payload T1 T2"
    by (rule heap_insert [OF T1(2,4,5)]) (use T1(6,9) in auto)
  have "rb_live U = insert n (insert (rb_nil U) N)"
    using N(3) by (auto simp: U_def n_def new_rb_node_def Let_def)
  then have "rb_live T1 - insert (rb_nil T1) M = {n}" using T1(12) U(3) by auto
  then have "rb_live T1 = insert n (insert (rb_nil T1) M)" using T1(2) by (auto simp: rb_heap_def)
  then have "kvs_rbtree_inv T2" "kvs_rbtree_abs T2 = (kvs_rbtree_abs T1)(k \<mapsto> (v, e))"
    using insert_abs [OF T1(2,3) _ _ T1(7) T2(2,3)] T1(5,6,8,9) by auto
  moreover have "kvs_rbtree_set all_ok T (Some k) (Some v) e = Some (0, T2)"
    using T1(1) T2(1)
    by (cases "rbtree_search U k") (simp_all add: kvs_rbtree_set_def Let_def U_def [symmetric] n_def [symmetric])
  ultimately show ?thesis using that T1(10,11) same expiries_upd [of "kvs_rbtree_abs T1" k "Some (v, e)"]
    by (auto simp: same_vals_def)
qed

text \<open>Creation.\<close>

lemma rb_create:
  assumes "rb_live T \<subseteq> {0..<rb_next T}"
  shows "rb_heap (snd (kvs_rbtree_create all_ok T)) {}"
  using assms by (auto simp: rb_heap_def rb_tree_def kvs_rbtree_create_def Let_def tree_at_def foc_def rbt_def
      intro!: exI [of _ Lf])

lemma fresh_rbtree: "kvs_rbtree_inv (snd (kvs_rbtree_create all_ok (zero_rbtree VNull)))"
    "kvs_rbtree_abs (snd (kvs_rbtree_create all_ok (zero_rbtree VNull))) = Map.empty"
proof -
  have h: "rb_heap (snd (kvs_rbtree_create all_ok (zero_rbtree VNull))) {}"
    by (rule rb_create) (simp add: zero_rbtree_def)
  then show "kvs_rbtree_inv (snd (kvs_rbtree_create all_ok (zero_rbtree VNull)))"
    unfolding kvs_rbtree_inv_def
    by (intro exI [of _ "{}"]) (simp add: kvs_rbtree_create_def zero_rbtree_def Let_def)
  show "kvs_rbtree_abs (snd (kvs_rbtree_create all_ok (zero_rbtree VNull))) = Map.empty"
    using h abs_miss by (auto simp: rb_heap_def)
qed

interpretation rbt: kv_store "\<lambda>_. True" kvs_rbtree_inv kvs_rbtree_abs
  "\<lambda>s k v e. the (kvs_rbtree_set all_ok s (Some k) (Some v) e)"
  "\<lambda>now s k. the (kvs_rbtree_get now s (Some k))"
  "\<lambda>s k. the (kvs_rbtree_del s (Some k))"
  "\<lambda>now s k v. the (kvs_rbtree_mod all_ok s (Some k) (Some v))"
  "\<lambda>now s k. the (kvs_rbtree_exist now s (Some k))"
  "\<lambda>s k e. the (kvs_rbtree_expire s (Some k) e)"
  "\<lambda>now s k. the (kvs_rbtree_ttl now s (Some k))"
proof (unfold_locales, goal_cases)
  case (1 s k v e r s')
  show ?case by (rule rb_set_spec [OF 1(1), of k v e]) (use 1(3) in auto)
next
  case (2 s k now p s')
  show ?case by (rule rb_get_spec [OF 2(1), of now k]) (use 2(3) in auto)
next
  case (3 s k r s')
  show ?case by (rule rb_del_spec [OF 3(1), of k]) (use 3(3) in auto)
next
  case (4 s k now v r s')
  show ?case by (rule rb_mod_spec [OF 4(1), of k v])
    (use 4(3) in \<open>auto simp: same_vals_def split: option.splits\<close>)
next
  case (5 s k now r s')
  show ?case by (rule rb_exist_spec [OF 5(1), of now k]) (use 5(3) in \<open>auto split: if_splits\<close>)
next
  case (6 s k e r s')
  show ?case by (rule rb_expire_spec [OF 6(1), of k e]) (use 6(3) in auto)
next
  case (7 s k now)
  show ?case by (simp add: rb_ttl_spec [OF 7(1)])
qed

text \<open>Destruction: the loop removes the least node until none is left.\<close>

lemma destroy_loop_spec:
  "rb_heap T N \<Longrightarrow> \<exists>T'. destroy_loop T = Some T' \<and> rb_live T' = rb_live T - N \<and> rb_nil T' = rb_nil T"
proof (induction "card N" arbitrary: T N)
  case 0
  have "finite N" using 0 rb_tree_finite [of T N] by (simp add: rb_heap_def)
  then have "N = {}" using 0 by simp
  then obtain t where "rep T t (rb_root T) (rb_nil T)" "set (addrs t) = {}"
    using 0 by (auto simp: rb_heap_def rb_tree_def tree_at_def foc_def)
  then have "rb_root T = rb_nil T" using rep_root_in [of T t "rb_root T"] by auto
  then show ?case using \<open>N = {}\<close> by (subst destroy_loop.simps) simp
next
  case (Suc n)
  obtain t where t: "tree_at T [] t (rb_root T)" "set (addrs t) = N"
    using Suc.prems by (auto simp: rb_heap_def rb_tree_def)
  have "t \<noteq> Lf" using t(2) Suc.hyps(2) by auto
  then have "rb_root T \<noteq> rb_nil T" using t(1) by (cases t) (auto simp: tree_at_def foc_def)
  obtain k' m c r where m: "rbtree_mini T (rb_root T) = Some m" "plug k' (Nd Lf m c r) = t"
    using mini_path [OF t(1) \<open>t \<noteq> Lf\<close>] by auto
  have "m \<in> N" using m(2) t(2) by (auto simp: addrs_plug)
  then obtain T' y where d: "rbtree_delete T m = Some (T', y)" "y \<in> N" "deleted T m y T'"
    "rb_heap (free_rb_node y T') (N - {y})" "rb_live (free_rb_node y T') = rb_live T - {y}"
    by (rule heap_delete [OF Suc.prems])
  have "n = card (N - {y})" using Suc.hyps(2) d(2) by simp
  from Suc.hyps(1) [OF this d(4)] obtain T2 where T2: "destroy_loop (free_rb_node y T') = Some T2"
    "rb_live T2 = rb_live T - {y} - (N - {y})" "rb_nil T2 = rb_nil T"
    using d(5) deleted_heap [OF d(3)] by (auto simp: free_rb_node_def)
  have "destroy_loop T = Some T2"
    using \<open>rb_root T \<noteq> rb_nil T\<close> m(1) d(1) T2(1) by (subst destroy_loop.simps) simp
  then show ?case using T2(2,3) d(2) by auto
qed

subsection \<open>Balance\<close>

primrec pheight :: "ptree \<Rightarrow> nat" where
  "pheight Lf = 0"
| "pheight (Nd l a c r) = Suc (max (pheight l) (pheight r))"

lemma pheight_bh: "invc t \<Longrightarrow> invh t \<Longrightarrow> pheight t \<le> (if pcol t = BLACK then 2 * bh t else 2 * bh t + 1)"
  by (induction t) (auto split: if_splits)

lemma bh_addrs: "invh t \<Longrightarrow> 2 ^ bh t \<le> Suc (length (addrs t))"
proof (induction t)
  case (Nd l a c r)
  then have "2 ^ bh l \<le> Suc (length (addrs l))" "2 ^ bh l \<le> Suc (length (addrs r))" by auto
  then show ?case by (auto simp: algebra_simps)
qed simp

lemma rbt_height:
  assumes "rbt t"
  shows "2 ^ (Suc (pheight t) div 2) \<le> Suc (length (addrs t))"
proof -
  have "pheight t \<le> 2 * bh t" using pheight_bh [of t] assms by (auto simp: rbt_def)
  then have "(2 :: nat) ^ (Suc (pheight t) div 2) \<le> 2 ^ bh t" by (intro power_increasing) auto
  also have "\<dots> \<le> Suc (length (addrs t))" using bh_addrs [of t] assms by (simp add: rbt_def)
  finally show ?thesis .
qed

subsection \<open>Properties\<close>

definition rbtree_call :: "kv_call \<Rightarrow> vptr rbtree \<Rightarrow> kv_res \<times> vptr rbtree" where
  "rbtree_call = kv_dispatch
     (\<lambda>s k v e. the (kvs_rbtree_set all_ok s (Some k) (Some v) e))
     (\<lambda>now s k. the (kvs_rbtree_get now s (Some k)))
     (\<lambda>s k. the (kvs_rbtree_del s (Some k)))
     (\<lambda>now s k v. the (kvs_rbtree_mod all_ok s (Some k) (Some v)))
     (\<lambda>now s k. the (kvs_rbtree_exist now s (Some k)))
     (\<lambda>s k e. the (kvs_rbtree_expire s (Some k) e))
     (\<lambda>now s k. the (kvs_rbtree_ttl now s (Some k)))"

text \<open>The expiry time a call may introduce.\<close>

primrec call_expiry :: "kv_call \<Rightarrow> int set" where
  "call_expiry (KSet k v e) = {e}"
| "call_expiry (KGet now k) = {}"
| "call_expiry (KDel k) = {}"
| "call_expiry (KMod now k v) = {}"
| "call_expiry (KExist now k) = {}"
| "call_expiry (KExpire k e) = {e}"
| "call_expiry (KTtl now k) = {}"

lemma rbtree_call_store:
  assumes "kvs_rbtree_inv s"
  shows "kvs_rbtree_inv (snd (rbtree_call c s))"
    "same_vals (call_key c) (kvs_rbtree_abs s) (kvs_rbtree_abs (snd (rbtree_call c s)))"
    "expiries (kvs_rbtree_abs (snd (rbtree_call c s))) \<subseteq> expiries (kvs_rbtree_abs s) \<union> call_expiry c"
proof -
  have "kvs_rbtree_inv (snd (rbtree_call c s)) \<and>
    same_vals (call_key c) (kvs_rbtree_abs s) (kvs_rbtree_abs (snd (rbtree_call c s))) \<and>
    expiries (kvs_rbtree_abs (snd (rbtree_call c s))) \<subseteq> expiries (kvs_rbtree_abs s) \<union> call_expiry c"
  proof (cases c)
    case (KSet k v e)
    show ?thesis by (rule rb_set_spec [OF assms, of k v e]) (simp add: KSet rbtree_call_def kv_dispatch_def)
  next
    case (KGet now k)
    show ?thesis by (rule rb_get_spec [OF assms, of now k]) (simp add: KGet rbtree_call_def kv_dispatch_def)
  next
    case (KDel k)
    show ?thesis by (rule rb_del_spec [OF assms, of k]) (simp add: KDel rbtree_call_def kv_dispatch_def)
  next
    case (KMod now k v)
    obtain r T' where m: "kvs_rbtree_mod all_ok s (Some k) (Some v) = Some (r, T')" "kvs_rbtree_inv T'"
      "(case kvs_rbtree_abs s k of None \<Rightarrow> r = 1 \<and> T' = s
        | Some (v0, e) \<Rightarrow> r = 0 \<and> kvs_rbtree_abs T' = (kvs_rbtree_abs s)(k \<mapsto> (v, e)))"
      by (rule rb_mod_spec [OF assms, of k v])
    show ?thesis
    proof (cases "kvs_rbtree_abs s k")
      case None
      then show ?thesis using m by (simp add: KMod rbtree_call_def kv_dispatch_def)
    next
      case (Some y)
      then obtain v0 e where y: "kvs_rbtree_abs s k = Some (v0, e)" by (cases y) auto
      then show ?thesis
        using m expiries_upd [of "kvs_rbtree_abs s" k "Some (v, e)"] expiriesI [of "kvs_rbtree_abs s" k v0 e]
        by (auto simp: KMod rbtree_call_def kv_dispatch_def same_vals_def)
    qed
  next
    case (KExist now k)
    show ?thesis by (rule rb_exist_spec [OF assms, of now k]) (simp add: KExist rbtree_call_def kv_dispatch_def)
  next
    case (KExpire k e)
    show ?thesis by (rule rb_expire_spec [OF assms, of k e]) (simp add: KExpire rbtree_call_def kv_dispatch_def)
  next
    case (KTtl now k)
    then show ?thesis using assms by (simp add: rbtree_call_def kv_dispatch_def)
  qed
  then show "kvs_rbtree_inv (snd (rbtree_call c s))"
    "same_vals (call_key c) (kvs_rbtree_abs s) (kvs_rbtree_abs (snd (rbtree_call c s)))"
    "expiries (kvs_rbtree_abs (snd (rbtree_call c s))) \<subseteq> expiries (kvs_rbtree_abs s) \<union> call_expiry c"
    by simp_all
qed

lemma run_calls_invariant:
  assumes "I s" "\<And>s c. I s \<Longrightarrow> I (snd (step c s))"
  shows "I (snd (run_calls step cs s))"
  using assms(1)
proof (induction cs arbitrary: s)
  case (Cons c cs)
  show ?case using Cons.IH [OF assms(2) [OF Cons.prems, of c]] by (simp add: split_beta)
qed simp

lemma rbtree_run_inv: "kvs_rbtree_inv s \<Longrightarrow> kvs_rbtree_inv (snd (run_calls rbtree_call cs s))"
  by (rule run_calls_invariant) (auto intro: rbtree_call_store(1))

lemma rbtree_step_refines:
  assumes "kvs_rbtree_inv s \<and> expiries (kvs_rbtree_abs s) \<subseteq> {-1}" "call_expiry c \<subseteq> {-1}"
    "rbtree_call c s = (r, s')"
  shows "(kvs_rbtree_inv s' \<and> expiries (kvs_rbtree_abs s') \<subseteq> {-1}) \<and>
    spec_step (kvs_rbtree_abs s) c r (kvs_rbtree_abs s')"
proof -
  have i: "kvs_rbtree_inv s" using assms(1) by blast
  note st = rbtree_call_store [OF i, of c, unfolded assms(3) snd_conv]
  have e: "expiries (kvs_rbtree_abs s') \<subseteq> {-1}" using st(3) assms(1,2) by auto
  have fr: "same_entries (call_key c) (kvs_rbtree_abs s) (kvs_rbtree_abs s')"
    using same_vals_entries [OF st(2) _ e] assms(1) by blast
  show ?thesis
    using rbt.call_refines_framed [OF i _ _ fr] assms(3) e by (simp add: rbtree_call_def)
qed

lemma rbtree_run_refines:
  assumes "kvs_rbtree_inv s" "expiries (kvs_rbtree_abs s) \<subseteq> {-1}" "\<forall>c \<in> set cs. call_expiry c \<subseteq> {-1}"
    "run_calls rbtree_call cs s = (rs, s')"
  shows "kvs_rbtree_inv s' \<and> spec_run (kvs_rbtree_abs s) cs rs (kvs_rbtree_abs s')"
  using run_calls_refines [where I = "\<lambda>s. kvs_rbtree_inv s \<and> expiries (kvs_rbtree_abs s) \<subseteq> {-1}"
      and P = "\<lambda>c. call_expiry c \<subseteq> {-1}", OF rbtree_step_refines] assms by blast

text \<open>A node with two children is not unlinked itself.\<close>

lemma delete_returns:
  "rbtree_delete T z = Some (T', y) \<Longrightarrow> rb_left T z \<noteq> rb_nil T \<Longrightarrow> rb_right T z \<noteq> rb_nil T \<Longrightarrow>
   rbtree_successor T z = Some y"
  unfolding rbtree_delete_def Let_def by (auto split: if_splits option.splits)

lemma successor_other:
  assumes tr: "rb_tree T N" and z: "z \<in> N" "rb_left T z \<noteq> rb_nil T" "rb_right T z \<noteq> rb_nil T"
    and y: "rbtree_successor T z = Some y"
  shows "y \<noteq> z"
proof -
  obtain t where t: "tree_at T [] t (rb_root T)" "set (addrs t) = N" using tr by (auto simp: rb_tree_def)
  obtain k l c r where k: "tree_at T k (Nd l z c r) z" "plug k (Nd l z c r) = t"
    using node_path [OF t(1), of z] z(1) t(2) by auto
  have "r \<noteq> Lf" using tree_at_node(8) [OF k(1)] z(3) by simp
  from mini_path [OF tree_at_down(2) [OF k(1)] this] obtain k' c' r' where
    m: "plug k' (Nd Lf y c' r') = t" "before k' = before k @ addrs l @ [z]"
    using y z(3) k(2) by (auto simp: rbtree_successor_def)
  have "distinct (addrs (plug k' (Nd Lf y c' r')))" using t(1) m(1) by (simp add: tree_at_def)
  then show ?thesis using m(2) by (auto simp: addrs_plug)
qed

lemma delete_two_children:
  assumes h: "rb_heap T N" and z: "z \<in> N" "rb_left T z \<noteq> rb_nil T" "rb_right T z \<noteq> rb_nil T"
  obtains T' y where "rbtree_delete T z = Some (T', y)" "rbtree_successor T z = Some y" "y \<in> N" "y \<noteq> z"
    "deleted T z y T'" "rb_heap (free_rb_node y T') (N - {y})" "rb_live (free_rb_node y T') = rb_live T - {y}"
proof -
  obtain T' y where d: "rbtree_delete T z = Some (T', y)" "y \<in> N" "deleted T z y T'"
    "rb_heap (free_rb_node y T') (N - {y})" "rb_live (free_rb_node y T') = rb_live T - {y}"
    by (rule heap_delete [OF h z(1)])
  have "rbtree_successor T z = Some y" by (rule delete_returns [OF d(1) z(2,3)])
  moreover have "y \<noteq> z" using successor_other [OF _ z calculation] h by (simp add: rb_heap_def)
  ultimately show ?thesis using that d by blast
qed

definition rbtree_sample :: "int \<Rightarrow> int \<Rightarrow> int \<Rightarrow> vptr rbtree" where
  "rbtree_sample d e f = snd (run_calls rbtree_call [KSet ''b'' ''2'' e, KSet ''a'' ''1'' d, KSet ''c'' ''3'' f]
     (snd (kvs_rbtree_create all_ok (zero_rbtree VNull))))"

lemma rbtree_sample_inv: "kvs_rbtree_inv (rbtree_sample d e f)"
  unfolding rbtree_sample_def by (rule rbtree_run_inv [OF fresh_rbtree(1)])

text \<open>C16: on a red-black tree engine in which no entry has an expiry time, every sequence of calls
  that sets none gives results the abstract key-value store allows, and leaves the engine well
  formed and representing the abstract store the sequence leads to.\<close>

theorem rbtree_refines_store:
  assumes "kvs_rbtree_inv s" "expiries (kvs_rbtree_abs s) \<subseteq> {-1}" "\<forall>c \<in> set cs. call_expiry c \<subseteq> {-1}"
    "run_calls rbtree_call cs s = (rs, s')"
  shows "kvs_rbtree_inv s' \<and> spec_run (kvs_rbtree_abs s) cs rs (kvs_rbtree_abs s')"
  by (rule rbtree_run_refines [OF assms])

theorem rbtree_refines_store_witness:
  "let s = snd (kvs_rbtree_create all_ok (zero_rbtree VNull));
       cs = [KSet ''b'' ''2'' (-1), KSet ''a'' ''1'' (-1), KGet 7 ''a'', KDel ''b'', KMod 9 ''a'' ''5''];
       (rs, s') = run_calls rbtree_call cs s
   in kvs_rbtree_inv s' \<and> spec_run Map.empty cs rs (kvs_rbtree_abs s')"
proof -
  let ?s = "snd (kvs_rbtree_create all_ok (zero_rbtree VNull))"
  let ?cs = "[KSet ''b'' ''2'' (-1), KSet ''a'' ''1'' (-1), KGet 7 ''a'', KDel ''b'', KMod 9 ''a'' ''5'']"
  obtain rs s' where run: "run_calls rbtree_call ?cs ?s = (rs, s')" by (cases "run_calls rbtree_call ?cs ?s")
  from rbtree_refines_store [OF fresh_rbtree(1) _ _ run] run fresh_rbtree(2) show ?thesis
    by (simp add: Let_def expiries_def)
qed

text \<open>C11: every sequence of calls on a well-formed red-black tree engine, expiry times included,
  leaves a red-black search tree: no red node has a red child, every path to a leaf has the
  same number of black nodes, the root is black, the keys are in order from left to right, and
  no path is longer than twice the logarithm of the number of nodes (rounded up).\<close>

theorem rbtree_stays_balanced:
  assumes "kvs_rbtree_inv s" "run_calls rbtree_call cs s = (rs, s')"
  shows "\<exists>t. rep s' t (rb_root s') (rb_nil s') \<and> invc t \<and> invh t \<and> pcol t = BLACK \<and>
    sorted_wrt (<) (map (rb_key s') (addrs t)) \<and> 2 ^ (Suc (pheight t) div 2) \<le> Suc (length (addrs t))"
proof -
  have "kvs_rbtree_inv s'"
    using rbtree_run_inv [OF assms(1), of cs] assms(2) by simp
  then obtain t where "tree_at s' [] t (rb_root s')" "rbt t" "sorted_wrt (<) (map (rb_key s') (addrs t))"
    by (auto simp: kvs_rbtree_inv_def rb_heap_def rb_tree_def)
  then show ?thesis using rbt_height [of t]
    by (intro exI [of _ t]) (auto simp: tree_at_def foc_def rbt_def)
qed

theorem rbtree_stays_balanced_witness:
  "\<exists>t. rep (rbtree_sample 5 6 7) t (rb_root (rbtree_sample 5 6 7)) (rb_nil (rbtree_sample 5 6 7)) \<and>
    invc t \<and> invh t \<and> pcol t = BLACK \<and>
    sorted_wrt (<) (map (rb_key (rbtree_sample 5 6 7)) (addrs t)) \<and>
    2 ^ (Suc (pheight t) div 2) \<le> Suc (length (addrs t))"
  using rbtree_stays_balanced [OF fresh_rbtree(1),
      of "[KSet ''b'' ''2'' 6, KSet ''a'' ''1'' 5, KSet ''c'' ''3'' 7]"]
  unfolding rbtree_sample_def by (metis prod.collapse)





text \<open>C30: deleting a key whose node has two children gives the next key in order the expiry time
  of the deleted one: \<open>rbtree_delete\<close> exchanges key and value of the two nodes and leaves
  \<open>expire_ms\<close> where it was.\<close>

theorem rbtree_delete_moves_expiry:
  assumes "kvs_rbtree_inv s" "rbtree_search s k = Some z" "z \<noteq> rb_nil s"
    "rb_left s z \<noteq> rb_nil s" "rb_right s z \<noteq> rb_nil s"
  shows "\<exists>y v s'. rbtree_successor s z = Some y \<and>
    kvs_rbtree_abs s (rb_key s y) = Some (v, rb_expire s y) \<and>
    kvs_rbtree_del s (Some k) = Some (0, s') \<and>
    kvs_rbtree_abs s' (rb_key s y) = Some (v, rb_expire s z)"
proof (cases rule: rb_cases [OF assms(1), where k = k, case_names hit miss])
  case (hit N z' v')
  then have z: "z \<in> N" using assms(2) by simp
  obtain T' y where d: "rbtree_delete s z = Some (T', y)" "rbtree_successor s z = Some y" "y \<in> N" "y \<noteq> z"
    "deleted s z y T'" "rb_heap (free_rb_node y T') (N - {y})"
    by (rule delete_two_children [OF hit(1) z assms(4,5)])
  obtain v where v: "rb_value s y = VStr v" using hit(2) d(3) by blast
  have tr: "rb_tree s N" "rb_tree (free_rb_node y T') (N - {y})" using hit(1) d(6) by (simp_all add: rb_heap_def)
  note at = deleted_at [OF d(5) d(4)]
  have "kvs_rbtree_abs (free_rb_node y T') (rb_key s y) = Some (v, rb_expire s z)"
    using abs_node [OF tr(2), of z v] z d(4) at v by (simp add: free_rb_node_def)
  moreover have "kvs_rbtree_del s (Some k) = Some (0, free_rb_node y T')"
    using assms(2,3) d(1) by (simp add: kvs_rbtree_del_def)
  ultimately show ?thesis using d(2) abs_node [OF tr(1) d(3) v] by blast
next
  case (miss N)
  then show ?thesis using assms(2,3) by simp
qed

theorem rbtree_delete_moves_expiry_witness:
  "\<exists>s'. kvs_rbtree_del (rbtree_sample (-1) 60 (-1)) (Some ''b'') = Some (0, s') \<and>
    kvs_rbtree_abs (rbtree_sample (-1) 60 (-1)) ''c'' = Some (''3'', -1) \<and>
    kvs_rbtree_abs s' ''c'' = Some (''3'', 60)"
proof -
  let ?s = "rbtree_sample (-1) 60 (-1)"
  have "(let s = ?s in (rbtree_search s ''b'', rb_nil s, rb_left s 2, rb_right s 2, rbtree_successor s 2,
      rb_key s 4, rb_expire s 2, kvs_rbtree_abs s ''c'')) =
    (Some 2, 1, 3, 4, Some 4, ''c'', 60, Some (''3'', -1))"
    by code_simp
  then have ev: "rbtree_search ?s ''b'' = Some 2" "rb_nil ?s = 1" "rb_left ?s 2 = 3" "rb_right ?s 2 = 4"
    "rbtree_successor ?s 2 = Some 4" "rb_key ?s 4 = ''c''" "rb_expire ?s 2 = 60"
    "kvs_rbtree_abs ?s ''c'' = Some (''3'', -1)"
    by (simp_all add: Let_def)
  from rbtree_delete_moves_expiry [OF rbtree_sample_inv ev(1)] ev(2-8) show ?thesis by auto
qed

text \<open>C31: when the first two expired entries in key order are a node with two children and its
  successor, the expiry scan uses a freed node: deleting the first frees the node of the second,
  whose address is still in the list the scan collected.\<close>

theorem rbtree_scan_use_after_free:
  assumes "kvs_rbtree_inv s" "rbtree_collect_expired s now (rb_root s) [] = Some (z # y # ps)"
    "rbtree_search s (rb_key s z) = Some z" "z \<noteq> rb_nil s"
    "rb_left s z \<noteq> rb_nil s" "rb_right s z \<noteq> rb_nil s" "rbtree_successor s z = Some y"
  shows "kvs_rbtree_scan_expired now s = None"
proof (cases rule: rb_cases [OF assms(1), where k = "rb_key s z", case_names hit miss])
  case (hit N z' v')
  have z: "z \<in> N" using hit(3,5) assms(3) by simp
  obtain T' y' where d: "rbtree_delete s z = Some (T', y')" "rbtree_successor s z = Some y'"
    "rb_live (free_rb_node y' T') = rb_live s - {y'}"
    by (rule delete_two_children [OF hit(1) z assms(5,6)])
  have y: "y' = y" using d(2) assms(7) by simp
  have "y \<notin> rb_live (free_rb_node y T')" using d(3) y by simp
  then have "rbtree_delete (free_rb_node y T') y = None" unfolding rbtree_delete_def by (simp only: if_True not_False_eq_True)
  then show ?thesis using d(1) y unfolding kvs_rbtree_scan_expired_def assms(2) by simp
next
  case (miss N)
  show ?thesis using assms(3,4) miss(4) by simp
qed

theorem rbtree_scan_use_after_free_witness:
  "kvs_rbtree_scan_expired 100 (rbtree_sample (-1) 60 70) = None"
proof -
  let ?s = "rbtree_sample (-1) 60 70"
  have "(let s = ?s in (rbtree_collect_expired s 100 (rb_root s) [], rb_key s 2, rbtree_search s ''b'',
      rb_nil s, rb_left s 2, rb_right s 2, rbtree_successor s 2, kvs_rbtree_abs s ''b'')) =
    (Some [2, 4], ''b'', Some 2, 1, 3, 4, Some 4, Some (''2'', 60))"
    by code_simp
  then have ev: "rbtree_collect_expired ?s 100 (rb_root ?s) [] = Some [2, 4]" "rb_key ?s 2 = ''b''"
    "rbtree_search ?s ''b'' = Some 2" "rb_nil ?s = 1" "rb_left ?s 2 = 3" "rb_right ?s 2 = 4"
    "rbtree_successor ?s 2 = Some 4" "kvs_rbtree_abs ?s ''b'' = Some (''2'', 60)"
    by (simp_all add: Let_def)
  show ?thesis by (rule rbtree_scan_use_after_free [OF rbtree_sample_inv ev(1)]) (simp_all add: ev)
qed

end
