(* ===== verification/KVS_Service.thy ===== *)
theory KVS_Service
  imports KVS_Command KVS_RBEngine
begin

text \<open>
  The command layer on top of the engines. What the eight commands of one engine need of it is
  the contract \<open>engine_commands\<close>: each case of the switch is the engine's operation followed by
  the reply for its result. The lemmas about replies are proved once from that and hold for
  the array, the red-black tree, the hash table and the skip list.
\<close>

subsection \<open>Well-formed servers\<close>

definition server_wf :: "'f server \<Rightarrow> bool" where
  "server_wf s \<longleftrightarrow> kvs_array_inv (sv_array s) \<and> kvs_rbtree_inv (sv_rbtree s) \<and> kvs_hash_inv (sv_hash s) \<and>
     kvs_skiplist_inv (sv_skiplist s)"

text \<open>A result that is no memory fault and leaves a well-formed server.\<close>

definition sound :: "'f cres \<Rightarrow> bool" where
  "sound res \<longleftrightarrow> (case res of Inl x \<Rightarrow> x \<noteq> Memory | Inr (r, out, s) \<Rightarrow> server_wf s)"

named_theorems sound_intros \<open>results that keep the server well formed\<close>

lemma server_wf_ring [simp]: "server_wf (s\<lparr>sv_ring := x\<rparr>) = server_wf s"
  by (simp add: server_wf_def)

lemma sound_answer [sound_intros]: "server_wf t \<Longrightarrow> sound (answer e cap msg t)"
  by (simp add: sound_def answer_def)

lemma persist_only_ring:
  "persist_command_if_changed e cmd ret raw s = Some s' \<Longrightarrow> \<exists>x. s' = s\<lparr>sv_ring := x\<rparr>"
proof (cases "s' = s")
  case True
  then show ?thesis by (intro exI [of _ "sv_ring s"]) simp
qed (auto simp: persist_command_if_changed_def Let_def split: if_splits)

lemma sound_answer_persist [sound_intros]:
  assumes "server_wf t"
  shows "sound (answer_persist e cmd ret raw cap msg t)"
  using assms persist_only_ring [of e cmd ret raw t]
  by (fastforce simp: sound_def answer_persist_def split: option.splits)

lemma sound_replies [sound_intros]:
  assumes "server_wf t"
  shows "sound (reply_set e cmd raw ret t)" "v \<noteq> VFreed \<Longrightarrow> sound (reply_get e v t)"
    "sound (reply_del e cmd raw ret t)" "sound (reply_mod e cmd raw ret t)" "sound (reply_exist e ret t)"
    "sound (reply_expire e cmd raw ret t)" "sound (reply_ttl e ttl t)" "sound (kvs_reply_error e msg t)"
  using assms
  by (auto simp: reply_set_def reply_get_def reply_del_def reply_mod_def reply_exist_def reply_expire_def
      reply_ttl_def kvs_reply_error_def Let_def split: vptr.splits intro!: sound_answer sound_answer_persist)

lemma answer_persist_Inr:
  assumes "answer_persist e cmd ret raw cap msg t = Inr (n, Some out, s')"
  shows "out = msg" "\<exists>x. s' = t\<lparr>sv_ring := x\<rparr>"
  using assms persist_only_ring [of e cmd ret raw t]
  by (auto simp: answer_persist_def split: if_splits option.splits)

lemma answer_fits: "e_rok e \<Longrightarrow> length msg < cap \<Longrightarrow> answer e cap msg s = Inr (int (length msg), Some msg, s)"
  by (simp add: answer_def)

subsection \<open>The commands of one engine\<close>

locale engine_commands = kv_store +
  fixes env_ok :: "'f env \<Rightarrow> bool"
    and eng :: "'f server \<Rightarrow> 'a"
    and with_eng :: "'a \<Rightarrow> 'f server \<Rightarrow> 'f server"
    and c_set :: kvs_cmd
    and c_get :: kvs_cmd
    and c_del :: kvs_cmd
    and c_mod :: kvs_cmd
    and c_exist :: kvs_cmd
    and c_setex :: kvs_cmd
    and c_expire :: kvs_cmd
    and c_ttl :: kvs_cmd
  assumes run_set: "env_ok e \<Longrightarrow> inv (eng s) \<Longrightarrow> key_ok k \<Longrightarrow> run_case c_set e fd [n, k, v] raw s =
      (let (r, x) = set_op (eng s) k v (-1) in reply_set e c_set raw r (with_eng x s))"
    and run_get: "env_ok e \<Longrightarrow> inv (eng s) \<Longrightarrow> key_ok k \<Longrightarrow> run_case c_get e fd [n, k] raw s =
      (let (p, x) = get_op (e_now e) (eng s) k in reply_get e p (with_eng x s))"
    and run_del: "env_ok e \<Longrightarrow> inv (eng s) \<Longrightarrow> key_ok k \<Longrightarrow> run_case c_del e fd [n, k] raw s =
      (let (r, x) = del_op (eng s) k in reply_del e c_del raw r (with_eng x s))"
    and run_mod: "env_ok e \<Longrightarrow> inv (eng s) \<Longrightarrow> key_ok k \<Longrightarrow> run_case c_mod e fd [n, k, v] raw s =
      (let (r, x) = mod_op (e_now e) (eng s) k v in reply_mod e c_mod raw r (with_eng x s))"
    and run_exist: "env_ok e \<Longrightarrow> inv (eng s) \<Longrightarrow> key_ok k \<Longrightarrow> run_case c_exist e fd [n, k] raw s =
      (let (r, x) = exist_op (e_now e) (eng s) k in reply_exist e r (with_eng x s))"
    and run_setex: "env_ok e \<Longrightarrow> inv (eng s) \<Longrightarrow> key_ok k \<Longrightarrow> run_case c_setex e fd [n, k, v, t] raw s =
      (let (r, x) = set_op (eng s) k v (expire_at (e_now e) (atoll t)) in reply_set e c_setex raw r (with_eng x s))"
    and run_expire: "env_ok e \<Longrightarrow> inv (eng s) \<Longrightarrow> key_ok k \<Longrightarrow> run_case c_expire e fd [n, k, t] raw s =
      (let (r, x) = expire_op (eng s) k (expire_at (e_now e) (atoll t)) in reply_expire e c_expire raw r (with_eng x s))"
    and run_ttl: "env_ok e \<Longrightarrow> inv (eng s) \<Longrightarrow> key_ok k \<Longrightarrow> run_case c_ttl e fd [n, k] raw s =
      reply_ttl e (ttl_op (e_now e) (eng s) k) s"
    and eng_with [simp]: "eng (with_eng x s) = x" "eng (s\<lparr>sv_ring := ring\<rparr>) = eng s"
    and wf_eng: "server_wf s \<Longrightarrow> inv (eng s)"
    and wf_with: "server_wf s \<Longrightarrow> inv x \<Longrightarrow> server_wf (with_eng x s)"
begin

lemma get_not_freed: "inv x \<Longrightarrow> key_ok k \<Longrightarrow> get_op now x k = (p, x') \<Longrightarrow> p \<noteq> VFreed"
  using get_law [of x k now p x'] by auto

lemma commands_sound:
  assumes "server_wf s" "env_ok e" "key_ok k"
  shows "sound (run_case c_set e fd [n, k, v] raw s)" "sound (run_case c_get e fd [n, k] raw s)"
    "sound (run_case c_del e fd [n, k] raw s)" "sound (run_case c_mod e fd [n, k, v] raw s)"
    "sound (run_case c_exist e fd [n, k] raw s)" "sound (run_case c_setex e fd [n, k, v, t] raw s)"
    "sound (run_case c_expire e fd [n, k, t] raw s)" "sound (run_case c_ttl e fd [n, k] raw s)"
proof -
  note i = wf_eng [OF assms(1)] and w = wf_with [OF assms(1)] and ok = assms(2,3)
  note run = ok(1) i ok(2)
  show "sound (run_case c_set e fd [n, k, v] raw s)"
    unfolding run_set [OF run] using set_law [OF i ok(2)]
    by (auto split: prod.splits intro!: sound_replies w)
  show "sound (run_case c_get e fd [n, k] raw s)"
    unfolding run_get [OF run]
    by (auto split: prod.splits intro!: sound_replies w dest: get_law [OF i ok(2)] get_not_freed [OF i ok(2)])
  show "sound (run_case c_del e fd [n, k] raw s)"
    unfolding run_del [OF run] using del_law [OF i ok(2)]
    by (auto split: prod.splits intro!: sound_replies w)
  show "sound (run_case c_mod e fd [n, k, v] raw s)"
    unfolding run_mod [OF run] using mod_law [OF i ok(2)]
    by (auto split: prod.splits intro!: sound_replies w)
  show "sound (run_case c_exist e fd [n, k] raw s)"
    unfolding run_exist [OF run] using exist_law [OF i ok(2)]
    by (auto split: prod.splits intro!: sound_replies w)
  show "sound (run_case c_setex e fd [n, k, v, t] raw s)"
    unfolding run_setex [OF run] using set_law [OF i ok(2)]
    by (auto split: prod.splits intro!: sound_replies w)
  show "sound (run_case c_expire e fd [n, k, t] raw s)"
    unfolding run_expire [OF run] using expire_law [OF i ok(2)]
    by (auto split: prod.splits intro!: sound_replies w)
  show "sound (run_case c_ttl e fd [n, k] raw s)"
    unfolding run_ttl [OF run] by (rule sound_replies [OF assms(1)])
qed

text \<open>An acknowledged write is what a read answers.\<close>

lemma set_stores:
  assumes "server_wf s" "env_ok e" "key_ok k" "run_case c_set e fd [n, k, v] raw s = Inr (m, Some ok_reply, s1)"
  shows "server_wf s1" "abs (eng s1) k = Some (v, -1)"
proof -
  note i = wf_eng [OF assms(1)]
  obtain r x where x: "set_op (eng s) k v (-1) = (r, x)" by (cases "set_op (eng s) k v (-1)")
  note law = set_law [OF i assms(3) x]
  have rep: "reply_set e c_set raw r (with_eng x s) = Inr (m, Some ok_reply, s1)"
    using assms(4) unfolding run_set [OF assms(2) i assms(3)] x by simp
  have "r = 0" using rep law by (auto simp: reply_set_def dest: answer_persist_Inr(1) split: if_splits)
  moreover obtain ring where "s1 = (with_eng x s)\<lparr>sv_ring := ring\<rparr>"
    using rep by (auto simp: reply_set_def dest: answer_persist_Inr(2) split: if_splits)
  ultimately show "server_wf s1" "abs (eng s1) k = Some (v, -1)"
    using law wf_with [OF assms(1)] by auto
qed

lemma get_answers:
  assumes "server_wf s" "env_ok e" "key_ok k" "e_rok e" "view (e_now e) (abs (eng s)) k = Some v"
  shows "\<exists>s2. run_case c_get e fd [n, k] raw s = Inr (int (length (bulk v)), Some (bulk v), s2)"
proof -
  note i = wf_eng [OF assms(1)]
  obtain p x where x: "get_op (e_now e) (eng s) k = (p, x)" by (cases "get_op (e_now e) (eng s) k")
  have "p = VStr v" using get_law [OF i assms(3) x] assms(5) by simp
  then show ?thesis
    unfolding run_get [OF assms(2) i assms(3)] x
    using answer_fits [OF assms(4), of "bulk v" "length (bulk v) + 1"]
    by (simp add: reply_get_def bulk_def Let_def)
qed

end

interpretation carr: engine_commands "\<lambda>_. True" kvs_array_inv kvs_array_abs
  "\<lambda>a k v e. kvs_array_set all_ok a (Some k) (Some v) e"
  "\<lambda>now a k. kvs_array_get now a (Some k)"
  "\<lambda>a k. kvs_array_del a (Some k)"
  "\<lambda>now a k v. kvs_array_mod all_ok a (Some k) (Some v)"
  "\<lambda>now a k. (kvs_array_exist now a (Some k), a)"
  "\<lambda>a k e. kvs_array_expire a (Some k) e"
  "\<lambda>now a k. kvs_array_ttl now a (Some k)"
  "\<lambda>e. e_mok e = all_ok" sv_array "\<lambda>x s. s\<lparr>sv_array := x\<rparr>"
  KVS_CMD_SET KVS_CMD_GET KVS_CMD_DEL KVS_CMD_MOD KVS_CMD_EXIST KVS_CMD_SETEX KVS_CMD_EXPIRE KVS_CMD_TTL
  by unfold_locales (auto simp: cmd_SET_def cmd_GET_def cmd_DEL_def cmd_MOD_def cmd_EXIST_def cmd_SETEX_def
      cmd_EXPIRE_def cmd_TTL_def arg_def recheck_argc_def server_wf_def split: prod.splits)

text \<open>The operations of the other engines return.\<close>

lemma rb_returns:
  assumes "kvs_rbtree_inv t"
  shows "kvs_rbtree_set all_ok t (Some k) (Some v) e \<noteq> None" "kvs_rbtree_get now t (Some k) \<noteq> None"
    "kvs_rbtree_del t (Some k) \<noteq> None" "kvs_rbtree_mod all_ok t (Some k) (Some v) \<noteq> None"
    "kvs_rbtree_exist now t (Some k) \<noteq> None" "kvs_rbtree_expire t (Some k) e \<noteq> None"
    "kvs_rbtree_ttl now t (Some k) \<noteq> None"
  by (rule rb_set_spec [OF assms, of k v e], simp) (rule rb_get_spec [OF assms, of now k], simp,
      rule rb_del_spec [OF assms, of k], simp, rule rb_mod_spec [OF assms, of k v], simp,
      rule rb_exist_spec [OF assms, of now k], simp, rule rb_expire_spec [OF assms, of k e], simp,
      simp add: rb_ttl_spec [OF assms])

lemma hash_returns:
  assumes "kvs_hash_inv t" "hash_key_ok k"
  shows "kvs_hash_set all_ok t (Some k) (Some v) e \<noteq> None" "kvs_hash_get now t (Some k) \<noteq> None"
    "kvs_hash_del t (Some k) \<noteq> None" "kvs_hash_mod all_ok now t (Some k) (Some v) \<noteq> None"
    "kvs_hash_exist now t (Some k) \<noteq> None" "kvs_hash_expire t (Some k) e \<noteq> None"
    "kvs_hash_ttl now t (Some k) \<noteq> None"
  by (rule hash_set_spec [OF assms, of v e], simp) (rule hash_get_spec [OF assms, of now], simp,
      rule hash_del_spec [OF assms], simp, rule hash_mod_spec [OF assms, of now v], simp,
      simp add: hash_exist_spec [OF assms], rule hash_expire_spec [OF assms, of e], simp,
      simp add: hash_ttl_spec [OF assms])

lemma skl_returns:
  assumes "kvs_skiplist_inv t"
  shows "kvs_skiplist_set all_ok rnd t (Some k) (Some v) e \<noteq> None" "kvs_skiplist_get now t (Some k) \<noteq> None"
    "kvs_skiplist_del t (Some k) \<noteq> None" "kvs_skiplist_mod all_ok t (Some k) (Some v) \<noteq> None"
    "kvs_skiplist_exist now t (Some k) \<noteq> None" "kvs_skiplist_expire t (Some k) e \<noteq> None"
    "kvs_skiplist_ttl now t (Some k) \<noteq> None"
  by (rule skl_set_spec [OF assms, of rnd k v e], simp) (rule skl_get_spec [OF assms, of now k], simp,
      rule skl_del_spec [OF assms, of k], simp, rule skl_mod_spec [OF assms, of k v], simp,
      rule skl_exist_spec [OF assms, of now k], simp, rule skl_expire_spec [OF assms, of k e], simp,
      simp add: skl_ttl_spec [OF assms])

lemma engine_call_returns: "r \<noteq> None \<Longrightarrow> engine_call r body = body (the r)"
  by (auto simp: engine_call_def)

interpretation crbt: engine_commands "\<lambda>_. True" kvs_rbtree_inv kvs_rbtree_abs
  "\<lambda>s k v e. the (kvs_rbtree_set all_ok s (Some k) (Some v) e)"
  "\<lambda>now s k. the (kvs_rbtree_get now s (Some k))"
  "\<lambda>s k. the (kvs_rbtree_del s (Some k))"
  "\<lambda>now s k v. the (kvs_rbtree_mod all_ok s (Some k) (Some v))"
  "\<lambda>now s k. the (kvs_rbtree_exist now s (Some k))"
  "\<lambda>s k e. the (kvs_rbtree_expire s (Some k) e)"
  "\<lambda>now s k. the (kvs_rbtree_ttl now s (Some k))"
  "\<lambda>e. e_mok e = all_ok" sv_rbtree "\<lambda>x s. s\<lparr>sv_rbtree := x\<rparr>"
  KVS_CMD_RSET KVS_CMD_RGET KVS_CMD_RDEL KVS_CMD_RMOD KVS_CMD_REXIST KVS_CMD_RSETEX KVS_CMD_REXPIRE KVS_CMD_RTTL
  by unfold_locales (auto simp: cmd_RSET_def cmd_RGET_def cmd_RDEL_def cmd_RMOD_def cmd_REXIST_def cmd_RSETEX_def
      cmd_REXPIRE_def cmd_RTTL_def arg_def recheck_argc_def server_wf_def engine_call_returns rb_returns
      simp del: not_None_eq split: prod.splits)

interpretation chsh: engine_commands hash_key_ok kvs_hash_inv kvs_hash_abs
  "\<lambda>h k v e. the (kvs_hash_set all_ok h (Some k) (Some v) e)"
  "\<lambda>now h k. the (kvs_hash_get now h (Some k))"
  "\<lambda>h k. the (kvs_hash_del h (Some k))"
  "\<lambda>now h k v. the (kvs_hash_mod all_ok now h (Some k) (Some v))"
  "\<lambda>now h k. (the (kvs_hash_exist now h (Some k)), h)"
  "\<lambda>h k e. the (kvs_hash_expire h (Some k) e)"
  "\<lambda>now h k. the (kvs_hash_ttl now h (Some k))"
  "\<lambda>e. e_mok e = all_ok" sv_hash "\<lambda>x s. s\<lparr>sv_hash := x\<rparr>"
  KVS_CMD_HSET KVS_CMD_HGET KVS_CMD_HDEL KVS_CMD_HMOD KVS_CMD_HEXIST KVS_CMD_HSETEX KVS_CMD_HEXPIRE KVS_CMD_HTTL
  by unfold_locales (auto simp: cmd_HSET_def cmd_HGET_def cmd_HDEL_def cmd_HMOD_def cmd_HEXIST_def cmd_HSETEX_def
      cmd_HEXPIRE_def cmd_HTTL_def arg_def recheck_argc_def server_wf_def engine_call_returns hash_returns
      simp del: not_None_eq split: prod.splits)

interpretation cskl: engine_commands "\<lambda>_. True" kvs_skiplist_inv kvs_skiplist_abs
  "\<lambda>s k v e. the (kvs_skiplist_set all_ok rnd s (Some k) (Some v) e)"
  "\<lambda>now s k. the (kvs_skiplist_get now s (Some k))"
  "\<lambda>s k. the (kvs_skiplist_del s (Some k))"
  "\<lambda>now s k v. the (kvs_skiplist_mod all_ok s (Some k) (Some v))"
  "\<lambda>now s k. the (kvs_skiplist_exist now s (Some k))"
  "\<lambda>s k e. the (kvs_skiplist_expire s (Some k) e)"
  "\<lambda>now s k. the (kvs_skiplist_ttl now s (Some k))"
  "\<lambda>e. e_mok e = all_ok \<and> e_rnd e = rnd" sv_skiplist "\<lambda>x s. s\<lparr>sv_skiplist := x\<rparr>"
  KVS_CMD_SKSET KVS_CMD_SKGET KVS_CMD_SKDEL KVS_CMD_SKMOD KVS_CMD_SKEXIST KVS_CMD_SKSETEX KVS_CMD_SKEXPIRE
  KVS_CMD_SKTTL for rnd
  by unfold_locales (auto simp: cmd_SKSET_def cmd_SKGET_def cmd_SKDEL_def cmd_SKMOD_def cmd_SKEXIST_def cmd_SKSETEX_def
      cmd_SKEXPIRE_def cmd_SKTTL_def arg_def recheck_argc_def server_wf_def engine_call_returns skl_returns
      simp del: not_None_eq split: prod.splits)

subsection \<open>Every command\<close>

lemma exact_argc: "n \<le> l \<and> l \<le> n \<longleftrightarrow> l = (n :: nat)"
  by auto

lemma argv_shapes:
  "length argv = 2 \<Longrightarrow> \<exists>a b. argv = [a, b]" "length argv = 3 \<Longrightarrow> \<exists>a b c. argv = [a, b, c]"
  "length argv = 4 \<Longrightarrow> \<exists>a b c d. argv = [a, b, c, d]"
  by (auto simp: numeral_eq_Suc length_Suc_conv)

lemma sound_engine_cases:
  assumes "server_wf s" "e_mok e = all_ok" "hash_key_ok k"
  shows "cmd \<in> {KVS_CMD_SET, KVS_CMD_RSET, KVS_CMD_HSET, KVS_CMD_SKSET, KVS_CMD_MOD, KVS_CMD_RMOD, KVS_CMD_HMOD,
      KVS_CMD_SKMOD, KVS_CMD_EXPIRE, KVS_CMD_REXPIRE, KVS_CMD_HEXPIRE, KVS_CMD_SKEXPIRE} \<Longrightarrow>
      sound (run_case cmd e fd [n, k, v] raw s)"
    "cmd \<in> {KVS_CMD_GET, KVS_CMD_RGET, KVS_CMD_HGET, KVS_CMD_SKGET, KVS_CMD_DEL, KVS_CMD_RDEL, KVS_CMD_HDEL,
      KVS_CMD_SKDEL, KVS_CMD_EXIST, KVS_CMD_REXIST, KVS_CMD_HEXIST, KVS_CMD_SKEXIST, KVS_CMD_TTL, KVS_CMD_RTTL,
      KVS_CMD_HTTL, KVS_CMD_SKTTL} \<Longrightarrow> sound (run_case cmd e fd [n, k] raw s)"
    "cmd \<in> {KVS_CMD_SETEX, KVS_CMD_RSETEX, KVS_CMD_HSETEX, KVS_CMD_SKSETEX} \<Longrightarrow>
      sound (run_case cmd e fd [n, k, v, t] raw s)"
  using carr.commands_sound [OF assms(1,2) TrueI] crbt.commands_sound [OF assms(1,2) TrueI]
    chsh.commands_sound [OF assms] cskl.commands_sound [OF assms(1) conjI [OF assms(2) refl] TrueI]
  by (auto simp del: run_case.simps)

lemma run_case_sound:
  assumes "server_wf s" "e_mok e = all_ok" "command_argc_ok cmd (length argv)"
    "1 < length argv \<longrightarrow> hash_key_ok (argv ! 1)" "cmd \<notin> {KVS_CMD_VSET, KVS_CMD_VGET, KVS_CMD_VSEARCH}"
  shows "sound (run_case cmd e fd argv raw s)"
proof -
  note ok = sound_engine_cases [OF assms(1,2)]
  consider (admin) "cmd \<in> {KVS_CMD_BGSAVE, KVS_CMD_SYNC, KVS_CMD_FINSYNC, KVS_CMD_PING}"
    | (two) "length argv = 2" "cmd \<in> {KVS_CMD_GET, KVS_CMD_RGET, KVS_CMD_HGET, KVS_CMD_SKGET, KVS_CMD_DEL, KVS_CMD_RDEL,
      KVS_CMD_HDEL, KVS_CMD_SKDEL, KVS_CMD_EXIST, KVS_CMD_REXIST, KVS_CMD_HEXIST, KVS_CMD_SKEXIST, KVS_CMD_TTL,
      KVS_CMD_RTTL, KVS_CMD_HTTL, KVS_CMD_SKTTL}"
    | (three) "length argv = 3" "cmd \<in> {KVS_CMD_SET, KVS_CMD_RSET, KVS_CMD_HSET, KVS_CMD_SKSET, KVS_CMD_MOD, KVS_CMD_RMOD,
      KVS_CMD_HMOD, KVS_CMD_SKMOD, KVS_CMD_EXPIRE, KVS_CMD_REXPIRE, KVS_CMD_HEXPIRE, KVS_CMD_SKEXPIRE}"
    | (four) "length argv = 4" "cmd \<in> {KVS_CMD_SETEX, KVS_CMD_RSETEX, KVS_CMD_HSETEX, KVS_CMD_SKSETEX}"
    using assms(3,5) by (cases cmd) (simp_all add: command_argc_ok_def meta_def exact_argc)
  then show ?thesis
  proof cases
    case admin
    then show ?thesis using assms(1)
      by (auto simp: cmd_BGSAVE_def cmd_SYNC_def cmd_FINSYNC_def cmd_PING_def sound_def server_wf_def answer_def
          split: prod.splits)
  next
    case two
    then obtain n k where "argv = [n, k]" using argv_shapes(1) by blast
    then show ?thesis using ok(2) [of k cmd] assms(4) two(2) by simp
  next
    case three
    then obtain n k v where "argv = [n, k, v]" using argv_shapes(2) by blast
    then show ?thesis using ok(1) [of k cmd] assms(4) three(2) by simp
  next
    case four
    then obtain n k v t where "argv = [n, k, v, t]" using argv_shapes(3) by blast
    then show ?thesis using ok(3) [of k cmd] assms(4) four(2) by simp
  qed
qed

lemma execute_sound:
  assumes "server_wf s" "e_mok e = all_ok" "1 < length argv \<longrightarrow> hash_key_ok (cstr (argv ! 1))"
    "lookup_command (cstr (argv ! 0)) \<notin> Some ` {KVS_CMD_VSET, KVS_CMD_VGET, KVS_CMD_VSEARCH}"
  shows "sound (kvs_execute_command e fd argv raw s)"
  using assms
  by (cases argv) (auto simp: kvs_execute_command_def Let_def intro!: sound_answer sound_replies run_case_sound
      simp del: run_case.simps split: option.splits)

subsection \<open>Requests as bytes\<close>

lemma protocol_encode:
  assumes "args \<noteq> []" "length args < 2 ^ 31" "\<forall>a \<in> set args. length a < 2 ^ 31"
  shows "kvs_protocol all_ok e fd (resp_encode args) s = kvs_execute_command e fd args (resp_encode args) s"
  by (simp add: kvs_protocol_def args_encode [OF assms])

text \<open>The names of the commands of the four engines.\<close>

datatype engine = Array | Rbtree | Hash | Skiplist

primrec prefix_of :: "engine \<Rightarrow> string" where
  "prefix_of Array = []"
| "prefix_of Rbtree = ''R''"
| "prefix_of Hash = ''H''"
| "prefix_of Skiplist = ''SK''"

primrec set_code :: "engine \<Rightarrow> kvs_cmd" where
  "set_code Array = KVS_CMD_SET"
| "set_code Rbtree = KVS_CMD_RSET"
| "set_code Hash = KVS_CMD_HSET"
| "set_code Skiplist = KVS_CMD_SKSET"

primrec get_code :: "engine \<Rightarrow> kvs_cmd" where
  "get_code Array = KVS_CMD_GET"
| "get_code Rbtree = KVS_CMD_RGET"
| "get_code Hash = KVS_CMD_HGET"
| "get_code Skiplist = KVS_CMD_SKGET"

primrec store_of :: "engine \<Rightarrow> 'f server \<Rightarrow> store" where
  "store_of Array s = kvs_array_abs (sv_array s)"
| "store_of Rbtree s = kvs_rbtree_abs (sv_rbtree s)"
| "store_of Hash s = kvs_hash_abs (sv_hash s)"
| "store_of Skiplist s = kvs_skiplist_abs (sv_skiplist s)"

lemma engine_names:
  "cstr (prefix_of g @ ''SET'') = prefix_of g @ ''SET''" "cstr (prefix_of g @ ''GET'') = prefix_of g @ ''GET''"
  "lookup_command (prefix_of g @ ''SET'') = Some (set_code g)"
  "lookup_command (prefix_of g @ ''GET'') = Some (get_code g)"
  by (cases g; simp only: prefix_of.simps set_code.simps get_code.simps; code_simp)+

lemma engine_argc [simp]:
  "command_argc_ok (set_code g) (Suc (Suc (Suc 0)))" "command_argc_ok (get_code g) (Suc (Suc 0))" "is_write_command (set_code g)"
  "\<not> is_write_command (get_code g)"
  by (cases g; simp add: command_argc_ok_def is_write_command_def meta_def)+

lemma set_stores_in:
  assumes "server_wf s" "e_mok e = all_ok" "hash_key_ok k"
    "run_case (set_code g) e fd [n, k, v] raw s = Inr (m, Some ok_reply, s1)"
  shows "server_wf s1 \<and> store_of g s1 k = Some (v, -1)"
  using assms carr.set_stores [OF assms(1,2) TrueI] crbt.set_stores [OF assms(1,2) TrueI]
    chsh.set_stores [OF assms(1-3)] cskl.set_stores [OF assms(1) conjI [OF assms(2) refl] TrueI]
  by (cases g) (auto simp del: run_case.simps)

lemma get_answers_from:
  assumes "server_wf s" "e_mok e = all_ok" "hash_key_ok k" "e_rok e" "view (e_now e) (store_of g s) k = Some v"
  shows "\<exists>s2. run_case (get_code g) e fd [n, k] raw s = Inr (int (length (bulk v)), Some (bulk v), s2)"
  using assms carr.get_answers [OF assms(1,2) TrueI] crbt.get_answers [OF assms(1,2) TrueI]
    chsh.get_answers [OF assms(1-3)] cskl.get_answers [OF assms(1) conjI [OF assms(2) refl] TrueI]
  by (cases g) (auto simp del: run_case.simps)

lemma booted_wf: "server_wf booted"
proof -
  have "sv_rbtree booted = snd (kvs_rbtree_create all_ok (zero_rbtree VNull))"
    "sv_hash booted = snd (kvs_hash_create all_ok (\<lambda>_. Some []) zero_hash)"
    "sv_skiplist booted = snd (kvs_skiplist_create all_ok zero_skiplist)"
    "sv_array booted = snd (kvs_array_create all_ok zero_array)"
    by (simp_all add: booted_def init_kvengine_def kvs_array_create_def zero_array_def zero_server_def
        kvs_rbtree_create_def kvs_hash_create_def kvs_skiplist_create_def kvs_vector_create_def Let_def
        skiplist_new_node_def split: prod.splits)
  then show ?thesis
    using fresh_rbtree(1) zeroed_table(1) [of zero_hash] fresh_skiplist(1) fresh_array(1)
    unfolding server_wf_def by simp
qed

subsection \<open>Properties\<close>





end
