(* ===== verification/KVS_Rdb.thy ===== *)
theory KVS_Rdb
  imports KVS_Service
begin

text \<open>
  Snapshots (\<open>kvs_persistence.c\<close>): the byte format of the RDB file, saving all engines in the
  order of the code, and loading. Integers are written as the machine holds them, little-endian
  in two's complement. Saving gives \<open>None\<close> when it meets memory it must not read: a value that
  was freed or is missing, an uninitialised bucket, a loop that does not end. Loading gives
  \<open>None\<close> when an engine call does.
\<close>

subsection \<open>Integers as bytes\<close>

primrec le_bytes :: "nat \<Rightarrow> int \<Rightarrow> string" where
  "le_bytes 0 x = []"
| "le_bytes (Suc n) x = char_of x # le_bytes n (x div 256)"

primrec le_value :: "string \<Rightarrow> int" where
  "le_value [] = 0"
| "le_value (c # cs) = of_char c + 256 * le_value cs"

lemma length_le_bytes [simp]: "length (le_bytes n x) = n"
  by (induction n arbitrary: x) simp_all

lemma le_value_bytes: "le_value (le_bytes n x) = x mod 256 ^ n"
proof (induction n arbitrary: x)
  case (Suc n)
  have "x mod (256 * 256 ^ n) = 256 * (x div 256 mod 256 ^ n) + x mod 256"
    by (rule zmod_zmult2_eq) simp
  then show ?case using Suc by simp
qed simp

subsection \<open>Saving\<close>

definition TYPE_ARRAY :: int where "TYPE_ARRAY = 1"
definition TYPE_RBTREE :: int where "TYPE_RBTREE = 2"
definition TYPE_HASH :: int where "TYPE_HASH = 3"
definition TYPE_SKIPLIST :: int where "TYPE_SKIPLIST = 4"
definition TYPE_VECTOR :: int where "TYPE_VECTOR = 5"

text \<open>\<open>fwrite (s, 1, n, fp)\<close> for an \<open>int\<close> \<open>n\<close> that was made from \<open>strlen (s)\<close>: a negative \<open>n\<close>
  reads far behind the string.\<close>

definition fwrite_str :: "int \<Rightarrow> string \<Rightarrow> string option" where
  "fwrite_str n str = (if n < 0 then None else Some (take (nat n) str))"

definition rdb_write_kv_pair :: "int \<Rightarrow> string \<Rightarrow> vptr \<Rightarrow> int \<Rightarrow> string option" where
  "rdb_write_kv_pair type key value expire_ms =
     (case value of
        VStr v \<Rightarrow>
          let keylen = int_wrap (int (length key)); valuelen = int_wrap (int (length v)) in
          Option.bind (fwrite_str keylen key) (\<lambda>k. Option.bind (fwrite_str valuelen v) (\<lambda>w.
            Some (le_bytes 1 type @ le_bytes 8 expire_ms @ le_bytes 4 keylen @ k @ le_bytes 4 valuelen @ w)))
      | _ \<Rightarrow> None)"

partial_function (option) rdb_save_rbtree_node ::
    "vptr rbtree \<Rightarrow> addr \<Rightarrow> int \<Rightarrow> string option" where
  "rdb_save_rbtree_node T node type =
     (if node = rb_nil T then Some []
      else Option.bind (rdb_save_rbtree_node T (rb_left T node) type) (\<lambda>l.
        Option.bind (rdb_write_kv_pair type (rb_key T node) (rb_value T node) (rb_expire T node)) (\<lambda>m.
        Option.bind (rdb_save_rbtree_node T (rb_right T node) type) (\<lambda>r. Some (l @ m @ r)))))"

definition rdb_write_vector_entry :: "string \<Rightarrow> string \<Rightarrow> int \<Rightarrow> string \<Rightarrow> string option" where
  "rdb_write_vector_entry question ans dim vector_str =
     (let qlen = int_wrap (int (length question)); alen = int_wrap (int (length ans));
          vlen = int_wrap (int (length vector_str)) in
      Option.bind (fwrite_str qlen question) (\<lambda>q. Option.bind (fwrite_str alen ans) (\<lambda>a.
      Option.bind (fwrite_str vlen vector_str) (\<lambda>v.
        Some (le_bytes 1 TYPE_VECTOR @ le_bytes 4 qlen @ q @ le_bytes 4 alen @ a @ le_bytes 4 dim @
              le_bytes 4 vlen @ v)))))"

text \<open>\<open>snprintf\<close> stops the loop when a number does not fit in what is left of the buffer.\<close>

fun vector_string_loop :: "'f fops \<Rightarrow> nat \<Rightarrow> string \<Rightarrow> bool \<Rightarrow> 'f list \<Rightarrow> string option" where
  "vector_string_loop F cap buf first [] = Some buf"
| "vector_string_loop F cap buf first (x # xs) =
     (let out = (if first then [] else '','') @ f_print F x in
      if length out \<ge> cap - length buf then None
      else vector_string_loop F cap (buf @ out) False xs)"

definition rdb_vector_to_string :: "'f fops \<Rightarrow> bool \<Rightarrow> 'f list \<Rightarrow> int \<Rightarrow> string option" where
  "rdb_vector_to_string F mok vec dim =
     (if dim \<le> 0 then None
      else if \<not> mok then None
      else vector_string_loop F (nat dim * 32 + 1) [] True (take (nat dim) vec))"

partial_function (option) rdb_save_vector_node ::
    "'f fops \<Rightarrow> bool \<Rightarrow> 'f kvs_vector \<Rightarrow> addr \<Rightarrow> string option" where
  "rdb_save_vector_node F mok inst node =
     (if node = rb_nil (v_tree inst) then Some []
      else Option.bind (rdb_save_vector_node F mok inst (rb_left (v_tree inst) node)) (\<lambda>l.
        Option.bind
          (case v_items inst (nat (rb_value (v_tree inst) node)) of
             None \<Rightarrow> Some []
           | Some entry \<Rightarrow>
               if ve_freed entry then None
               else if ve_dim entry > 0 then
                 (case rdb_vector_to_string F mok (ve_vector entry) (ve_dim entry) of
                    None \<Rightarrow> Some []
                  | Some vs \<Rightarrow> rdb_write_vector_entry (ve_question entry) (ve_answer entry)
                                 (ve_dim entry) vs)
               else Some []) (\<lambda>m.
        Option.bind (rdb_save_vector_node F mok inst (rb_right (v_tree inst) node)) (\<lambda>r.
          Some (l @ m @ r)))))"

primrec rdb_save_cells :: "kvs_array \<Rightarrow> nat \<Rightarrow> string option" where
  "rdb_save_cells a 0 = Some []"
| "rdb_save_cells a (Suc i) =
     Option.bind (rdb_save_cells a i) (\<lambda>out.
       (case it_key (cells a i) of
          None \<Rightarrow> Some out
        | Some k \<Rightarrow> map_option (\<lambda>m. out @ m)
            (rdb_write_kv_pair TYPE_ARRAY k (it_value (cells a i)) (it_expire (cells a i)))))"

primrec rdb_save_chain :: "hashnode list \<Rightarrow> string option" where
  "rdb_save_chain [] = Some []"
| "rdb_save_chain (n # ns) =
     Option.bind (rdb_write_kv_pair TYPE_HASH (hn_key n) (hn_value n) (hn_expire n)) (\<lambda>m.
       map_option (\<lambda>r. m @ r) (rdb_save_chain ns))"

primrec rdb_save_buckets :: "hashtable \<Rightarrow> nat \<Rightarrow> string option" where
  "rdb_save_buckets h 0 = Some []"
| "rdb_save_buckets h (Suc i) =
     Option.bind (rdb_save_buckets h i) (\<lambda>out.
       Option.bind (nodes h i) (\<lambda>chain. map_option (\<lambda>m. out @ m) (rdb_save_chain chain)))"

partial_function (option) rdb_save_list :: "sl_heap \<Rightarrow> ptr option \<Rightarrow> string option" where
  "rdb_save_list h node =
     (case node of None \<Rightarrow> Some []
      | Some p \<Rightarrow> Option.bind (h p) (\<lambda>n. Option.bind (sn_key n) (\<lambda>k.
          Option.bind (rdb_write_kv_pair TYPE_SKIPLIST k (sn_value n) (sn_expire n)) (\<lambda>m.
          Option.bind (fwd h p 0) (\<lambda>next. Option.bind (rdb_save_list h next) (\<lambda>r. Some (m @ r)))))))"

definition rdb_save_to_fp :: "'f fops \<Rightarrow> bool \<Rightarrow> 'f server \<Rightarrow> string option" where
  "rdb_save_to_fp F mok s =
     Option.bind (rdb_save_cells (sv_array s) (total (sv_array s))) (\<lambda>a.
     Option.bind (rdb_save_rbtree_node (sv_rbtree s) (rb_root (sv_rbtree s)) TYPE_RBTREE) (\<lambda>t.
     Option.bind (rdb_save_vector_node F mok (sv_vector s) (rb_root (v_tree (sv_vector s)))) (\<lambda>v.
     Option.bind (rdb_save_buckets (sv_hash s) (nat (max_slots (sv_hash s)))) (\<lambda>h.
     Option.bind (header (sv_skiplist s)) (\<lambda>hdr.
     Option.bind (fwd (heap (sv_skiplist s)) hdr 0) (\<lambda>first.
     Option.bind (rdb_save_list (heap (sv_skiplist s)) first) (\<lambda>k.
       Some (a @ t @ v @ h @ k))))))))"

text \<open>The return code, and the contents of the file or the buffer.\<close>

definition rdb_save_to_file ::
    "bool \<Rightarrow> 'f fops \<Rightarrow> bool \<Rightarrow> 'f server \<Rightarrow> (int \<times> string option) option" where
  "rdb_save_to_file fopen_ok F mok s =
     (if \<not> fopen_ok then Some (-1, None)
      else map_option (\<lambda>b. (0, Some b)) (rdb_save_to_fp F mok s))"

definition rdb_save_to_memory ::
    "bool \<Rightarrow> bool \<Rightarrow> 'f fops \<Rightarrow> bool \<Rightarrow> 'f server \<Rightarrow> (int \<times> string option) option" where
  "rdb_save_to_memory open_ok close_ok F mok s =
     (if \<not> open_ok then Some (-1, None)
      else map_option (\<lambda>b. if close_ok then (0, Some b) else (-1, None)) (rdb_save_to_fp F mok s))"

text \<open>\<open>kvs_persistence_bgsave\<close>: the child saves the state it was forked with.\<close>

definition kvs_persistence_bgsave ::
    "bool \<Rightarrow> bool \<Rightarrow> 'f fops \<Rightarrow> bool \<Rightarrow> 'f server \<Rightarrow> (int \<times> string option) option" where
  "kvs_persistence_bgsave fork_ok fopen_ok F mok s =
     (if \<not> fork_ok then Some (-1, None)
      else map_option (\<lambda>(_, f). (0, f)) (rdb_save_to_file fopen_ok F mok s))"

subsection \<open>Loading\<close>

definition read_int :: "string \<Rightarrow> (int \<times> string) option" where
  "read_int buf = (if length buf < 4 then None else Some (int_wrap (le_value (take 4 buf)), drop 4 buf))"

definition read_ll :: "string \<Rightarrow> (int \<times> string) option" where
  "read_ll buf = (if length buf < 8 then None else Some (ll_wrap (le_value (take 8 buf)), drop 8 buf))"

definition read_bytes :: "int \<Rightarrow> string \<Rightarrow> (string \<times> string) option" where
  "read_bytes n buf = (if n < 0 \<or> int (length buf) < n then None else Some (take (nat n) buf, drop (nat n) buf))"

definition read_vector_record :: "string \<Rightarrow> (string \<times> string \<times> int \<times> string \<times> string) option" where
  "read_vector_record buf =
     Option.bind (read_int buf) (\<lambda>(qlen, b1).
     Option.bind (read_bytes qlen b1) (\<lambda>(q, b2).
     Option.bind (read_int b2) (\<lambda>(alen, b3).
     Option.bind (read_bytes alen b3) (\<lambda>(a, b4).
     Option.bind (read_int b4) (\<lambda>(dim, b5).
     Option.bind (read_int b5) (\<lambda>(vlen, b6).
     Option.bind (read_bytes vlen b6) (\<lambda>(v, b7). Some (q, a, dim, v, b7))))))))"

definition read_kv_record :: "string \<Rightarrow> (int \<times> string \<times> string \<times> string) option" where
  "read_kv_record buf =
     Option.bind (read_ll buf) (\<lambda>(expire_ms, b1).
     Option.bind (read_int b1) (\<lambda>(keylen, b2).
     Option.bind (read_bytes keylen b2) (\<lambda>(key, b3).
     Option.bind (read_int b3) (\<lambda>(valuelen, b4).
     Option.bind (read_bytes valuelen b4) (\<lambda>(value, b5). Some (expire_ms, key, value, b5))))))"

text \<open>The \<open>switch\<close> on the type of a record.\<close>

definition rdb_store :: "'f env \<Rightarrow> int \<Rightarrow> string \<Rightarrow> string \<Rightarrow> int \<Rightarrow> 'f server \<Rightarrow> 'f server option" where
  "rdb_store e type key value expire_ms s =
     (if type = TYPE_ARRAY then
        Some (s\<lparr>sv_array := snd (kvs_array_set (e_mok e) (sv_array s) (Some key) (Some value) expire_ms)\<rparr>)
      else if type = TYPE_RBTREE then
        map_option (\<lambda>(_, x). s\<lparr>sv_rbtree := x\<rparr>)
          (kvs_rbtree_set (e_mok e) (sv_rbtree s) (Some key) (Some value) expire_ms)
      else if type = TYPE_HASH then
        map_option (\<lambda>(_, x). s\<lparr>sv_hash := x\<rparr>)
          (kvs_hash_set (e_mok e) (sv_hash s) (Some key) (Some value) expire_ms)
      else if type = TYPE_SKIPLIST then
        map_option (\<lambda>(_, x). s\<lparr>sv_skiplist := x\<rparr>)
          (kvs_skiplist_set (e_mok e) (e_rnd e) (sv_skiplist s) (Some key) (Some value) expire_ms)
      else Some s)"

lemma read_lengths:
  "read_int buf = Some (x, b) \<Longrightarrow> length b \<le> length buf" "read_ll buf = Some (x, b) \<Longrightarrow> length b \<le> length buf"
  "read_bytes n buf = Some (y, b) \<Longrightarrow> length b \<le> length buf"
  by (auto simp: read_int_def read_ll_def read_bytes_def split: if_splits)

lemma read_vector_record_length: "read_vector_record buf = Some (q, a, d, v, b) \<Longrightarrow> length b \<le> length buf"
  unfolding read_vector_record_def
  by (auto simp: bind_eq_Some_conv dest!: read_lengths)

lemma read_kv_record_length: "read_kv_record buf = Some (x, k, v, b) \<Longrightarrow> length b \<le> length buf"
  unfolding read_kv_record_def
  by (auto simp: bind_eq_Some_conv dest!: read_lengths)

text \<open>
  The loop of \<open>rdb_load_from_memory\<close>. \<open>bmok n\<close> is the outcome of the \<open>n\<close>-th allocation of a
  buffer; \<open>key_cap\<close> and \<open>val_cap\<close> are the sizes of the buffers that are kept from one record to
  the next. A record that is cut short ends the loop.
\<close>

function rdb_load_loop ::
    "'f env \<Rightarrow> mallocs \<Rightarrow> nat \<Rightarrow> nat \<Rightarrow> nat \<Rightarrow> string \<Rightarrow> 'f server \<Rightarrow> 'f server option" where
  "rdb_load_loop e bmok n key_cap val_cap [] s = Some s"
| "rdb_load_loop e bmok n key_cap val_cap (c # buf) s =
     (if schar c = TYPE_VECTOR then
        (case read_vector_record buf of None \<Rightarrow> Some s
         | Some (q, a, dim, v, rest) \<Rightarrow>
             if \<not> bmok n \<or> \<not> bmok (n + 1) \<or> \<not> bmok (n + 2) then Some s
             else (case (if dim > 0
                         then map_option snd (kvs_vector_set (e_fops e) (e_mok e) (e_now e) (sv_vector s)
                                (Some (cstr q)) (Some (cstr a)) dim (Some (cstr v)))
                         else Some (sv_vector s)) of
                     None \<Rightarrow> None
                   | Some x \<Rightarrow> rdb_load_loop e bmok (n + 3) key_cap val_cap rest (s\<lparr>sv_vector := x\<rparr>)))
      else
        (case read_kv_record buf of None \<Rightarrow> Some s
         | Some (expire_ms, key, value, rest) \<Rightarrow>
             let grow_key = length key + 1 > key_cap;
                 n1 = (if grow_key then n + 1 else n);
                 grow_val = length value + 1 > val_cap;
                 n2 = (if grow_val then n1 + 1 else n1) in
             if grow_key \<and> \<not> bmok n then Some s
             else if grow_val \<and> \<not> bmok n1 then Some s
             else (case rdb_store e (schar c) (cstr key) (cstr value) expire_ms s of
                     None \<Rightarrow> None
                   | Some s' \<Rightarrow> rdb_load_loop e bmok n2 (max key_cap (length key + 1))
                                 (max val_cap (length value + 1)) rest s')))"
  by pat_completeness auto

termination rdb_load_loop
  by (relation "measure (\<lambda>(e, bmok, n, key_cap, val_cap, buf, s). length buf)")
    (auto dest!: read_vector_record_length read_kv_record_length)

definition rdb_load_from_memory :: "'f env \<Rightarrow> mallocs \<Rightarrow> string \<Rightarrow> 'f server \<Rightarrow> (int \<times> 'f server) option" where
  "rdb_load_from_memory e bmok data s =
     (if data = [] then Some (0, s)
      else map_option (\<lambda>s'. (0, s')) (rdb_load_loop e bmok 0 0 0 data s))"

text \<open>
  \<open>file\<close> is the contents of the snapshot file, if there is one; \<open>seek_ok\<close>, \<open>buf_ok\<close> and \<open>read_ok\<close>
  the outcomes of \<open>fseek\<close>, \<open>malloc\<close> and \<open>fread\<close>.
\<close>

definition rdb_load_files ::
    "string option \<Rightarrow> bool \<Rightarrow> bool \<Rightarrow> bool \<Rightarrow> (nat \<Rightarrow> mallocs) \<Rightarrow> (nat \<Rightarrow> hashnode list option) \<Rightarrow>
     'f env \<Rightarrow> mallocs \<Rightarrow> 'f server \<Rightarrow> (int \<times> 'f server) option" where
  "rdb_load_files data seek_ok buf_ok read_ok mk region e bmok s =
     (case data of None \<Rightarrow> Some (0, s)
      | Some d \<Rightarrow>
          if \<not> seek_ok then Some (-1, s)
          else if d = [] then Some (0, s)
          else if \<not> buf_ok then Some (-1, s)
          else if \<not> read_ok then Some (-1, s)
          else (case kvs_reset_data_engines mk region s of None \<Rightarrow> None
            | Some (r, s1) \<Rightarrow> if r \<noteq> 0 then Some (-1, s1) else rdb_load_from_memory e bmok d s1))"

subsection \<open>Records\<close>

type_synonym entry = "string \<times> string \<times> int"

definition kv_bytes :: "int \<Rightarrow> entry \<Rightarrow> string" where
  "kv_bytes type x = (case x of (k, v, e) \<Rightarrow> le_bytes 1 type @ le_bytes 8 e @
     le_bytes 4 (int_wrap (int (length k))) @ k @ le_bytes 4 (int_wrap (int (length v))) @ v)"

text \<open>An entry the format can hold: no NUL byte, lengths that fit an \<open>int\<close>, a 64-bit time.\<close>

definition plain_entry :: "entry \<Rightarrow> bool" where
  "plain_entry x \<longleftrightarrow> (case x of (k, v, e) \<Rightarrow> CHR 0x00 \<notin> set k \<and> CHR 0x00 \<notin> set v \<and>
     length k < 2 ^ 31 \<and> length v < 2 ^ 31 \<and> in_ll e)"

lemma write_kv_bytes:
  assumes "plain_entry (k, v, e)"
  shows "rdb_write_kv_pair type k (VStr v) e = Some (kv_bytes type (k, v, e))"
proof -
  have "in_int (int (length k))" "in_int (int (length v))" using assms by (auto simp: plain_entry_def in_int_def)
  then show ?thesis by (simp add: rdb_write_kv_pair_def fwrite_str_def kv_bytes_def)
qed

lemma read_int_bytes: "in_int x \<Longrightarrow> read_int (le_bytes 4 x @ rest) = Some (x, rest)"
proof -
  assume "in_int x"
  moreover have "int_wrap (x mod 2 ^ 32) = int_wrap x" by (simp add: int_wrap_def mod_simps)
  ultimately show ?thesis by (simp add: read_int_def le_value_bytes)
qed

lemma read_ll_bytes: "in_ll x \<Longrightarrow> read_ll (le_bytes 8 x @ rest) = Some (x, rest)"
proof -
  assume "in_ll x"
  moreover have "ll_wrap (x mod 2 ^ 64) = ll_wrap x" by (simp add: ll_wrap_def mod_simps)
  ultimately show ?thesis by (simp add: read_ll_def le_value_bytes)
qed

lemma read_bytes_exact: "read_bytes (int (length xs)) (xs @ rest) = Some (xs, rest)"
  by (simp add: read_bytes_def)

lemma read_kv_bytes:
  assumes "plain_entry (k, v, e)"
  shows "kv_bytes type (k, v, e) @ rest = char_of type # (le_bytes 8 e @ le_bytes 4 (int (length k)) @ k @
      le_bytes 4 (int (length v)) @ v) @ rest"
    "read_kv_record ((le_bytes 8 e @ le_bytes 4 (int (length k)) @ k @ le_bytes 4 (int (length v)) @ v) @ rest) =
      Some (e, k, v, rest)"
proof -
  have i: "in_int (int (length k))" "in_int (int (length v))" "in_ll e"
    using assms by (auto simp: plain_entry_def in_int_def)
  show "kv_bytes type (k, v, e) @ rest = char_of type # (le_bytes 8 e @ le_bytes 4 (int (length k)) @ k @
      le_bytes 4 (int (length v)) @ v) @ rest"
    using i by (simp add: kv_bytes_def)
  show "read_kv_record ((le_bytes 8 e @ le_bytes 4 (int (length k)) @ k @ le_bytes 4 (int (length v)) @ v) @ rest) =
      Some (e, k, v, rest)"
    using i by (simp add: read_kv_record_def read_ll_bytes read_int_bytes read_bytes_exact)
qed

text \<open>Loading a sequence of records is storing them one after the other.\<close>

primrec store_all :: "'f env \<Rightarrow> (int \<times> entry) list \<Rightarrow> 'f server \<Rightarrow> 'f server option" where
  "store_all e [] s = Some s"
| "store_all e (r # rs) s = (case r of (type, k, v, x) \<Rightarrow>
     Option.bind (rdb_store e type k v x s) (store_all e rs))"

lemma store_all_append: "store_all e (rs @ qs) s = Option.bind (store_all e rs s) (store_all e qs)"
proof (induction rs arbitrary: s)
  case (Cons r rs)
  obtain type k v x where "r = (type, k, v, x)" by (cases r) auto
  then show ?case using Cons by (cases "rdb_store e type k v x s") simp_all
qed simp

definition rec_bytes :: "(int \<times> entry) list \<Rightarrow> string" where
  "rec_bytes rs = concat (map (\<lambda>(type, x). kv_bytes type x) rs)"

lemma rec_bytes_simps [simp]:
  "rec_bytes [] = []" "rec_bytes ((type, x) # rs) = kv_bytes type x @ rec_bytes rs"
  "rec_bytes (rs @ qs) = rec_bytes rs @ rec_bytes qs"
  by (simp_all add: rec_bytes_def)

text \<open>The same records as \<open>rdb_write_kv_pair\<close> writes them one by one.\<close>

primrec rec_out :: "(int \<times> entry) list \<Rightarrow> string option" where
  "rec_out [] = Some []"
| "rec_out (r # rs) = (case r of (type, k, v, x) \<Rightarrow>
     Option.bind (rdb_write_kv_pair type k (VStr v) x) (\<lambda>m. map_option (\<lambda>o'. m @ o') (rec_out rs)))"

lemma map_option_conv_bind: "map_option f x = Option.bind x (\<lambda>y. Some (f y))"
  by (cases x) simp_all

lemma rec_out_append: "rec_out (rs @ qs) = Option.bind (rec_out rs) (\<lambda>a. map_option (\<lambda>b. a @ b) (rec_out qs))"
proof (induction rs)
  case Nil
  then show ?case by (cases "rec_out qs") simp_all
next
  case (Cons r rs)
  obtain type k v x where "r = (type, k, v, x)" by (cases r) auto
  then show ?case using Cons
    by (cases "rdb_write_kv_pair type k (VStr v) x"; cases "rec_out rs"; cases "rec_out qs") simp_all
qed

lemma rec_out_plain: "\<forall>(type, x) \<in> set rs. plain_entry x \<Longrightarrow> rec_out rs = Some (rec_bytes rs)"
  by (induction rs) (auto simp: write_kv_bytes)

lemma load_records:
  assumes "\<forall>(type, x) \<in> set rs. type \<in> {1, 2, 3, 4} \<and> plain_entry x"
  shows "rdb_load_loop e all_ok n kc vc (rec_bytes rs) s = store_all e rs s"
  using assms
proof (induction rs arbitrary: n kc vc s)
  case (Cons r rs)
  obtain type k v x where r: "r = (type, k, v, x)" by (cases r) auto
  have p: "plain_entry (k, v, x)" "type \<in> {1, 2, 3, 4}" using Cons.prems r by auto
  note rd = read_kv_bytes [OF p(1)]
  have ty: "schar (char_of type) = type" "type \<noteq> TYPE_VECTOR"
    using p(2) by (auto simp: schar_def TYPE_VECTOR_def Let_def)
  have c: "cstr k = k" "cstr v = v" using p(1) by (simp_all add: plain_entry_def)
  have IH: "rdb_load_loop e all_ok n kc vc (rec_bytes rs) s = store_all e rs s" for n kc vc s
    using Cons by simp
  show ?case
    unfolding r rec_bytes_simps rd(1) rdb_load_loop.simps ty(1) rd(2)
    using ty(2) c by (cases "rdb_store e type k v x s") (simp_all add: IH Let_def)
qed simp

subsection \<open>What is saved\<close>

text \<open>A list of entries that is a store: no key twice.\<close>

definition enumerates :: "entry list \<Rightarrow> store \<Rightarrow> bool" where
  "enumerates es m \<longleftrightarrow> distinct (map fst es) \<and> map_of es = m"

lemma enumeratesI:
  assumes "distinct (map fst es)" "\<And>k v e. (k, v, e) \<in> set es \<longleftrightarrow> m k = Some (v, e)"
  shows "enumerates es m"
  using assms unfolding enumerates_def
  by (auto intro!: store_eqI)

lemma enumerates_in: "enumerates es m \<Longrightarrow> (k, y) \<in> set es \<Longrightarrow> m k = Some y"
  by (auto simp: enumerates_def)

definition recs :: "int \<Rightarrow> entry list \<Rightarrow> (int \<times> entry) list" where
  "recs type es = map (\<lambda>x. (type, x)) es"

lemma recs_simps [simp]: "recs type [] = []" "recs type (x # es) = (type, x) # recs type es"
  "recs type (es @ fs) = recs type es @ recs type fs"
  by (simp_all add: recs_def)

lemma save_array:
  assumes "kvs_array_inv a"
  obtains es where "rdb_save_cells a (total a) = rec_out (recs TYPE_ARRAY es)"
    "enumerates es (kvs_array_abs a)" "length es = total a"
proof -
  define f where "f i = (the (it_key (cells a i)), (case it_value (cells a i) of VStr v \<Rightarrow> v | _ \<Rightarrow> []), it_expire (cells a i))" for i
  have cell: "\<exists>k v. cells a i = \<lparr>it_key = Some k, it_value = VStr v, it_expire = it_expire (cells a i)\<rparr>" if "i < total a" for i
    using assms that unfolding kvs_array_inv_def by (metis kvs_array_item.surjective not_None_eq old.unit.exhaust)
  have "n \<le> total a \<Longrightarrow> rdb_save_cells a n = rec_out (recs TYPE_ARRAY (map f [0..<n]))" for n
  proof (induction n)
    case (Suc n)
    obtain k v where "it_key (cells a n) = Some k" "it_value (cells a n) = VStr v"
      using cell [of n] Suc.prems by (metis Suc_le_lessD kvs_array_item.select_convs(1,2))
    then show ?case using Suc by (simp add: f_def rec_out_append)
  qed simp
  moreover have "distinct (map fst (map f [0..<total a]))"
  proof -
    have "inj_on (\<lambda>i. the (it_key (cells a i))) {0..<total a}"
      using assms unfolding kvs_array_inv_def inj_on_def by (metis atLeast0LessThan lessThan_iff option.expand)
    then show ?thesis by (simp add: distinct_map f_def comp_def)
  qed
  moreover have "enumerates (map f [0..<total a]) (kvs_array_abs a)"
  proof (rule enumeratesI [OF calculation(2)])
    fix k v e
    have iff: "f i = (k, v, e) \<longleftrightarrow> cells a i = \<lparr>it_key = Some k, it_value = VStr v, it_expire = e\<rparr>" if i: "i < total a" for i
    proof -
      obtain k' v' e' where "cells a i = \<lparr>it_key = Some k', it_value = VStr v', it_expire = e'\<rparr>"
        using cell [OF i] by blast
      then show ?thesis by (simp add: f_def)
    qed
    have "(k, v, e) \<in> set (map f [0..<total a]) \<longleftrightarrow> (\<exists>i < total a. f i = (k, v, e))" by force
    also have "\<dots> \<longleftrightarrow> kvs_array_abs a k = Some (v, e)"
      unfolding abs_Some_iff [OF assms] using iff by blast
    finally show "(k, v, e) \<in> set (map f [0..<total a]) \<longleftrightarrow> kvs_array_abs a k = Some (v, e)" .
  qed
  ultimately show ?thesis using that [of "map f [0..<total a]"] by simp
qed

lemma save_rbtree:
  assumes "kvs_rbtree_inv T"
  obtains es where "rdb_save_rbtree_node T (rb_root T) type = rec_out (recs type es)"
    "enumerates es (kvs_rbtree_abs T)"
proof -
  obtain t N where t: "rep T t (rb_root T) (rb_nil T)" "strs T N" "set (addrs t) = N" "rb_tree T N" "distinct (addrs t)"
    using assms by (auto simp: kvs_rbtree_inv_def rb_heap_def rb_tree_def tree_at_def foc_def)
  define f where "f a = (rb_key T a, (case rb_value T a of VStr v \<Rightarrow> v | _ \<Rightarrow> []), rb_expire T a)" for a
  have "rep T t x par \<Longrightarrow> \<forall>a \<in> set (addrs t). \<exists>v. rb_value T a = VStr v \<Longrightarrow>
      rdb_save_rbtree_node T x type = rec_out (recs type (map f (addrs t)))" for t x par
  proof (induction t arbitrary: x par)
    case Lf
    then show ?case by (subst rdb_save_rbtree_node.simps) simp
  next
    case (Nd l a c r)
    then obtain v where v: "rb_value T a = VStr v" by auto
    then have "f a = (rb_key T a, v, rb_expire T a)" by (simp add: f_def)
    then show ?case using Nd v
      by (subst rdb_save_rbtree_node.simps) (auto simp: rec_out_append map_option_conv_bind)
  qed
  with t have "rdb_save_rbtree_node T (rb_root T) type = rec_out (recs type (map f (addrs t)))" by blast
  moreover have "distinct (map fst (map f (addrs t)))"
    using rb_tree_inj [OF t(4)] t(3,5) by (simp add: distinct_map f_def comp_def)
  then have "enumerates (map f (addrs t)) (kvs_rbtree_abs T)"
  proof (rule enumeratesI)
    fix k v e
    show "(k, v, e) \<in> set (map f (addrs t)) \<longleftrightarrow> kvs_rbtree_abs T k = Some (v, e)"
    proof
      assume "(k, v, e) \<in> set (map f (addrs t))"
      then show "kvs_rbtree_abs T k = Some (v, e)" using t(2,3) abs_node [OF t(4)] by (fastforce simp: f_def)
    next
      assume abs: "kvs_rbtree_abs T k = Some (v, e)"
      then have "k \<in> rb_key T ` N" using abs_miss [OF t(4)] by fastforce
      then obtain a w where a: "a \<in> N" "k = rb_key T a" "rb_value T a = VStr w" using t(2) by blast
      then have "(v, e) = (w, rb_expire T a)" using abs_node [OF t(4) a(1,3)] abs by simp
      then show "(k, v, e) \<in> set (map f (addrs t))" using a t(3) by (force simp: f_def)
    qed
  qed
  ultimately show ?thesis using that by blast
qed

text \<open>The entries of a chain, and of the first \<open>n\<close> buckets of a table.\<close>

definition chain_ents :: "hashnode list \<Rightarrow> (string \<times> string \<times> int) list" where
  "chain_ents ch = map (\<lambda>n. (hn_key n, (case hn_value n of VStr v \<Rightarrow> v | _ \<Rightarrow> []), hn_expire n)) ch"

definition hash_ents :: "hashtable \<Rightarrow> nat \<Rightarrow> (string \<times> string \<times> int) list" where
  "hash_ents h n = concat (map (\<lambda>i. chain_ents (the (nodes h i))) [0..<n])"

lemma hash_ents_Suc: "hash_ents h 0 = []" "hash_ents h (Suc n) = hash_ents h n @ chain_ents (the (nodes h n))"
  by (simp_all add: hash_ents_def)

lemma save_chain:
  "\<forall>n \<in> set ns. \<exists>v. hn_value n = VStr v \<Longrightarrow> rdb_save_chain ns = rec_out (recs TYPE_HASH (chain_ents ns))"
  by (induction ns) (auto simp: chain_ents_def)

lemma inv_chain:
  assumes "kvs_hash_inv h" "i < 1024"
  obtains ch where "nodes h i = Some ch" "wf_chain i ch"
  using assms by (auto simp: kvs_hash_inv_def)

lemma save_buckets:
  assumes "kvs_hash_inv h"
  shows "n \<le> 1024 \<Longrightarrow> rdb_save_buckets h n = rec_out (recs TYPE_HASH (hash_ents h n))"
proof (induction n)
  case (Suc n)
  then obtain ch where "nodes h n = Some ch" "wf_chain n ch" using inv_chain [OF assms, of n] by auto
  then show ?case using Suc save_chain [of ch] by (simp add: wf_chain_def hash_ents_Suc rec_out_append)
qed (simp add: hash_ents_Suc)

lemma chain_ents_keys: "map fst (chain_ents ch) = map hn_key ch"
  by (simp add: chain_ents_def comp_def)

lemma hash_ents_distinct:
  assumes "kvs_hash_inv h"
  shows "n \<le> 1024 \<Longrightarrow> distinct (map fst (hash_ents h n)) \<and> (\<forall>e \<in> set (hash_ents h n). bucket (fst e) < int n)"
proof (induction n)
  case (Suc n)
  then obtain ch where ch: "nodes h n = Some ch" "wf_chain n ch" using inv_chain [OF assms, of n] by auto
  have "\<forall>k \<in> set (map fst (chain_ents ch)). bucket k = int n"
    using ch(2) by (auto simp: chain_ents_keys wf_chain_def)
  then have "\<forall>e \<in> set (chain_ents ch). bucket (fst e) = int n" by simp
  moreover have "distinct (map fst (chain_ents ch))" using ch(2) by (simp add: chain_ents_keys wf_chain_def)
  ultimately show ?case using Suc ch(1) by (fastforce simp: hash_ents_Suc)
qed (simp add: hash_ents_Suc)

lemma chain_ents_look:
  assumes "wf_chain i ch"
  shows "(k, v, e) \<in> set (chain_ents ch) \<longleftrightarrow> chain_look ch k = Some (v, e)"
proof (cases "chain_find ch k")
  case None
  then show ?thesis using chain_look_find(1) [OF assms None] by (force simp: chain_ents_def chain_find_None)
next
  case (Some n)
  then have "chain_find ch k = Some m \<longleftrightarrow> m \<in> set ch \<and> hn_key m = k" for m
    using assms by (intro chain_find_Some) (simp add: wf_chain_def)
  then have "m \<in> set ch \<and> hn_key m = k \<longleftrightarrow> m = n" for m using Some by (metis option.inject)
  moreover obtain w where "hn_value n = VStr w" "chain_look ch k = Some (w, hn_expire n)"
    using chain_look_find(2) [OF assms Some] by blast
  ultimately show ?thesis by (force simp: chain_ents_def)
qed

lemma save_hash:
  assumes "kvs_hash_inv h"
  obtains es where "rdb_save_buckets h (nat (max_slots h)) = rec_out (recs TYPE_HASH es)"
    "enumerates es (kvs_hash_abs h)"
proof -
  have slots: "nat (max_slots h) = 1024" using assms by (simp add: kvs_hash_inv_def MAX_TABLE_SIZE_def)
  have "enumerates (hash_ents h 1024) (kvs_hash_abs h)"
  proof (rule enumeratesI)
    show "distinct (map fst (hash_ents h 1024))" using hash_ents_distinct [OF assms, of 1024] by simp
  next
    fix k v e
    have look: "(k, v, e) \<in> set (chain_ents (the (nodes h i))) \<longleftrightarrow>
        int i = bucket k \<and> kvs_hash_abs h k = Some (v, e)" if "i < 1024" for i
    proof -
      obtain ch where ch: "nodes h i = Some ch" "wf_chain i ch" using inv_chain [OF assms \<open>i < 1024\<close>] by blast
      have "bucket k = int i" if "(k, v, e) \<in> set (chain_ents ch)"
        using ch(2) that by (auto simp: chain_ents_def wf_chain_def)
      moreover have "kvs_hash_abs h k = chain_look ch k" if "bucket k = int i"
        unfolding kvs_hash_abs_def that using ch(1) \<open>i < 1024\<close> by (simp add: slot_def MAX_TABLE_SIZE_def)
      ultimately show ?thesis using ch(1) chain_ents_look [OF ch(2), of k v e] by auto
    qed
    have "\<exists>i < 1024. int i = bucket k" if "kvs_hash_abs h k = Some (v, e)"
      using that by (intro exI [of _ "nat (bucket k)"])
        (auto simp: kvs_hash_abs_def slot_def MAX_TABLE_SIZE_def split: option.splits if_splits)
    then show "(k, v, e) \<in> set (hash_ents h 1024) \<longleftrightarrow> kvs_hash_abs h k = Some (v, e)"
      using look by (auto simp: hash_ents_def Bex_def)
  qed
  then show ?thesis using that save_buckets [OF assms, of 1024] by (simp add: slots)
qed

lemma save_list:
  "chn (fwd h) 0 p xs \<Longrightarrow> \<forall>x \<in> set xs. wf_node (ndata h) x \<Longrightarrow>
   fwd h p 0 = Some (first_of xs) \<and> rdb_save_list h (first_of xs) = rec_out (recs TYPE_SKIPLIST (ents (ndata h) xs))"
proof (induction xs arbitrary: p)
  case Nil
  then show ?case by (subst rdb_save_list.simps) (simp add: chn_Nil)
next
  case (Cons x xs)
  have IH: "fwd h x 0 = Some (first_of xs)"
    "rdb_save_list h (first_of xs) = rec_out (recs TYPE_SKIPLIST (ents (ndata h) xs))"
    using Cons.IH [of x] Cons.prems by (auto simp: chn_Cons)
  obtain k v e l where d: "ndata h x = Some (Some k, VStr v, e, l)" using Cons.prems(2) by (auto simp: wf_node_def)
  then have "keyof (ndata h) x = k" "valof (ndata h) x = (v, e)" by (simp_all add: keyof_def valof_def)
  moreover obtain n where "h x = Some n" "sn_key n = Some k" "sn_value n = VStr v" "sn_expire n = e"
    using d by (auto simp: ndata_def)
  ultimately show ?case using Cons.prems(1) IH
    by (subst rdb_save_list.simps) (simp add: chn_Cons map_option_conv_bind)
qed

lemma save_skiplist:
  assumes "kvs_skiplist_inv s"
  obtains es hdr first where "header s = Some hdr" "fwd (heap s) hdr 0 = Some first"
    "rdb_save_list (heap s) first = rec_out (recs TYPE_SKIPLIST es)" "enumerates es (kvs_skiplist_abs s)"
proof -
  obtain hdr xs where rep: "sl_rep s hdr xs" using assms by (auto simp: kvs_skiplist_inv_def)
  note ok = sl_repD(2) [OF rep]
  have wf: "\<forall>x \<in> set xs. wf_node (ndata (heap s)) x" using sl_okD(4) [OF ok] by blast
  have "chn (fwd (heap s)) 0 hdr xs" using sl_okD(6) [OF ok, of 0] on_0 [OF wf] by simp
  note sv = save_list [OF this wf]
  have "distinct (map (keyof (ndata (heap s))) xs)" using sl_okD(5) [OF ok] by (simp add: strict_sorted_iff)
  then have "enumerates (ents (ndata (heap s)) xs) (kvs_skiplist_abs s)"
    unfolding enumerates_def abs_rep [OF rep] by (simp add: comp_def)
  then show ?thesis using that sv sl_repD(1) [OF rep] by blast
qed

subsection \<open>What is stored\<close>

lemma array_total:
  assumes "kvs_array_inv a"
  shows "total a = card (dom (kvs_array_abs a))"
proof -
  obtain es where es: "enumerates es (kvs_array_abs a)" "length es = total a" using save_array [OF assms] by blast
  then have "dom (kvs_array_abs a) = set (map fst es)"
    using dom_map_of_conv_image_fst [of es] by (simp add: enumerates_def)
  then show ?thesis using es distinct_card [of "map fst es"] by (simp add: enumerates_def)
qed

lemma rb_set_new:
  assumes "kvs_rbtree_inv T" "kvs_rbtree_abs T k = None"
  obtains T' where "kvs_rbtree_set all_ok T (Some k) (Some v) e = Some (0, T')" "kvs_rbtree_inv T'"
    "kvs_rbtree_abs T' = (kvs_rbtree_abs T)(k \<mapsto> (v, e))"
proof -
  obtain N where N: "rb_heap T N" "strs T N" "rb_live T = insert (rb_nil T) N"
    using assms(1) by (auto simp: kvs_rbtree_inv_def)
  define U where "U = new_rb_node k (VStr v) e T"
  define n where "n = rb_next T"
  note U = heap_new [OF N(1), where k = k and v = "VStr v" and e = e, folded U_def n_def]
  have other: "a \<in> N \<Longrightarrow> a \<noteq> n" for a using U(3) by auto
  have trs: "rb_tree T N" "rb_tree U N" using N(1) U(1) by (simp_all add: rb_heap_def)
  have strs: "strs U N" using N(2) U(7) other by auto
  have same: "kvs_rbtree_abs U = kvs_rbtree_abs T" using abs_cong [OF trs N(2)] U(7) other by blast
  have "k \<notin> rb_key T ` N" using assms(2) N(2) abs_node [OF trs(1)] by fastforce
  then have miss: "k \<notin> rb_key U ` N" using U(7) other by force
  obtain T2 where T2: "rbtree_insert U n = Some T2" "rb_heap T2 (insert n N)" "same_payload U T2"
    by (rule heap_insert [OF U(1-3)]) (use U(4) miss in auto)
  have live: "rb_live U = insert n (insert (rb_nil U) N)"
    using N(3) by (auto simp: U_def n_def new_rb_node_def Let_def)
  have "kvs_rbtree_inv T2" "kvs_rbtree_abs T2 = (kvs_rbtree_abs T)(k \<mapsto> (v, e))"
    using insert_abs [OF U(1) strs _ _ U(5) T2(2,3) live] U(3,4,6) miss same by auto
  moreover have "kvs_rbtree_set all_ok T (Some k) (Some v) e = Some (0, T2)"
    using T2(1) search_miss [OF trs(2) miss]
    by (simp add: kvs_rbtree_set_def Let_def U_def [symmetric] n_def [symmetric])
  ultimately show ?thesis using that by blast
qed

text \<open>The code of an engine in the file, and the keys it can hold.\<close>

primrec type_of :: "engine \<Rightarrow> int" where
  "type_of Array = TYPE_ARRAY"
| "type_of Rbtree = TYPE_RBTREE"
| "type_of Hash = TYPE_HASH"
| "type_of Skiplist = TYPE_SKIPLIST"

definition room :: "engine \<Rightarrow> string set \<Rightarrow> bool" where
  "room g ks \<longleftrightarrow> (g = Array \<longrightarrow> card ks \<le> KVS_ARRAY_SIZE) \<and> (g = Hash \<longrightarrow> (\<forall>k \<in> ks. hash_key_ok k))"

lemmas type_codes = TYPE_ARRAY_def TYPE_RBTREE_def TYPE_HASH_def TYPE_SKIPLIST_def TYPE_VECTOR_def

lemma wf_room: "server_wf s \<Longrightarrow> room g (dom (store_of g s))"
proof (cases g)
  case Array
  assume "server_wf s"
  then have inv: "kvs_array_inv (sv_array s)" by (simp add: server_wf_def)
  then have "total (sv_array s) \<le> KVS_ARRAY_SIZE" by (simp add: kvs_array_inv_def)
  then show ?thesis using Array array_total [OF inv] by (simp add: room_def)
next
  case Hash
  then show ?thesis
    by (auto simp: room_def hash_key_ok_def kvs_hash_abs_def slot_def split: option.splits if_splits)
qed (simp_all add: room_def)

lemma all_conv_engine: "(\<forall>h. P h) \<longleftrightarrow> P Array \<and> P Rbtree \<and> P Hash \<and> P Skiplist"
  by (metis engine.exhaust)

lemma store_one:
  assumes "server_wf s" "e_mok e = all_ok" "store_of g s k = None" "finite (dom (store_of g s))"
    and "room g (insert k (dom (store_of g s)))"
  obtains s' where "rdb_store e (type_of g) k v x s = Some s'" "server_wf s'"
    "store_of g s' = (store_of g s)(k \<mapsto> (v, x))" "\<forall>h. h \<noteq> g \<longrightarrow> store_of h s' = store_of h s"
    "sv_vector s' = sv_vector s"
proof (cases g)
  case Array
  have inv: "kvs_array_inv (sv_array s)" using assms(1) by (simp add: server_wf_def)
  obtain r a' where set: "kvs_array_set all_ok (sv_array s) (Some k) (Some v) x = (r, a')" by fastforce
  have "Suc (card (dom (kvs_array_abs (sv_array s)))) \<le> KVS_ARRAY_SIZE"
    using assms(3-5) by (simp add: Array room_def domIff)
  then have "total (sv_array s) < KVS_ARRAY_SIZE" unfolding array_total [OF inv] by simp
  then have "kvs_array_inv a'" "kvs_array_abs a' = (kvs_array_abs (sv_array s))(k \<mapsto> (v, x))"
    using array_set_spec [OF inv set] by simp_all
  then show ?thesis using that [of "s\<lparr>sv_array := a'\<rparr>"] assms(1,2) set
    by (auto simp: Array rdb_store_def server_wf_def type_codes all_conv_engine)
next
  case Rbtree
  obtain T' where T: "kvs_rbtree_set all_ok (sv_rbtree s) (Some k) (Some v) x = Some (0, T')" "kvs_rbtree_inv T'"
    "kvs_rbtree_abs T' = (kvs_rbtree_abs (sv_rbtree s))(k \<mapsto> (v, x))"
    using rb_set_new [of "sv_rbtree s" k v x] assms(1,3) by (auto simp: Rbtree server_wf_def)
  then show ?thesis using that [of "s\<lparr>sv_rbtree := T'\<rparr>"] assms(1,2)
    by (auto simp: Rbtree rdb_store_def server_wf_def type_codes all_conv_engine)
next
  case Hash
  obtain h' where T: "kvs_hash_set all_ok (sv_hash s) (Some k) (Some v) x = Some (0, h')" "kvs_hash_inv h'"
    "kvs_hash_abs h' = (kvs_hash_abs (sv_hash s))(k \<mapsto> (v, x))"
    using hash_set_spec [of "sv_hash s" k v x] assms(1,5) by (auto simp: Hash server_wf_def room_def)
  then show ?thesis using that [of "s\<lparr>sv_hash := h'\<rparr>"] assms(1,2)
    by (auto simp: Hash rdb_store_def server_wf_def type_codes all_conv_engine)
next
  case Skiplist
  obtain h' where T: "kvs_skiplist_set all_ok (e_rnd e) (sv_skiplist s) (Some k) (Some v) x = Some (0, h')"
    "kvs_skiplist_inv h'" "kvs_skiplist_abs h' = (kvs_skiplist_abs (sv_skiplist s))(k \<mapsto> (v, x))"
    using skl_set_spec [of "sv_skiplist s" "e_rnd e" k v x] assms(1) by (auto simp: Skiplist server_wf_def)
  then show ?thesis using that [of "s\<lparr>sv_skiplist := h'\<rparr>"] assms(1,2)
    by (auto simp: Skiplist rdb_store_def server_wf_def type_codes all_conv_engine)
qed

lemma room_subset: "room g B \<Longrightarrow> A \<subseteq> B \<Longrightarrow> finite B \<Longrightarrow> room g A"
  unfolding room_def using card_mono [of B A] by auto

lemma store_all_engine:
  assumes "e_mok e = all_ok"
  shows "server_wf s \<Longrightarrow> finite (dom (store_of g s)) \<Longrightarrow> distinct (map fst es) \<Longrightarrow>
    fst ` set es \<inter> dom (store_of g s) = {} \<Longrightarrow> room g (fst ` set es \<union> dom (store_of g s)) \<Longrightarrow>
    \<exists>s'. store_all e (recs (type_of g) es) s = Some s' \<and> server_wf s' \<and> store_of g s' = store_of g s ++ map_of es \<and>
      (\<forall>h. h \<noteq> g \<longrightarrow> store_of h s' = store_of h s)"
proof (induction es arbitrary: s)
  case (Cons y es)
  obtain k v x where y: "y = (k, v, x)" by (cases y) auto
  have "room g (insert k (dom (store_of g s)))"
    by (rule room_subset [OF Cons.prems(5)]) (use y Cons.prems(2) in auto)
  moreover have "store_of g s k = None" using Cons.prems(4) y by auto
  ultimately obtain s1 where s1: "rdb_store e (type_of g) k v x s = Some s1" "server_wf s1"
    "store_of g s1 = (store_of g s)(k \<mapsto> (v, x))" "\<forall>h. h \<noteq> g \<longrightarrow> store_of h s1 = store_of h s"
    using store_one [OF Cons.prems(1) assms _ Cons.prems(2), of k v x] by blast
  have d: "dom (store_of g s1) = insert k (dom (store_of g s))" using s1(3) by auto
  have k: "k \<notin> fst ` set es" using Cons.prems(3) y by simp
  have "\<exists>s'. store_all e (recs (type_of g) es) s1 = Some s' \<and> server_wf s' \<and>
      store_of g s' = store_of g s1 ++ map_of es \<and> (\<forall>h. h \<noteq> g \<longrightarrow> store_of h s' = store_of h s1)"
    by (rule Cons.IH [OF s1(2)]) (use Cons.prems y k d in \<open>auto simp: d\<close>)
  moreover have "(store_of g s)(k \<mapsto> (v, x)) ++ map_of es = store_of g s ++ map_of (y # es)"
    using k map_of_eq_None_iff [of es k] by (auto simp: y map_add_def split: option.splits)
  ultimately show ?case using s1 unfolding y by (auto simp del: map_of.simps)
qed simp

text \<open>One engine's records, loaded into a server in which that engine is empty.\<close>

lemma load_engine:
  assumes "e_mok e = all_ok" "server_wf s" "server_wf s0" "store_of g s0 = Map.empty" "enumerates es (store_of g s)"
  obtains s' where "store_all e (recs (type_of g) es) s0 = Some s'" "server_wf s'" "store_of g s' = store_of g s"
    "\<And>h. h \<noteq> g \<Longrightarrow> store_of h s' = store_of h s0"
proof -
  have "fst ` set es = dom (store_of g s)"
    using assms(5) dom_map_of_conv_image_fst [of es] by (simp add: enumerates_def)
  then have "room g (fst ` set es)" using wf_room [OF assms(2)] by simp
  then show ?thesis
    using store_all_engine [OF assms(1,3), of g es] assms(4,5) that by (auto simp: enumerates_def)
qed

lemma store_all_SomeI:
  "store_all e rs s = Some s1 \<Longrightarrow> store_all e qs s1 = r \<Longrightarrow> store_all e (rs @ qs) s = r"
  by (simp add: store_all_append)

lemma saved_records:
  assumes "server_wf s" "rb_root (v_tree (sv_vector s)) = rb_nil (v_tree (sv_vector s))"
  obtains es where "\<And>g. enumerates (es g) (store_of g s)"
    "rdb_save_to_fp F m s = rec_out (recs (type_of Array) (es Array) @ recs (type_of Rbtree) (es Rbtree) @
       recs (type_of Hash) (es Hash) @ recs (type_of Skiplist) (es Skiplist))"
proof -
  have inv: "kvs_array_inv (sv_array s)" "kvs_rbtree_inv (sv_rbtree s)" "kvs_hash_inv (sv_hash s)"
    "kvs_skiplist_inv (sv_skiplist s)" using assms(1) by (simp_all add: server_wf_def)
  obtain a where a: "rdb_save_cells (sv_array s) (total (sv_array s)) = rec_out (recs TYPE_ARRAY a)"
    "enumerates a (kvs_array_abs (sv_array s))" using save_array [OF inv(1)] by blast
  obtain t where t: "rdb_save_rbtree_node (sv_rbtree s) (rb_root (sv_rbtree s)) TYPE_RBTREE =
      rec_out (recs TYPE_RBTREE t)" "enumerates t (kvs_rbtree_abs (sv_rbtree s))"
    using save_rbtree [OF inv(2)] by blast
  obtain h where h: "rdb_save_buckets (sv_hash s) (nat (max_slots (sv_hash s))) = rec_out (recs TYPE_HASH h)"
    "enumerates h (kvs_hash_abs (sv_hash s))" using save_hash [OF inv(3)] by blast
  obtain k hdr first where k: "header (sv_skiplist s) = Some hdr" "fwd (heap (sv_skiplist s)) hdr 0 = Some first"
    "rdb_save_list (heap (sv_skiplist s)) first = rec_out (recs TYPE_SKIPLIST k)"
    "enumerates k (kvs_skiplist_abs (sv_skiplist s))" using save_skiplist [OF inv(4)] by blast
  have v: "rdb_save_vector_node F m (sv_vector s) (rb_root (v_tree (sv_vector s))) = Some []"
    using assms(2) by (subst rdb_save_vector_node.simps) simp
  have "rdb_save_to_fp F m s = rec_out (recs TYPE_ARRAY a @ recs TYPE_RBTREE t @ recs TYPE_HASH h @ recs TYPE_SKIPLIST k)"
    unfolding rdb_save_to_fp_def a t h k v by (simp add: k rec_out_append map_option_conv_bind)
  moreover have "enumerates (case g of Array \<Rightarrow> a | Rbtree \<Rightarrow> t | Hash \<Rightarrow> h | Skiplist \<Rightarrow> k) (store_of g s)" for g
    using a t h k by (cases g) simp_all
  ultimately show ?thesis
    using that [of "\<lambda>g. case g of Array \<Rightarrow> a | Rbtree \<Rightarrow> t | Hash \<Rightarrow> h | Skiplist \<Rightarrow> k"] by simp
qed

text \<open>What is saved loads again, into any server with empty engines.\<close>

lemma saved_snapshot_loads:
  assumes "server_wf s" "rb_root (v_tree (sv_vector s)) = rb_nil (v_tree (sv_vector s))"
    and "\<forall>g k v x. store_of g s k = Some (v, x) \<longrightarrow> plain_entry (k, v, x)"
    and "server_wf s0" "\<forall>g. store_of g s0 = Map.empty" "e_mok e = all_ok"
  obtains data s' where "rdb_save_to_fp F m s = Some data" "rdb_load_loop e all_ok 0 0 0 data s0 = Some s'"
    "server_wf s'" "\<And>g. store_of g s' = store_of g s"
proof -
  obtain es where es: "\<And>g. enumerates (es g) (store_of g s)" "rdb_save_to_fp F m s =
      rec_out (recs (type_of Array) (es Array) @ recs (type_of Rbtree) (es Rbtree) @
       recs (type_of Hash) (es Hash) @ recs (type_of Skiplist) (es Skiplist))" (is "_ = rec_out ?rs")
    using saved_records [OF assms(1,2)] by blast
  note load = load_engine [OF assms(6,1) _ _ es(1)]
  obtain s1 where s1: "store_all e (recs (type_of Array) (es Array)) s0 = Some s1" "server_wf s1"
    "store_of Array s1 = store_of Array s" "\<And>h. h \<noteq> Array \<Longrightarrow> store_of h s1 = Map.empty"
    using load [OF assms(4), of Array] assms(5) by metis
  obtain s2 where s2: "store_all e (recs (type_of Rbtree) (es Rbtree)) s1 = Some s2" "server_wf s2"
    "store_of Rbtree s2 = store_of Rbtree s" "\<And>h. h \<noteq> Rbtree \<Longrightarrow> store_of h s2 = store_of h s1"
    using load [OF s1(2), of Rbtree] s1(4) by blast
  obtain s3 where s3: "store_all e (recs (type_of Hash) (es Hash)) s2 = Some s3" "server_wf s3"
    "store_of Hash s3 = store_of Hash s" "\<And>h. h \<noteq> Hash \<Longrightarrow> store_of h s3 = store_of h s2"
    using load [OF s2(2), of Hash] s1(4) s2(4) by (metis engine.distinct)
  obtain s4 where s4: "store_all e (recs (type_of Skiplist) (es Skiplist)) s3 = Some s4" "server_wf s4"
    "store_of Skiplist s4 = store_of Skiplist s" "\<And>h. h \<noteq> Skiplist \<Longrightarrow> store_of h s4 = store_of h s3"
    using load [OF s3(2), of Skiplist] s1(4) s2(4) s3(4) by (metis engine.distinct)
  have "store_of g s4 = store_of g s" for g
    using s1(3) s2(3) s3(3) s4(3) s2(4) s3(4) s4(4) by (cases g) (simp_all del: store_of.simps)
  moreover have "store_all e ?rs s0 = Some s4"
    by (intro store_all_SomeI [OF s1(1)] store_all_SomeI [OF s2(1)] store_all_SomeI [OF s3(1)] s4(1))
  moreover have "plain_entry x" if "x \<in> set (es g)" for x g
    using enumerates_in [OF es(1), of "fst x" "snd x" g] that assms(3) by (metis prod.collapse)
  then have "rdb_load_loop e all_ok 0 0 0 (rec_bytes ?rs) s0 = store_all e ?rs s0"
    "rec_out ?rs = Some (rec_bytes ?rs)"
    by (intro load_records rec_out_plain; auto simp: recs_def type_codes)+
  ultimately show ?thesis using es(2) s4(2) that [of "rec_bytes ?rs" s4] by simp
qed

text \<open>C6: A snapshot loses nothing. Saving a well-formed server whose vector store is empty
  succeeds, and loading the bytes into a server with empty engines gives each of the four
  engines exactly the keys, values and expiry times that were saved, provided the keys and the
  values have no NUL byte, their lengths fit an \<open>int\<close>, the times are 64-bit integers, and memory
  is available.\<close>

theorem rdb_roundtrip:
  assumes "server_wf s" "rb_root (v_tree (sv_vector s)) = rb_nil (v_tree (sv_vector s))"
    and "\<forall>g k v x. store_of g s k = Some (v, x) \<longrightarrow> plain_entry (k, v, x)"
    and "server_wf s0" "\<forall>g. store_of g s0 = Map.empty" "e_mok e = all_ok"
  shows "\<exists>data s'. rdb_save_to_memory True True F m s = Some (0, Some data) \<and>
    rdb_load_from_memory e all_ok data s0 = Some (0, s') \<and> server_wf s' \<and> (\<forall>g. store_of g s' = store_of g s)"
proof -
  obtain data s' where "rdb_save_to_fp F m s = Some data" "rdb_load_loop e all_ok 0 0 0 data s0 = Some s'"
    "server_wf s'" "\<And>g. store_of g s' = store_of g s"
    using saved_snapshot_loads [OF assms] by blast
  then show ?thesis by (auto simp: rdb_save_to_memory_def rdb_load_from_memory_def)
qed

lemma booted_empty: "store_of g booted = Map.empty"
  "rb_root (v_tree (sv_vector booted)) = rb_nil (v_tree (sv_vector booted))"
proof -
  have "sv_rbtree booted = snd (kvs_rbtree_create all_ok (zero_rbtree VNull))"
    "sv_hash booted = snd (kvs_hash_create all_ok (\<lambda>_. Some []) zero_hash)"
    "sv_skiplist booted = snd (kvs_skiplist_create all_ok zero_skiplist)"
    "sv_array booted = snd (kvs_array_create all_ok zero_array)"
    by (simp_all add: booted_def init_kvengine_def kvs_array_create_def zero_array_def zero_server_def
        kvs_rbtree_create_def kvs_hash_create_def kvs_skiplist_create_def kvs_vector_create_def Let_def
        skiplist_new_node_def split: prod.splits)
  then show "store_of g booted = Map.empty"
    using fresh_rbtree(2) zeroed_table(2) [of zero_hash] fresh_skiplist(2) fresh_array(2) by (cases g) simp_all
  show "rb_root (v_tree (sv_vector booted)) = rb_nil (v_tree (sv_vector booted))"
    by (simp add: booted_def init_kvengine_def kvs_array_create_def zero_array_def zero_server_def
        kvs_rbtree_create_def kvs_hash_create_def kvs_skiplist_create_def kvs_vector_create_def Let_def
        skiplist_new_node_def split: prod.splits)
qed

theorem rdb_roundtrip_witness:
  "\<exists>s data s'. store_of Skiplist s ''k'' = Some (''v'', 7) \<and>
     rdb_save_to_memory True True int_fops True s = Some (0, Some data) \<and>
     rdb_load_from_memory (calm_env int_fops 0) all_ok data booted = Some (0, s') \<and>
     store_of Skiplist s' ''k'' = Some (''v'', 7)"
proof -
  have ok: "e_mok (calm_env int_fops 0) = all_ok" by (simp add: calm_env_def)
  obtain s where s: "server_wf s" "store_of Skiplist s = [''k'' \<mapsto> (''v'', 7)]"
    "\<forall>h. h \<noteq> Skiplist \<longrightarrow> store_of h s = Map.empty" "sv_vector s = sv_vector booted"
    by (rule store_one [OF booted_wf ok, of Skiplist "''k''" "''v''" 7])
      (simp_all add: room_def booted_empty(1) del: store_of.simps)
  have "\<forall>g k v x. store_of g s k = Some (v, x) \<longrightarrow> plain_entry (k, v, x)"
    unfolding all_conv_engine using s(2,3) by (simp add: plain_entry_def in_ll_def del: store_of.simps)
  from rdb_roundtrip [OF s(1) _ this booted_wf _ ok, of int_fops True] s(2,4) booted_empty
  show ?thesis by (metis fun_upd_same)
qed

end
