(* ===== verification/KVS_Equiv.thy ===== *)
theory KVS_Equiv
  imports KVS_Array KVS_Hash KVS_Skiplist KVS_RBEngine
begin

text \<open>
  The four key-value engines against one reference interpreter: a map from keys to values and
  expiry times with the answers the commands are meant to give.
\<close>

subsection \<open>The reference\<close>

fun ref_call :: "kv_call \<Rightarrow> store \<Rightarrow> kv_res \<times> store" where
  "ref_call (KSet k v e) m = (RInt 0, m(k \<mapsto> (v, e)))"
| "ref_call (KGet now k) m = (RPtr (vptr_of (map_option fst (m k))), m)"
| "ref_call (KDel k) m = (RInt (if m k = None then 1 else 0), m(k := None))"
| "ref_call (KMod now k v) m = (case m k of None \<Rightarrow> (RInt 1, m) | Some (v0, e) \<Rightarrow> (RInt 0, m(k \<mapsto> (v, e))))"
| "ref_call (KExist now k) m = (RInt (if m k = None then 1 else 0), m)"
| "ref_call (KExpire k e) m = (case m k of None \<Rightarrow> (RInt 1, m)
     | Some (v, e0) \<Rightarrow> (RInt 0, m(k := if e = 0 then None else Some (v, e))))"
| "ref_call (KTtl now k) m = (RInt (case m k of None \<Rightarrow> -2 | Some (v, e) \<Rightarrow> ttl_of now e), m)"

text \<open>The engines report a missing key in \<open>mod\<close> by different positive numbers.\<close>

fun verdict :: "kv_call \<Rightarrow> kv_res \<Rightarrow> kv_res" where
  "verdict (KMod now k v) (RInt i) = RInt (sgn i)"
| "verdict c r = r"

fun refused :: "kv_call \<Rightarrow> kv_res \<Rightarrow> bool" where
  "refused (KSet k v e) (RInt i) = (i < 0)"
| "refused c r = False"

lemma lasting: "expiries m \<subseteq> {-1} \<Longrightarrow> m k = Some (v, e) \<Longrightarrow> e = -1"
  using expiriesI [of m k v e] by auto

lemma view_lasting: "expiries m \<subseteq> {-1} \<Longrightarrow> view now m k = map_option fst (m k)"
  by (auto simp: view_def dest: lasting split: option.splits)

lemma spec_step_ref:
  assumes "spec_step m c r m'" "expiries m \<subseteq> {-1}" "\<not> refused c r"
  shows "ref_call c m = (verdict c r, m')"
  using assms
proof cases
  case (get_miss now k)
  then have "m k = None" using assms(2) by (simp add: view_lasting)
  then show ?thesis using get_miss by (simp add: fun_upd_idem)
next
  case (exist_miss_dropped now k)
  then have "m k = None" using assms(2) by (simp add: view_lasting)
  then show ?thesis using exist_miss_dropped by (simp add: fun_upd_idem)
qed (use assms in \<open>auto simp: view_lasting fun_upd_idem dest: lasting\<close>)

lemma ref_lasting:
  assumes "expiries m \<subseteq> {-1}" "call_expiry c \<subseteq> {-1}" "ref_call c m = (r, m')"
  shows "expiries m' \<subseteq> {-1}"
proof -
  have upd: "expiries (m(k := x)) \<subseteq> {-1}" if "snd ` set_option x \<subseteq> {-1}" for k x
    using expiries_upd [of m k x] assms(1) that by blast
  show ?thesis using assms lasting [OF assms(1)]
    by (cases c) (auto split: option.splits dest!: upd [THEN subsetD, rotated])
qed

text \<open>No call of the sequence was refused.\<close>

definition accepted :: "kv_call list \<Rightarrow> kv_res list \<Rightarrow> bool" where
  "accepted cs rs \<longleftrightarrow> list_all2 (\<lambda>c r. \<not> refused c r) cs rs"

lemma spec_run_ref:
  assumes "spec_run m cs rs m'" "expiries m \<subseteq> {-1}" "\<forall>c \<in> set cs. call_expiry c \<subseteq> {-1}" "accepted cs rs"
  shows "run_calls ref_call cs m = (map2 verdict cs rs, m')"
  using assms
proof (induction rule: spec_run.induct)
  case (run_step m c r m1 cs rs m')
  have c: "ref_call c m = (verdict c r, m1)"
    using spec_step_ref [OF run_step.hyps(1)] run_step.prems by (simp add: accepted_def)
  have "expiries m1 \<subseteq> {-1}" by (rule ref_lasting [OF _ _ c]) (use run_step.prems in auto)
  then have "run_calls ref_call cs m1 = (map2 verdict cs rs, m')"
    using run_step.IH run_step.prems by (simp add: accepted_def)
  then show ?case using c by simp
qed simp

lemma run_calls_all2:
  assumes step: "\<And>s c r s'. I s \<Longrightarrow> P c \<Longrightarrow> step c s = (r, s') \<Longrightarrow> I s' \<and> Q c r"
    and "I s" "\<forall>c \<in> set cs. P c" "run_calls step cs s = (rs, s')"
  shows "list_all2 Q cs rs"
  using assms(2-4)
proof (induction cs arbitrary: s rs)
  case (Cons c cs)
  obtain r s1 where c: "step c s = (r, s1)" by (cases "step c s")
  obtain qs s2 where q: "run_calls step cs s1 = (qs, s2)" by (cases "run_calls step cs s1")
  have "I s1" "Q c r" using step [OF Cons.prems(1) _ c] Cons.prems(2) by auto
  then show ?case using Cons.IH [of s1 qs] Cons.prems c q by auto
qed simp

text \<open>The hash table, the skip list and the red-black tree refuse nothing.\<close>

lemma hash_accepts:
  assumes "kvs_hash_inv h" "hash_key_ok (call_key c)" "hash_call c h = (r, h')"
  shows "kvs_hash_inv h' \<and> \<not> refused c r"
proof -
  have "kvs_hash_inv h'" using hsh.call_refines [OF assms(1,2)] assms(3) by (simp add: hash_call_def)
  moreover have "\<not> refused c r"
  proof (cases c)
    case (KSet k v e)
    show ?thesis by (rule hash_set_spec [OF assms(1), of k v e])
        (use assms KSet in \<open>auto simp: hash_call_def kv_dispatch_def\<close>)
  qed auto
  ultimately show ?thesis by blast
qed

lemma skiplist_accepts:
  assumes "kvs_skiplist_inv s" "skiplist_call rnd c s = (r, s')"
  shows "kvs_skiplist_inv s' \<and> \<not> refused c r"
proof -
  have "kvs_skiplist_inv s'" using skiplist_call_inv [OF assms(1), of rnd c] assms(2) by simp
  moreover have "\<not> refused c r"
  proof (cases c)
    case (KSet k v e)
    show ?thesis by (rule skl_set_spec [OF assms(1), of rnd k v e])
        (use assms KSet in \<open>auto simp: skiplist_call_def kv_dispatch_def\<close>)
  qed auto
  ultimately show ?thesis by blast
qed

lemma rbtree_accepts:
  assumes "kvs_rbtree_inv s" "rbtree_call c s = (r, s')"
  shows "kvs_rbtree_inv s' \<and> \<not> refused c r"
proof -
  have "kvs_rbtree_inv s'" using rbtree_call_store(1) [OF assms(1), of c] assms(2) by simp
  moreover have "\<not> refused c r"
  proof (cases c)
    case (KSet k v e)
    show ?thesis by (rule rb_set_spec [OF assms(1), of k v e])
        (use assms KSet in \<open>auto simp: rbtree_call_def kv_dispatch_def\<close>)
  qed auto
  ultimately show ?thesis by blast
qed

subsection \<open>The engines run the reference\<close>

lemma empty_lasting [simp]: "expiries Map.empty = {}"
  by (simp add: expiries_def)

lemma array_ref:
  assumes "\<forall>c \<in> set cs. call_expiry c \<subseteq> {-1}" "kvs_array_inv a" "kvs_array_abs a = Map.empty"
    "run_calls array_call cs a = (rs, a')" "accepted cs rs"
  shows "run_calls ref_call cs Map.empty = (map2 verdict cs rs, kvs_array_abs a')"
  using spec_run_ref [OF _ _ assms(1,5), of Map.empty] arr.run_refines [OF assms(2), of cs] assms(3,4)
  by (auto simp: array_call_def)

lemma hash_ref:
  assumes "\<forall>c \<in> set cs. call_expiry c \<subseteq> {-1}" "\<forall>c \<in> set cs. hash_key_ok (call_key c)"
    "kvs_hash_inv h" "kvs_hash_abs h = Map.empty" "run_calls hash_call cs h = (rs, h')"
  shows "run_calls ref_call cs Map.empty = (map2 verdict cs rs, kvs_hash_abs h')"
proof -
  have "accepted cs rs" unfolding accepted_def
    by (rule run_calls_all2 [where step = hash_call and I = kvs_hash_inv, OF hash_accepts assms(3,2,5)])
  then show ?thesis
    using spec_run_ref [OF _ _ assms(1), of Map.empty] hsh.run_refines [OF assms(3,2)] assms(4,5)
    by (auto simp: hash_call_def)
qed

lemma skiplist_ref:
  assumes "\<forall>c \<in> set cs. call_expiry c \<subseteq> {-1}"
    "kvs_skiplist_inv s" "kvs_skiplist_abs s = Map.empty" "run_calls (skiplist_call rnd) cs s = (rs, s')"
  shows "run_calls ref_call cs Map.empty = (map2 verdict cs rs, kvs_skiplist_abs s')"
proof -
  have "accepted cs rs" unfolding accepted_def
    by (rule run_calls_all2 [where step = "skiplist_call rnd" and I = kvs_skiplist_inv and P = "\<lambda>_. True"])
      (use skiplist_accepts assms in auto)
  then show ?thesis
    using spec_run_ref [OF _ _ assms(1), of Map.empty] skl.run_refines [OF assms(2), where cs = cs and rnd = rnd]
      assms(3,4)
    by (auto simp: skiplist_call_def)
qed

lemma rbtree_ref:
  assumes "\<forall>c \<in> set cs. call_expiry c \<subseteq> {-1}"
    "kvs_rbtree_inv s" "kvs_rbtree_abs s = Map.empty" "run_calls rbtree_call cs s = (rs, s')"
  shows "run_calls ref_call cs Map.empty = (map2 verdict cs rs, kvs_rbtree_abs s')"
proof -
  have "accepted cs rs" unfolding accepted_def
    by (rule run_calls_all2 [where step = rbtree_call and I = kvs_rbtree_inv and P = "\<lambda>_. True"])
      (use rbtree_accepts assms in auto)
  moreover have "spec_run Map.empty cs rs (kvs_rbtree_abs s')"
    using rbtree_run_refines [OF assms(2) _ assms(1,4)] assms(3) by simp
  ultimately show ?thesis using spec_run_ref [OF _ _ assms(1), of Map.empty] by auto
qed

subsection \<open>Properties\<close>

abbreviation empty_array :: kvs_array where
  "empty_array \<equiv> snd (kvs_array_create all_ok zero_array)"
abbreviation empty_hash :: hashtable where
  "empty_hash \<equiv> snd (kvs_hash_create all_ok (\<lambda>_. Some []) zero_hash)"
abbreviation empty_skiplist :: skiplist where
  "empty_skiplist \<equiv> snd (kvs_skiplist_create all_ok zero_skiplist)"
abbreviation empty_rbtree :: "vptr rbtree" where
  "empty_rbtree \<equiv> snd (kvs_rbtree_create all_ok (zero_rbtree VNull))"

text \<open>C14: as long as no expiry time is set, a fresh hash table, skip list and red-black tree answer
  every sequence of calls exactly as one reference map does and end with exactly its contents,
  whatever \<open>rand\<close> returns; so does the array as long as it has not refused a call for want of a
  free slot.\<close>

theorem engines_equal_reference:
  assumes "\<forall>c \<in> set cs. call_expiry c \<subseteq> {-1} \<and> hash_key_ok (call_key c)"
    "run_calls array_call cs empty_array = (ra, a)" "run_calls hash_call cs empty_hash = (rh, h)"
    "run_calls (skiplist_call rnd) cs empty_skiplist = (rk, k)" "run_calls rbtree_call cs empty_rbtree = (rt, t)"
    "run_calls ref_call cs Map.empty = (rs, m)"
  shows "map2 verdict cs rh = rs \<and> kvs_hash_abs h = m \<and> map2 verdict cs rk = rs \<and> kvs_skiplist_abs k = m \<and>
    map2 verdict cs rt = rs \<and> kvs_rbtree_abs t = m \<and>
    (accepted cs ra \<longrightarrow> map2 verdict cs ra = rs \<and> kvs_array_abs a = m)"
proof -
  have e: "\<forall>c \<in> set cs. call_expiry c \<subseteq> {-1}" "\<forall>c \<in> set cs. hash_key_ok (call_key c)" using assms(1) by auto
  show ?thesis
    using hash_ref [OF e zeroed_table assms(3)] skiplist_ref [OF e(1) fresh_skiplist assms(4)]
      rbtree_ref [OF e(1) fresh_rbtree assms(5)] array_ref [OF e(1) fresh_array assms(2)] assms(6) by auto
qed

theorem engines_equal_reference_witness:
  "let cs = [KSet ''b'' ''2'' (-1), KSet ''a'' ''1'' (-1), KMod 0 ''c'' ''x'', KDel ''b'', KGet 7 ''a'', KGet 7 ''b'']
   in map2 verdict cs (fst (run_calls hash_call cs empty_hash)) = fst (run_calls ref_call cs Map.empty) \<and>
      map2 verdict cs (fst (run_calls rbtree_call cs empty_rbtree)) =
        [RInt 0, RInt 0, RInt 1, RInt 0, RPtr (VStr ''1''), RPtr VNull]"
proof -
  let ?cs = "[KSet ''b'' ''2'' (-1), KSet ''a'' ''1'' (-1), KMod 0 ''c'' ''x'', KDel ''b'', KGet 7 ''a'', KGet 7 ''b'']"
  have "hash_key_ok ''a''" "hash_key_ok ''b''" "hash_key_ok ''c''" by code_simp+
  then have ok: "\<forall>c \<in> set ?cs. call_expiry c \<subseteq> {-1} \<and> hash_key_ok (call_key c)" by simp
  have "fst (run_calls ref_call ?cs Map.empty) = [RInt 0, RInt 0, RInt 1, RInt 0, RPtr (VStr ''1''), RPtr VNull]"
    by simp
  with engines_equal_reference [OF ok surjective_pairing surjective_pairing surjective_pairing [of "run_calls (skiplist_call (\<lambda>_. 0)) ?cs empty_skiplist"]
      surjective_pairing surjective_pairing]
  show ?thesis by (simp add: Let_def)
qed

end
