(* ===== verification/KVS_Recover.thy ===== *)
theory KVS_Recover
  imports KVS_Rdb KVS_Equiv
begin

text \<open>
  Loading the append-only file (\<open>aof_load_file\<close>, \<open>kvs_persistence_load\<close> of
  \<open>kvs_persistence.c\<close>), and recovery: the server thread that executes requests, the worker that
  writes the log and the kernel that completes the writes, run together, followed by a restart
  that replays the file.
\<close>

subsection \<open>Loading\<close>

lemma resp_bulks_pos: "resp_bulks buf p n = RespOne m \<Longrightarrow> 0 < p \<Longrightarrow> 0 < m"
  by (induction n arbitrary: p) (auto simp: Let_def split: if_splits prod.splits)

lemma resp_one_pos: "resp_parse_one_command buf = RespOne m \<Longrightarrow> 0 < m \<and> buf \<noteq> []"
  by (auto simp: resp_parse_one_command_def at_def split: if_splits prod.splits dest: resp_bulks_pos)

text \<open>
  The loop of \<open>aof_load_file\<close>; \<open>es i\<close> and \<open>amok i\<close> are what the run-time system supplies to the
  \<open>i\<close>-th command. \<open>None\<close> is a fault or a wait inside a command.
\<close>

function aof_load_loop ::
    "(nat \<Rightarrow> mallocs) \<Rightarrow> (nat \<Rightarrow> 'f env) \<Rightarrow> nat \<Rightarrow> string \<Rightarrow> 'f server \<Rightarrow> 'f server option" where
  "aof_load_loop amok es i buf s =
     (if buf = [] then Some s
      else (case resp_parse_one_command buf of
        RespOne m \<Rightarrow>
          (case kvs_protocol (amok i) (es i) (-1) (take m buf) s of
             Inl _ \<Rightarrow> None
           | Inr (_, _, s') \<Rightarrow> aof_load_loop amok es (i + 1) (drop m buf) s')
      | RespOob \<Rightarrow> None
      | _ \<Rightarrow> Some s))"
  by auto

termination aof_load_loop
  by (relation "measure (\<lambda>(amok, es, i, buf, s). length buf)") (auto dest: resp_one_pos)

declare aof_load_loop.simps [simp del]

definition aof_load_file ::
    "string option \<Rightarrow> bool \<Rightarrow> bool \<Rightarrow> bool \<Rightarrow> (nat \<Rightarrow> mallocs) \<Rightarrow> (nat \<Rightarrow> 'f env) \<Rightarrow> 'f server \<Rightarrow>
     (int \<times> 'f server) option" where
  "aof_load_file data seek_ok buf_ok read_ok amok es s =
     (case data of None \<Rightarrow> Some (0, s)
      | Some d \<Rightarrow>
          if \<not> seek_ok then Some (-1, s)
          else if d = [] then Some (0, s)
          else if \<not> buf_ok then Some (-1, s)
          else if \<not> read_ok then Some (-1, s)
          else map_option (\<lambda>s'. (0, s'\<lparr>sv_loading := False\<rparr>))
                 (aof_load_loop amok es 0 d (s\<lparr>sv_loading := True\<rparr>)))"

text \<open>\<open>persistence_mode\<close> is 2 and never changes.\<close>

definition kvs_persistence_load ::
    "string option \<Rightarrow> bool \<Rightarrow> bool \<Rightarrow> bool \<Rightarrow> (nat \<Rightarrow> mallocs) \<Rightarrow> (nat \<Rightarrow> 'f env) \<Rightarrow> 'f server \<Rightarrow>
     (int \<times> 'f server) option" where
  "kvs_persistence_load data seek_ok buf_ok read_ok amok es s =
     map_option (\<lambda>(_, s'). (0, s')) (aof_load_file data seek_ok buf_ok read_ok amok es s)"

subsection \<open>Requests\<close>

text \<open>The commands that set, read, delete and change a value, on one of the engines.\<close>

datatype request =
    QSet (q_engine: engine) (q_key: string) (q_value: string)
  | QGet (q_engine: engine) (q_key: string)
  | QDel (q_engine: engine) (q_key: string)
  | QMod (q_engine: engine) (q_key: string) (q_value: string)
  | QExist (q_engine: engine) (q_key: string)

primrec argv_of :: "request \<Rightarrow> string list" where
  "argv_of (QSet g k v) = [prefix_of g @ ''SET'', k, v]"
| "argv_of (QGet g k) = [prefix_of g @ ''GET'', k]"
| "argv_of (QDel g k) = [prefix_of g @ ''DEL'', k]"
| "argv_of (QMod g k v) = [prefix_of g @ ''MOD'', k, v]"
| "argv_of (QExist g k) = [prefix_of g @ ''EXIST'', k]"

primrec del_code :: "engine \<Rightarrow> kvs_cmd" where
  "del_code Array = KVS_CMD_DEL"
| "del_code Rbtree = KVS_CMD_RDEL"
| "del_code Hash = KVS_CMD_HDEL"
| "del_code Skiplist = KVS_CMD_SKDEL"

primrec mod_code :: "engine \<Rightarrow> kvs_cmd" where
  "mod_code Array = KVS_CMD_MOD"
| "mod_code Rbtree = KVS_CMD_RMOD"
| "mod_code Hash = KVS_CMD_HMOD"
| "mod_code Skiplist = KVS_CMD_SKMOD"

primrec exist_code :: "engine \<Rightarrow> kvs_cmd" where
  "exist_code Array = KVS_CMD_EXIST"
| "exist_code Rbtree = KVS_CMD_REXIST"
| "exist_code Hash = KVS_CMD_HEXIST"
| "exist_code Skiplist = KVS_CMD_SKEXIST"

primrec code_of :: "request \<Rightarrow> kvs_cmd" where
  "code_of (QSet g k v) = set_code g"
| "code_of (QGet g k) = get_code g"
| "code_of (QDel g k) = del_code g"
| "code_of (QMod g k v) = mod_code g"
| "code_of (QExist g k) = exist_code g"

primrec q_call :: "int \<Rightarrow> request \<Rightarrow> kv_call" where
  "q_call now (QSet g k v) = KSet k v (-1)"
| "q_call now (QGet g k) = KGet now k"
| "q_call now (QDel g k) = KDel k"
| "q_call now (QMod g k v) = KMod now k v"
| "q_call now (QExist g k) = KExist now k"

primrec q_writes :: "request \<Rightarrow> bool" where
  "q_writes (QSet g k v) = True"
| "q_writes (QGet g k) = False"
| "q_writes (QDel g k) = True"
| "q_writes (QMod g k v) = True"
| "q_writes (QExist g k) = False"

text \<open>A request the protocol transports as it is and the hash table can place.\<close>

definition plain_request :: "request \<Rightarrow> bool" where
  "plain_request q \<longleftrightarrow> hash_key_ok (q_key q) \<and> (\<forall>a \<in> set (argv_of q). CHR 0x00 \<notin> set a) \<and>
     length (resp_encode (argv_of q)) < 2 ^ 31"

lemma request_lookup: "lookup_command (argv_of q ! 0) = Some (code_of q)"
proof -
  have "lookup_command (prefix_of g @ ''SET'') = Some (set_code g)" "lookup_command (prefix_of g @ ''GET'') = Some (get_code g)"
    "lookup_command (prefix_of g @ ''DEL'') = Some (del_code g)" "lookup_command (prefix_of g @ ''MOD'') = Some (mod_code g)"
    "lookup_command (prefix_of g @ ''EXIST'') = Some (exist_code g)" for g
    by (cases g; simp only: prefix_of.simps set_code.simps get_code.simps del_code.simps mod_code.simps exist_code.simps;
        code_simp)+
  then show ?thesis by (cases q) simp_all
qed

lemma request_argc: "command_argc_ok (code_of q) (length (argv_of q))"
  by (cases q; cases "q_engine q") (simp_all add: command_argc_ok_def meta_def)

lemma request_writes: "is_write_command (code_of q) = q_writes q"
  by (cases q; cases "q_engine q") (simp_all add: is_write_command_def meta_def)

lemma bulk_longer: "length x < length (resp_bulk x)"
  by (simp add: resp_bulk_def)

lemma bulks_longer: "length as \<le> length (concat (map resp_bulk as))"
proof (induction as)
  case (Cons a as)
  then show ?case using bulk_longer [of a] by simp
qed simp

lemma bulks_member: "a \<in> set as \<Longrightarrow> length a < length (concat (map resp_bulk as))"
proof (induction as)
  case (Cons b as)
  then show ?case using bulk_longer [of a] by auto
qed simp

lemma encode_length:
  "a \<in> set as \<Longrightarrow> length a < length (resp_encode as)" "length as < length (resp_encode as)"
  using bulks_member [of a as] bulks_longer [of as] by (simp_all add: resp_encode_def)

lemma request_protocol:
  assumes "plain_request q" "\<not> (sv_slave_mode s \<and> \<not> sv_replicating s)"
  shows "kvs_protocol all_ok e fd (resp_encode (argv_of q)) s =
    run_case (code_of q) e fd (argv_of q) (resp_encode (argv_of q)) s"
proof -
  let ?as = "argv_of q"
  have ne: "?as \<noteq> []" by (cases q) simp_all
  have len: "length (resp_encode ?as) < 2 ^ 31" "map cstr ?as = ?as"
    using assms(1) by (auto simp: plain_request_def intro: map_idI)
  have "kvs_protocol all_ok e fd (resp_encode ?as) s = kvs_execute_command e fd ?as (resp_encode ?as) s"
    by (rule protocol_encode [OF ne]) (use len(1) encode_length(1) [of _ ?as] encode_length(2) [of ?as] in \<open>auto intro: less_trans\<close>)
  moreover have "cstr (?as ! 0) = ?as ! 0" using len(2) ne by (metis length_greater_0_conv nth_map)
  ultimately show ?thesis
    using kvs_execute_command_cases [OF ne, of "code_of q" e fd "resp_encode ?as" s] request_lookup [of q]
      request_argc [of q] assms(2) by (auto simp only: len(2) simp_thms if_False if_True split: if_splits)
qed

subsection \<open>The effect of a request\<close>

text \<open>The reference store of \<open>KVS_Equiv\<close>, with a store that may be full.\<close>

definition ref_full :: "(store \<Rightarrow> bool) \<Rightarrow> kv_call \<Rightarrow> store \<Rightarrow> kv_res \<times> store" where
  "ref_full full c m = (case c of
     KSet k v e \<Rightarrow> if full m then (RInt (-1), m) else ref_call c m
   | _ \<Rightarrow> ref_call c m)"

text \<open>
  What a command makes of the server: it answers, and if it is a write it logs the request when
  \<open>ok\<close> and the answer is then no error; \<open>t\<close> is the server with the new engine.
\<close>

definition no_error :: "string \<Rightarrow> bool" where
  "no_error msg \<longleftrightarrow> msg \<noteq> [] \<and> hd msg \<noteq> CHR ''-''"

definition replies :: "'f env \<Rightarrow> kvs_cmd \<Rightarrow> string \<Rightarrow> bool \<Rightarrow> bool \<Rightarrow> 'f server \<Rightarrow> 'f cres \<Rightarrow> bool" where
  "replies e code raw wr ok t res \<longleftrightarrow> (\<exists>msg.
     if wr then (ok \<longrightarrow> no_error msg) \<and> (\<exists>ret. (ok \<longleftrightarrow> command_result_changed_data code ret) \<and>
       res = (case persist_command_if_changed e code ret raw t of
                None \<Rightarrow> Inl Waiting | Some t' \<Rightarrow> Inr (int (length msg), Some msg, t')))
     else res = Inr (int (length msg), Some msg, t))"

lemma replies_persist:
  assumes "e_rok e" "length msg < cap" "ok \<longleftrightarrow> command_result_changed_data code ret" "ok \<longrightarrow> no_error msg"
  shows "replies e code raw True ok t (answer_persist e code ret raw cap msg t)"
  unfolding replies_def answer_persist_def using assms by (intro exI [of _ msg]) auto

lemma replies_writes:
  assumes "e_rok e"
  shows "set_like code \<Longrightarrow> ret \<le> 0 \<Longrightarrow> replies e code raw True (ret = 0) t (reply_set e code raw ret t)"
    "del_like code \<Longrightarrow> replies e code raw True (ret = 0) t (reply_del e code raw ret t)"
    "del_like code \<Longrightarrow> replies e code raw True (ret = 0) t (reply_mod e code raw ret t)"
proof -
  note p = replies_persist [OF assms]
  show "replies e code raw True (ret = 0) t (reply_set e code raw ret t)" if "set_like code" "ret \<le> 0"
    using that unfolding reply_set_def by (cases "ret < 0") (simp_all add: p set_like_def no_error_def)
  assume "del_like code"
  then show "replies e code raw True (ret = 0) t (reply_del e code raw ret t)"
    "replies e code raw True (ret = 0) t (reply_mod e code raw ret t)"
    unfolding reply_del_def reply_mod_def by (cases "ret < 0"; cases "ret = 0"; simp add: p del_like_def no_error_def)+
qed

lemma replies_reads:
  assumes "e_rok e"
  shows "p \<noteq> VFreed \<Longrightarrow> replies e code raw False ok t (reply_get e p t)"
    "replies e code raw False ok t (reply_exist e ret t)"
  by (cases p; simp add: assms replies_def reply_get_def answer_def Let_def)
    (simp add: assms replies_def reply_exist_def answer_def)

text \<open>An engine that, while no expiry time is set, does what the reference store does.\<close>

locale lasting_engine = engine_commands +
  fixes full :: "store \<Rightarrow> bool"
  assumes lasting_refines: "inv x \<Longrightarrow> key_ok (call_key c) \<Longrightarrow> expiries (abs x) \<subseteq> {-1} \<Longrightarrow> call_expiry c \<subseteq> {-1} \<Longrightarrow>
      call c x = (r, x') \<Longrightarrow> inv x' \<and> spec_step (abs x) c r (abs x')"
    and refuses: "inv x \<Longrightarrow> key_ok k \<Longrightarrow> set_op x k v t = (i, x') \<Longrightarrow> i < 0 \<longleftrightarrow> full (abs x)"
    and set_like_code: "set_like c_set"
    and del_like_codes: "del_like c_del" "del_like c_mod"
begin

lemma call_ref:
  assumes "inv x" "key_ok (call_key c)" "expiries (abs x) \<subseteq> {-1}" "call_expiry c \<subseteq> {-1}" "call c x = (r, x')"
  shows "inv x' \<and> abs x' = snd (ref_full full c (abs x)) \<and> (r = RInt 0 \<longleftrightarrow> fst (ref_full full c (abs x)) = RInt 0)"
proof -
  note st = lasting_refines [OF assms]
  have zero: "verdict c r = RInt 0 \<longleftrightarrow> r = RInt 0" by (cases "(c, r)" rule: verdict.cases) (auto simp: sgn_if)
  show ?thesis
  proof (cases "refused c r")
    case True
    then obtain k v t i where c: "c = KSet k v t" "r = RInt i" "i < 0" by (cases "(c, r)" rule: refused.cases) auto
    then have op: "set_op x k v t = (i, x')"
      using assms(5) by (auto simp: kv_dispatch_def map_prod_def split: prod.splits)
    have "key_ok k" using assms(2) c by simp
    then have "full (abs x)" "abs x' = abs x" using refuses [OF assms(1) _ op] set_law [OF assms(1) _ op] c(3) by simp_all
    then show ?thesis using st c by (simp add: ref_full_def)
  next
    case False
    then have ref: "ref_call c (abs x) = (verdict c r, abs x')" using st spec_step_ref assms(3) by blast
    have "\<not> full (abs x)" if c: "c = KSet k v t" for k v t
    proof -
      obtain i where i: "set_op x k v t = (i, x')" "r = RInt i"
        using assms(5) c by (auto simp: kv_dispatch_def map_prod_def split: prod.splits)
      then show ?thesis using refuses [OF assms(1) _ i(1)] False c assms(2) by simp
    qed
    then have "ref_full full c (abs x) = (verdict c r, abs x')" using ref by (cases c) (auto simp: ref_full_def simp del: ref_call.simps)
    then show ?thesis using st zero by simp
  qed
qed

text \<open>What the five commands of the engine make of the server.\<close>

lemma command_effects:
  assumes s: "server_wf s" and e: "env_ok e" "e_rok e" and k: "key_ok k" and l: "expiries (abs (eng s)) \<subseteq> {-1}"
  shows "\<exists>x. inv x \<and> abs x = snd (ref_full full (KSet k v (-1)) (abs (eng s))) \<and> replies e c_set raw True
      (fst (ref_full full (KSet k v (-1)) (abs (eng s))) = RInt 0) (with_eng x s) (run_case c_set e fd [n, k, v] raw s)"
    "\<exists>x. inv x \<and> abs x = snd (ref_full full (KGet (e_now e) k) (abs (eng s))) \<and>
      replies e c_get raw False ok (with_eng x s) (run_case c_get e fd [n, k] raw s)"
    "\<exists>x. inv x \<and> abs x = snd (ref_full full (KDel k) (abs (eng s))) \<and> replies e c_del raw True
      (fst (ref_full full (KDel k) (abs (eng s))) = RInt 0) (with_eng x s) (run_case c_del e fd [n, k] raw s)"
    "\<exists>x. inv x \<and> abs x = snd (ref_full full (KMod (e_now e) k v) (abs (eng s))) \<and> replies e c_mod raw True
      (fst (ref_full full (KMod (e_now e) k v) (abs (eng s))) = RInt 0) (with_eng x s) (run_case c_mod e fd [n, k, v] raw s)"
    "\<exists>x. inv x \<and> abs x = snd (ref_full full (KExist (e_now e) k) (abs (eng s))) \<and>
      replies e c_exist raw False ok (with_eng x s) (run_case c_exist e fd [n, k] raw s)"
proof -
  note i = wf_eng [OF s] and run = e(1) wf_eng [OF s] k
  note ref = call_ref [OF i _ l]
  obtain r x where x: "set_op (eng s) k v (-1) = (r, x)" by (cases "set_op (eng s) k v (-1)")
  show "\<exists>x. inv x \<and> abs x = snd (ref_full full (KSet k v (-1)) (abs (eng s))) \<and> replies e c_set raw True
      (fst (ref_full full (KSet k v (-1)) (abs (eng s))) = RInt 0) (with_eng x s) (run_case c_set e fd [n, k, v] raw s)"
    using ref [of "KSet k v (-1)" "RInt r" x] k x set_law [OF i k x] replies_writes(1) [OF e(2) set_like_code, of r raw]
    unfolding run_set [OF run] by (intro exI [of _ x]) (auto simp: kv_dispatch_def)
  obtain r x where x: "del_op (eng s) k = (r, x)" by (cases "del_op (eng s) k")
  show "\<exists>x. inv x \<and> abs x = snd (ref_full full (KDel k) (abs (eng s))) \<and> replies e c_del raw True
      (fst (ref_full full (KDel k) (abs (eng s))) = RInt 0) (with_eng x s) (run_case c_del e fd [n, k] raw s)"
    using ref [of "KDel k" "RInt r" x] k x replies_writes(2) [OF e(2) del_like_codes(1), of raw r]
    unfolding run_del [OF run] by (intro exI [of _ x]) (auto simp: kv_dispatch_def)
  obtain r x where x: "mod_op (e_now e) (eng s) k v = (r, x)" by (cases "mod_op (e_now e) (eng s) k v")
  show "\<exists>x. inv x \<and> abs x = snd (ref_full full (KMod (e_now e) k v) (abs (eng s))) \<and> replies e c_mod raw True
      (fst (ref_full full (KMod (e_now e) k v) (abs (eng s))) = RInt 0) (with_eng x s) (run_case c_mod e fd [n, k, v] raw s)"
    using ref [of "KMod (e_now e) k v" "RInt r" x] k x replies_writes(3) [OF e(2) del_like_codes(2), of raw r]
    unfolding run_mod [OF run] by (intro exI [of _ x]) (auto simp: kv_dispatch_def)
  obtain p x where x: "get_op (e_now e) (eng s) k = (p, x)" by (cases "get_op (e_now e) (eng s) k")
  show "\<exists>x. inv x \<and> abs x = snd (ref_full full (KGet (e_now e) k) (abs (eng s))) \<and>
      replies e c_get raw False ok (with_eng x s) (run_case c_get e fd [n, k] raw s)"
    using ref [of "KGet (e_now e) k" "RPtr p" x] k x get_not_freed [OF i k x] replies_reads(1) [OF e(2), of p c_get raw]
    unfolding run_get [OF run] by (intro exI [of _ x]) (auto simp: kv_dispatch_def)
  obtain r x where x: "exist_op (e_now e) (eng s) k = (r, x)" by (cases "exist_op (e_now e) (eng s) k")
  show "\<exists>x. inv x \<and> abs x = snd (ref_full full (KExist (e_now e) k) (abs (eng s))) \<and>
      replies e c_exist raw False ok (with_eng x s) (run_case c_exist e fd [n, k] raw s)"
    using ref [of "KExist (e_now e) k" "RInt r" x] k x replies_reads(2) [OF e(2), of c_exist raw]
    unfolding run_exist [OF run] by (intro exI [of _ x]) (auto simp: kv_dispatch_def)
qed

end

definition array_full :: "store \<Rightarrow> bool" where
  "array_full m \<longleftrightarrow> KVS_ARRAY_SIZE \<le> card (dom m)"

lemma array_refuses:
  assumes "kvs_array_inv x" "kvs_array_set all_ok x (Some k) (Some v) t = (i, x')"
  shows "i < 0 \<longleftrightarrow> array_full (kvs_array_abs x)"
  using array_set_spec [OF assms] array_total [OF assms(1)] by (auto simp: array_full_def split: if_splits)

interpretation larr: lasting_engine "\<lambda>_. True" kvs_array_inv kvs_array_abs
  "\<lambda>a k v e. kvs_array_set all_ok a (Some k) (Some v) e"
  "\<lambda>now a k. kvs_array_get now a (Some k)"
  "\<lambda>a k. kvs_array_del a (Some k)"
  "\<lambda>now a k v. kvs_array_mod all_ok a (Some k) (Some v)"
  "\<lambda>now a k. (kvs_array_exist now a (Some k), a)"
  "\<lambda>a k e. kvs_array_expire a (Some k) e"
  "\<lambda>now a k. kvs_array_ttl now a (Some k)"
  "\<lambda>e. e_mok e = all_ok" sv_array "\<lambda>x s. s\<lparr>sv_array := x\<rparr>"
  KVS_CMD_SET KVS_CMD_GET KVS_CMD_DEL KVS_CMD_MOD KVS_CMD_EXIST KVS_CMD_SETEX KVS_CMD_EXPIRE KVS_CMD_TTL array_full
  by unfold_locales (auto simp: array_refuses dest: arr.call_refines)

lemma rbtree_lasting:
  assumes "kvs_rbtree_inv s" "expiries (kvs_rbtree_abs s) \<subseteq> {-1}" "call_expiry c \<subseteq> {-1}" "rbtree_call c s = (r, s')"
  shows "kvs_rbtree_inv s' \<and> spec_step (kvs_rbtree_abs s) c r (kvs_rbtree_abs s')"
  using rbtree_step_refines [OF conjI [OF assms(1,2)] assms(3,4)] by blast

interpretation lrbt: lasting_engine "\<lambda>_. True" kvs_rbtree_inv kvs_rbtree_abs
  "\<lambda>s k v e. the (kvs_rbtree_set all_ok s (Some k) (Some v) e)"
  "\<lambda>now s k. the (kvs_rbtree_get now s (Some k))"
  "\<lambda>s k. the (kvs_rbtree_del s (Some k))"
  "\<lambda>now s k v. the (kvs_rbtree_mod all_ok s (Some k) (Some v))"
  "\<lambda>now s k. the (kvs_rbtree_exist now s (Some k))"
  "\<lambda>s k e. the (kvs_rbtree_expire s (Some k) e)"
  "\<lambda>now s k. the (kvs_rbtree_ttl now s (Some k))"
  "\<lambda>e. e_mok e = all_ok" sv_rbtree "\<lambda>x s. s\<lparr>sv_rbtree := x\<rparr>"
  KVS_CMD_RSET KVS_CMD_RGET KVS_CMD_RDEL KVS_CMD_RMOD KVS_CMD_REXIST KVS_CMD_RSETEX KVS_CMD_REXPIRE KVS_CMD_RTTL "\<lambda>_. False"
proof unfold_locales
  show "(i < 0) = False" if "kvs_rbtree_inv x" "the (kvs_rbtree_set all_ok x (Some k) (Some v) t) = (i, x')" for x k v t i x'
    by (rule rb_set_spec [OF that(1), of k v t]) (use that(2) in simp)
qed (auto dest: rbtree_lasting [unfolded rbtree_call_def])

interpretation lhsh: lasting_engine hash_key_ok kvs_hash_inv kvs_hash_abs
  "\<lambda>h k v e. the (kvs_hash_set all_ok h (Some k) (Some v) e)"
  "\<lambda>now h k. the (kvs_hash_get now h (Some k))"
  "\<lambda>h k. the (kvs_hash_del h (Some k))"
  "\<lambda>now h k v. the (kvs_hash_mod all_ok now h (Some k) (Some v))"
  "\<lambda>now h k. (the (kvs_hash_exist now h (Some k)), h)"
  "\<lambda>h k e. the (kvs_hash_expire h (Some k) e)"
  "\<lambda>now h k. the (kvs_hash_ttl now h (Some k))"
  "\<lambda>e. e_mok e = all_ok" sv_hash "\<lambda>x s. s\<lparr>sv_hash := x\<rparr>"
  KVS_CMD_HSET KVS_CMD_HGET KVS_CMD_HDEL KVS_CMD_HMOD KVS_CMD_HEXIST KVS_CMD_HSETEX KVS_CMD_HEXPIRE KVS_CMD_HTTL "\<lambda>_. False"
proof unfold_locales
  show "(i < 0) = False" if "kvs_hash_inv x" "hash_key_ok k" "the (kvs_hash_set all_ok x (Some k) (Some v) t) = (i, x')" for x k v t i x'
    by (rule hash_set_spec [OF that(1,2), of v t]) (use that(3) in simp)
qed (auto dest: hsh.call_refines)

interpretation lskl: lasting_engine "\<lambda>_. True" kvs_skiplist_inv kvs_skiplist_abs
  "\<lambda>s k v e. the (kvs_skiplist_set all_ok rnd s (Some k) (Some v) e)"
  "\<lambda>now s k. the (kvs_skiplist_get now s (Some k))"
  "\<lambda>s k. the (kvs_skiplist_del s (Some k))"
  "\<lambda>now s k v. the (kvs_skiplist_mod all_ok s (Some k) (Some v))"
  "\<lambda>now s k. the (kvs_skiplist_exist now s (Some k))"
  "\<lambda>s k e. the (kvs_skiplist_expire s (Some k) e)"
  "\<lambda>now s k. the (kvs_skiplist_ttl now s (Some k))"
  "\<lambda>e. e_mok e = all_ok \<and> e_rnd e = rnd" sv_skiplist "\<lambda>x s. s\<lparr>sv_skiplist := x\<rparr>"
  KVS_CMD_SKSET KVS_CMD_SKGET KVS_CMD_SKDEL KVS_CMD_SKMOD KVS_CMD_SKEXIST KVS_CMD_SKSETEX KVS_CMD_SKEXPIRE
  KVS_CMD_SKTTL "\<lambda>_. False" for rnd
proof unfold_locales
  show "(i < 0) = False" if "kvs_skiplist_inv x" "the (kvs_skiplist_set all_ok rnd x (Some k) (Some v) t) = (i, x')" for x k v t i x'
    by (rule skl_set_spec [OF that(1), of rnd k v t]) (use that(2) in simp)
qed (auto dest: skl.call_refines)

primrec full_of :: "engine \<Rightarrow> store \<Rightarrow> bool" where
  "full_of Array = array_full"
| "full_of Rbtree = (\<lambda>_. False)"
| "full_of Hash = (\<lambda>_. False)"
| "full_of Skiplist = (\<lambda>_. False)"

definition lasting_server :: "'f server \<Rightarrow> bool" where
  "lasting_server s \<longleftrightarrow> server_wf s \<and> (\<forall>g. expiries (store_of g s) \<subseteq> {-1})"

text \<open>What the request makes of the stores, and whether it is a write that takes effect.\<close>

definition q_stores :: "request \<Rightarrow> (engine \<Rightarrow> store) \<Rightarrow> engine \<Rightarrow> store" where
  "q_stores q M = M(q_engine q := snd (ref_full (full_of (q_engine q)) (q_call 0 q) (M (q_engine q))))"

definition q_takes :: "request \<Rightarrow> (engine \<Rightarrow> store) \<Rightarrow> bool" where
  "q_takes q M \<longleftrightarrow> q_writes q \<and> fst (ref_full (full_of (q_engine q)) (q_call 0 q) (M (q_engine q))) = RInt 0"

definition stores :: "'f server \<Rightarrow> engine \<Rightarrow> store" where
  "stores s g = store_of g s"

text \<open>The part of the server that requests do not touch.\<close>

definition same_mode :: "'f server \<Rightarrow> 'f server \<Rightarrow> bool" where
  "same_mode s t \<longleftrightarrow> same_log s t \<and> sv_slave_mode t = sv_slave_mode s \<and> sv_replicating t = sv_replicating s"

lemma ref_full_now: "ref_full f (q_call now q) m = ref_full f (q_call 0 q) m"
  by (cases q) (simp_all add: ref_full_def)

lemma with_engine:
  assumes "server_wf s"
  shows "kvs_array_inv a \<Longrightarrow> server_wf (s\<lparr>sv_array := a\<rparr>) \<and>
      stores (s\<lparr>sv_array := a\<rparr>) = (stores s)(Array := kvs_array_abs a) \<and> same_mode s (s\<lparr>sv_array := a\<rparr>)"
    "kvs_rbtree_inv t \<Longrightarrow> server_wf (s\<lparr>sv_rbtree := t\<rparr>) \<and>
      stores (s\<lparr>sv_rbtree := t\<rparr>) = (stores s)(Rbtree := kvs_rbtree_abs t) \<and> same_mode s (s\<lparr>sv_rbtree := t\<rparr>)"
    "kvs_hash_inv h \<Longrightarrow> server_wf (s\<lparr>sv_hash := h\<rparr>) \<and>
      stores (s\<lparr>sv_hash := h\<rparr>) = (stores s)(Hash := kvs_hash_abs h) \<and> same_mode s (s\<lparr>sv_hash := h\<rparr>)"
    "kvs_skiplist_inv k \<Longrightarrow> server_wf (s\<lparr>sv_skiplist := k\<rparr>) \<and>
      stores (s\<lparr>sv_skiplist := k\<rparr>) = (stores s)(Skiplist := kvs_skiplist_abs k) \<and> same_mode s (s\<lparr>sv_skiplist := k\<rparr>)"
  using assms by (auto simp: server_wf_def same_mode_def stores_def fun_eq_iff all_conv_engine)

text \<open>The effect of a request on one engine, given what the five commands do.\<close>

lemma request_of_engine:
  assumes g: "q_engine q = g" and M: "stores s g = m"
    and upd: "\<And>x. I x \<Longrightarrow> server_wf (W x) \<and> stores (W x) = (stores s)(g := A x) \<and> same_mode s (W x)"
    and eff: "\<And>n v ok. let k = q_key q in (\<exists>x. I x \<and> A x = snd (ref_full (full_of g) (KSet k v (-1)) m) \<and>
        replies e (set_code g) raw True (fst (ref_full (full_of g) (KSet k v (-1)) m) = RInt 0) (W x)
          (run_case (set_code g) e fd [n, k, v] raw s)) \<and>
      (\<exists>x. I x \<and> A x = snd (ref_full (full_of g) (KGet (e_now e) k) m) \<and>
        replies e (get_code g) raw False ok (W x) (run_case (get_code g) e fd [n, k] raw s)) \<and>
      (\<exists>x. I x \<and> A x = snd (ref_full (full_of g) (KDel k) m) \<and>
        replies e (del_code g) raw True (fst (ref_full (full_of g) (KDel k) m) = RInt 0) (W x)
          (run_case (del_code g) e fd [n, k] raw s)) \<and>
      (\<exists>x. I x \<and> A x = snd (ref_full (full_of g) (KMod (e_now e) k v) m) \<and>
        replies e (mod_code g) raw True (fst (ref_full (full_of g) (KMod (e_now e) k v) m) = RInt 0) (W x)
          (run_case (mod_code g) e fd [n, k, v] raw s)) \<and>
      (\<exists>x. I x \<and> A x = snd (ref_full (full_of g) (KExist (e_now e) k) m) \<and>
        replies e (exist_code g) raw False ok (W x) (run_case (exist_code g) e fd [n, k] raw s))"
  shows "\<exists>t. server_wf t \<and> stores t = q_stores q (stores s) \<and> same_mode s t \<and>
    replies e (code_of q) raw (q_writes q) (q_takes q (stores s)) t (run_case (code_of q) e fd (argv_of q) raw s)"
proof -
  have "\<exists>x. I x \<and> A x = snd (ref_full (full_of g) (q_call (e_now e) q) m) \<and>
    replies e (code_of q) raw (q_writes q) (q_takes q (stores s)) (W x) (run_case (code_of q) e fd (argv_of q) raw s)"
    using eff [unfolded Let_def] g M unfolding q_takes_def ref_full_now [of _ "e_now e" q, symmetric] by (cases q) auto
  then show ?thesis using upd g M unfolding q_stores_def ref_full_now [of _ "e_now e" q] by metis
qed

lemma request_effect:
  assumes "lasting_server s" "e_mok e = all_ok" "e_rok e" "plain_request q"
  shows "\<exists>t. server_wf t \<and> stores t = q_stores q (stores s) \<and> same_mode s t \<and>
    replies e (code_of q) raw (q_writes q) (q_takes q (stores s)) t (run_case (code_of q) e fd (argv_of q) raw s)"
proof -
  have wf: "server_wf s" and l: "expiries (store_of g s) \<subseteq> {-1}" for g using assms(1) by (simp_all add: lasting_server_def)
  note codes = stores_def store_of.simps full_of.simps set_code.simps get_code.simps del_code.simps mod_code.simps exist_code.simps
  have k: "hash_key_ok (q_key q)" using assms(4) by (simp add: plain_request_def)
  show ?thesis
  proof (cases "q_engine q")
    case Array
    show ?thesis
      by (rule request_of_engine [where W = "\<lambda>x. s\<lparr>sv_array := x\<rparr>" and A = kvs_array_abs and I = kvs_array_inv, OF Array refl])
        (rule with_engine(1) [OF wf], assumption, unfold codes Let_def, intro conjI larr.command_effects [OF wf assms(2,3) TrueI l [of Array, unfolded codes]], simp?)
  next
    case Rbtree
    show ?thesis
      by (rule request_of_engine [where W = "\<lambda>x. s\<lparr>sv_rbtree := x\<rparr>" and A = kvs_rbtree_abs and I = kvs_rbtree_inv, OF Rbtree refl])
        (rule with_engine(2) [OF wf], assumption, unfold codes Let_def, intro conjI lrbt.command_effects [OF wf assms(2,3) TrueI l [of Rbtree, unfolded codes]], simp?)
  next
    case Hash
    show ?thesis
      by (rule request_of_engine [where W = "\<lambda>x. s\<lparr>sv_hash := x\<rparr>" and A = kvs_hash_abs and I = kvs_hash_inv, OF Hash refl])
        (rule with_engine(3) [OF wf], assumption, unfold codes Let_def, intro conjI lhsh.command_effects [OF wf assms(2,3) k l [of Hash, unfolded codes]], simp?)
  next
    case Skiplist
    show ?thesis
      by (rule request_of_engine [where W = "\<lambda>x. s\<lparr>sv_skiplist := x\<rparr>" and A = kvs_skiplist_abs and I = kvs_skiplist_inv, OF Skiplist refl])
        (rule with_engine(4) [OF wf], assumption, unfold codes Let_def, intro conjI lskl.command_effects [OF wf conjI [OF assms(2) refl] assms(3) TrueI l [of Skiplist, unfolded codes]], simp?)
  qed
qed

subsection \<open>Requests one after the other\<close>

abbreviation wire :: "request \<Rightarrow> string" where
  "wire q \<equiv> resp_encode (argv_of q)"

lemma q_lasting:
  assumes "\<forall>g. expiries (M g) \<subseteq> {-1}"
  shows "expiries (q_stores q M g) \<subseteq> {-1}"
proof -
  let ?f = "full_of (q_engine q)" and ?m = "M (q_engine q)"
  have "ref_full ?f (q_call 0 q) ?m = (RInt (-1), ?m) \<or> ref_full ?f (q_call 0 q) ?m = ref_call (q_call 0 q) ?m"
    by (cases q) (simp_all add: ref_full_def)
  moreover have "expiries (snd (ref_call (q_call 0 q) ?m)) \<subseteq> {-1}"
    by (rule ref_lasting [OF _ _ surjective_pairing]) (use assms in \<open>auto, cases q, auto\<close>)
  ultimately have "expiries (snd (ref_full ?f (q_call 0 q) ?m)) \<subseteq> {-1}" using assms by (metis snd_conv)
  then show ?thesis using assms by (simp add: q_stores_def)
qed

lemma q_idle: "\<not> q_takes q M \<Longrightarrow> q_stores q M = M"
  by (cases q) (auto simp: q_takes_def q_stores_def ref_full_def fun_upd_idem split: option.splits if_splits)

text \<open>The writes of a sequence of requests that take effect; the others change nothing.\<close>

primrec taken :: "request list \<Rightarrow> (engine \<Rightarrow> store) \<Rightarrow> request list" where
  "taken [] M = []"
| "taken (q # qs) M = (if q_takes q M then [q] else []) @ taken qs (q_stores q M)"

lemma taken_append: "taken (ps @ qs) M = taken ps M @ taken qs (fold q_stores ps M)"
  by (induction ps arbitrary: M) auto

lemma fold_taken: "fold q_stores (taken qs M) M = fold q_stores qs M"
  by (induction qs arbitrary: M) (auto simp: q_idle)

lemma taken_subset: "set (taken qs M) \<subseteq> set qs"
  by (induction qs arbitrary: M) auto

definition same_flags :: "'f server \<Rightarrow> 'f server \<Rightarrow> bool" where
  "same_flags s t \<longleftrightarrow> sv_loading t = sv_loading s \<and> sv_appendonly t = sv_appendonly s \<and>
     sv_slave_mode t = sv_slave_mode s \<and> sv_replicating t = sv_replicating s"

lemma ring_irrelevant [simp]:
  "stores (t\<lparr>sv_ring := r\<rparr>) = stores t" "lasting_server (t\<lparr>sv_ring := r\<rparr>) = lasting_server t"
proof -
  have "store_of g (t\<lparr>sv_ring := r\<rparr>) = store_of g t" for g by (cases g) simp_all
  then show "stores (t\<lparr>sv_ring := r\<rparr>) = stores t" "lasting_server (t\<lparr>sv_ring := r\<rparr>) = lasting_server t"
    by (auto simp: stores_def lasting_server_def)
qed

lemma plain_wire:
  assumes "plain_request q"
  shows "int_wrap (int (length (wire q))) = int (length (wire q))" "0 < length (wire q)"
  using assms by (auto simp: plain_request_def in_int_def resp_encode_def)

lemma request_persists: "q_writes q \<Longrightarrow> persist_on_success (command_meta (code_of q))"
  by (cases q; cases "q_engine q") (simp_all add: meta_def)

text \<open>A request that is answered.\<close>

lemma request_run:
  assumes s: "lasting_server s" and e: "e_mok e = all_ok" "e_rok e" and q: "plain_request q"
    and m: "\<not> (sv_slave_mode s \<and> \<not> sv_replicating s)"
  shows "sv_loading s \<Longrightarrow> \<exists>n out s'. kvs_protocol all_ok e fd (wire q) s = Inr (n, out, s')"
    and "kvs_protocol all_ok e fd (wire q) s = Inr (n, out, s') \<Longrightarrow> lasting_server s' \<and>
      stores s' = q_stores q (stores s) \<and> same_flags s s' \<and>
      (if q_takes q (stores s) then \<exists>rc. kvs_persistence_append (sv_loading s) (sv_appendonly s) (e_aok e) (sv_ring s)
           (Some (wire q)) (int (length (wire q))) = Some (rc, sv_ring s')
       else sv_ring s' = sv_ring s)"
    and "kvs_protocol all_ok e fd (wire q) s \<in> insert (Inl Waiting) (range Inr)"
    and "kvs_protocol all_ok e fd (wire q) s = Inr (n, out, s') \<Longrightarrow> q_takes q (stores s) \<Longrightarrow>
      \<exists>msg. out = Some msg \<and> n = int (length msg) \<and> no_error msg"
proof -
  obtain t where t: "server_wf t" "stores t = q_stores q (stores s)" "same_mode s t"
    and r: "replies e (code_of q) (wire q) (q_writes q) (q_takes q (stores s)) t (kvs_protocol all_ok e fd (wire q) s)"
    using request_effect [OF s e q, of "wire q" fd] request_protocol [OF q m, of e fd] by metis
  have l: "lasting_server t"
    using t(1,2) q_lasting [of "stores s" q] s unfolding lasting_server_def stores_def by (metis (no_types, lifting))
  have p: "persist_command_if_changed e (code_of q) ret (wire q) t =
      (if \<not> command_result_changed_data (code_of q) ret then Some t
       else map_option (\<lambda>(_, ring). t\<lparr>sv_ring := ring\<rparr>) (kvs_persistence_append (sv_loading s) (sv_appendonly s) (e_aok e)
         (sv_ring s) (Some (wire q)) (int (length (wire q)))))" if "q_writes q" for ret
    using t(3) plain_wire [OF q] request_persists [OF that]
    by (auto simp: persist_command_if_changed_def same_mode_def same_log_def)
  show "\<exists>n out s'. kvs_protocol all_ok e fd (wire q) s = Inr (n, out, s')" if "sv_loading s"
    using r p that by (auto simp: replies_def kvs_persistence_append_def split: if_splits)
  show "kvs_protocol all_ok e fd (wire q) s \<in> insert (Inl Waiting) (range Inr)"
    using r by (auto simp: replies_def split: if_splits option.splits)
  assume res: "kvs_protocol all_ok e fd (wire q) s = Inr (n, out, s')"
  show "\<exists>msg. out = Some msg \<and> n = int (length msg) \<and> no_error msg" if "q_takes q (stores s)"
    using r res that by (auto simp: replies_def q_takes_def split: if_splits option.splits)
  show "lasting_server s' \<and> stores s' = q_stores q (stores s) \<and> same_flags s s' \<and>
      (if q_takes q (stores s) then \<exists>rc. kvs_persistence_append (sv_loading s) (sv_appendonly s) (e_aok e) (sv_ring s)
           (Some (wire q)) (int (length (wire q))) = Some (rc, sv_ring s')
       else sv_ring s' = sv_ring s)"
  proof (cases "q_takes q (stores s)")
    case True
    then have w: "q_writes q" by (simp add: q_takes_def)
    then obtain rc ring where "kvs_persistence_append (sv_loading s) (sv_appendonly s) (e_aok e) (sv_ring s)
        (Some (wire q)) (int (length (wire q))) = Some (rc, ring)" "s' = t\<lparr>sv_ring := ring\<rparr>"
      using r res True p [OF w] by (auto simp: replies_def split: option.splits)
    then show ?thesis using True t l by (auto simp: same_flags_def same_mode_def same_log_def)
  next
    case False
    then have "s' = t" using r res p by (auto simp: replies_def split: if_splits)
    then show ?thesis using False t l by (auto simp: same_flags_def same_mode_def same_log_def)
  qed
qed

text \<open>Loading a file of such requests executes them.\<close>

lemma load_loop_step:
  assumes "plain_request q"
  shows "aof_load_loop amok es i (wire q @ rest) s =
    (case kvs_protocol (amok i) (es i) (-1) (wire q) s of
       Inl _ \<Rightarrow> None | Inr (_, _, s') \<Rightarrow> aof_load_loop amok es (i + 1) rest s')"
proof -
  have "length (wire q) < 2 ^ 31" using assms by (simp add: plain_request_def)
  then have "resp_parse_one_command (wire q @ rest) = RespOne (length (wire q))"
    using encode_length(1) [of _ "argv_of q"] encode_length(2) [of "argv_of q"]
    by (intro resp_parse_encode) (auto intro: less_trans)
  moreover have "wire q \<noteq> []" by (simp add: resp_encode_def)
  ultimately show ?thesis by (subst aof_load_loop.simps) (simp split: sum.split)
qed

lemma load_replays:
  assumes "\<forall>i. e_mok (es i) = all_ok \<and> e_rok (es i)" "list_all plain_request qs"
  shows "lasting_server s \<Longrightarrow> sv_loading s \<Longrightarrow> \<not> (sv_slave_mode s \<and> \<not> sv_replicating s) \<Longrightarrow>
    \<exists>s'. aof_load_loop (\<lambda>_. all_ok) es i (concat (map wire qs)) s = Some s' \<and> lasting_server s' \<and>
      stores s' = fold q_stores qs (stores s) \<and> same_flags s s'"
  using assms(2)
proof (induction qs arbitrary: i s)
  case Nil
  then show ?case by (subst aof_load_loop.simps) (simp add: same_flags_def)
next
  case (Cons q qs)
  have e: "e_mok (es i) = all_ok" "e_rok (es i)" and q: "plain_request q" using assms(1) Cons.prems by simp_all
  note run = request_run [OF Cons.prems(1) e q Cons.prems(3), where fd = "-1"]
  obtain n out s1 where r: "kvs_protocol all_ok (es i) (-1) (wire q) s = Inr (n, out, s1)"
    using run(1) [OF Cons.prems(2)] by blast
  note s1 = run(2) [OF r]
  then have f: "same_flags s s1" by blast
  have "\<exists>s'. aof_load_loop (\<lambda>_. all_ok) es (i + 1) (concat (map wire qs)) s1 = Some s' \<and> lasting_server s' \<and>
      stores s' = fold q_stores qs (stores s1) \<and> same_flags s1 s'"
    by (rule Cons.IH) (use s1 f Cons.prems in \<open>auto simp: same_flags_def\<close>)
  then show ?case using s1 f r load_loop_step [OF q, of "\<lambda>_. all_ok" es i "concat (map wire qs)" s]
    by (auto simp: same_flags_def)
qed

subsection \<open>Server, worker and kernel together\<close>

text \<open>
  Requests are executed by the server thread on the ring it shares with the worker; between two
  requests the worker and the kernel take any number of steps.
\<close>

inductive sys_run :: "'f server \<Rightarrow> aof_state \<Rightarrow> request list \<Rightarrow> 'f server \<Rightarrow> aof_state \<Rightarrow> bool"
  for s0 st0 where
  start: "sys_run s0 st0 [] s0 st0"
| serve: "sys_run s0 st0 qs s st \<Longrightarrow> plain_request q \<Longrightarrow> e_mok e = all_ok \<Longrightarrow> e_rok e \<Longrightarrow> e_aok e \<Longrightarrow>
    kvs_protocol all_ok e fd (wire q) s = Inr (n, out, s') \<Longrightarrow>
    sys_run s0 st0 (qs @ [q]) s' (st\<lparr>a_ring := sv_ring s'\<rparr>)"
| work: "sys_run s0 st0 qs s st \<Longrightarrow> aof_step st None st' \<Longrightarrow>
    sys_run s0 st0 qs (s\<lparr>sv_ring := a_ring st'\<rparr>) st'"

text \<open>A master with an append-only file and a ring that has just been set up.\<close>

definition logging_master :: "'f server \<Rightarrow> bool" where
  "logging_master s \<longleftrightarrow> sv_appendonly s \<and> \<not> sv_loading s \<and> \<not> sv_slave_mode s"

lemma step_no_error:
  assumes "aof_step st None st'" "ring_ok (a_ring st) (a_local st)" "\<not> io_error (a_ring st)"
  shows "\<not> io_error (a_ring st')"
  using assms
proof (cases rule: aof_step.cases)
  case submit
  obtain i where i: "aof_find_free_req (a_reqs st) = Some i"
    using submit by (auto simp: submit_batch_def split: option.splits)
  obtain r b c l ring where f: "aof_fill_batch True (a_ring st) (q_cap (a_reqs st ! i)) (a_local st) = (r, b, c, l, ring)"
    by (metis prod_cases5)
  then have "\<not> io_error ring"
    using fill_loop_spec [OF assms(2) refl f [unfolded aof_fill_batch_def]] assms(3) by (simp add: same_counters_def)
  moreover have "a_ring st' = ring" using submit i f by (auto simp: submit_batch_def Let_def split: if_splits)
  ultimately show ?thesis by simp
qed (use assms in auto)

lemma aof_initial_ring: "\<not> io_error (a_ring (aof_initial off dat))"
  by (simp add: aof_initial_def aof_ring_init_def zero_ring_def)

lemma append_logs:
  assumes "kvs_persistence_append False True True ring (Some c) (int (length c)) = Some (rc, ring')"
    "\<not> io_error ring" "c \<noteq> []"
  shows "rc = 0" "\<not> io_error ring'"
  using assms by (auto simp: kvs_persistence_append_def Let_def split: if_splits)

lemma sys_invariant:
  assumes "sys_run s0 st0 qs s st" "lasting_server s0" "logging_master s0" "st0 = aof_initial off dat" "sv_ring s0 = a_ring st0"
  shows "sv_ring s = a_ring st \<and> lasting_server s \<and> logging_master s \<and> \<not> io_error (a_ring st) \<and> list_all plain_request qs \<and>
    stores s = fold q_stores qs (stores s0) \<and> aof_run st0 (map wire (taken qs (stores s0))) st"
  using assms
proof (induction rule: sys_run.induct)
  case start
  then show ?case by (simp add: aof_initial_ring run_refl)
next
  case (serve qs s st q e fd n out s')
  then have IH: "sv_ring s = a_ring st" "lasting_server s" "logging_master s" "\<not> io_error (a_ring st)" "list_all plain_request qs"
    "stores s = fold q_stores qs (stores s0)" "aof_run st0 (map wire (taken qs (stores s0))) st" by auto
  have m: "\<not> (sv_slave_mode s \<and> \<not> sv_replicating s)" using IH(3) by (simp add: logging_master_def)
  note r = request_run(2) [OF IH(2) serve.hyps(3,4,2) m serve.hyps(6)]
  have flags: "logging_master s'" using r IH(3) by (auto simp: same_flags_def logging_master_def)
  have "wire q \<noteq> []" by (simp add: resp_encode_def)
  have "\<not> io_error (sv_ring s') \<and> aof_run st0 (map wire (taken (qs @ [q]) (stores s0))) (st\<lparr>a_ring := sv_ring s'\<rparr>)"
  proof (cases "q_takes q (stores s)")
    case True
    then obtain rc where "kvs_persistence_append False True True (a_ring st) (Some (wire q)) (int (length (wire q))) =
        Some (rc, sv_ring s')" using r IH(1,3) serve.hyps(5) by (auto simp: logging_master_def)
    note a = this append_logs [OF this IH(4) \<open>wire q \<noteq> []\<close>]
    then have "aof_step st (Some (wire q)) (st\<lparr>a_ring := sv_ring s'\<rparr>)" using aof_step.append by simp
    then show ?thesis using run_append [OF IH(7)] True IH(6) a(3) by (simp add: taken_append)
  next
    case False
    then have "st\<lparr>a_ring := sv_ring s'\<rparr> = st" "sv_ring s' = a_ring st" using r IH(1) by auto
    then show ?thesis using False IH(4,6,7) by (simp add: taken_append)
  qed
  then show ?case using r flags IH(5,6) serve.hyps(2) by auto
next
  case (work qs s st st')
  then have IH: "lasting_server s" "logging_master s" "\<not> io_error (a_ring st)" "list_all plain_request qs"
    "stores s = fold q_stores qs (stores s0)" "aof_run st0 (map wire (taken qs (stores s0))) st" by auto
  have "ring_ok (a_ring st) (a_local st)" using aof_inv_run [OF IH(6) work.prems(3)] by (simp add: aof_inv_def)
  then have "\<not> io_error (a_ring st')" using step_no_error [OF work.hyps(2)] IH(3) by blast
  then show ?case using IH run_tau [OF IH(6) work.hyps(2)] by (simp add: logging_master_def)
qed

subsection \<open>Recovery\<close>

text \<open>The bytes of a file on disk.\<close>

definition disk :: "string \<Rightarrow> nat \<Rightarrow> char option" where
  "disk dat p = (if p < length dat then Some (dat ! p) else None)"

text \<open>The file holds requests that, executed from empty engines, give the contents of the engines.\<close>

definition log_matches :: "string \<Rightarrow> 'f server \<Rightarrow> bool" where
  "log_matches dat s \<longleftrightarrow> (\<exists>qs. list_all plain_request qs \<and> dat = concat (map wire qs) \<and>
     stores s = fold q_stores qs (\<lambda>_. Map.empty))"

lemma empty_lasting_server:
  assumes "server_wf s" "\<forall>g. store_of g s = Map.empty"
  shows "lasting_server s" "stores s = (\<lambda>_. Map.empty)" "log_matches [] s"
proof -
  show st: "stores s = (\<lambda>_. Map.empty)" using assms(2) by (auto simp: stores_def)
  show "lasting_server s" using assms by (simp add: lasting_server_def)
  show "log_matches [] s" unfolding log_matches_def by (rule exI [of _ "[]"]) (simp add: st)
qed

lemma loading_irrelevant [simp]:
  "stores (t\<lparr>sv_loading := b\<rparr>) = stores t" "lasting_server (t\<lparr>sv_loading := b\<rparr>) = lasting_server t"
proof -
  have "store_of g (t\<lparr>sv_loading := b\<rparr>) = store_of g t" for g by (cases g) simp_all
  then show "stores (t\<lparr>sv_loading := b\<rparr>) = stores t" "lasting_server (t\<lparr>sv_loading := b\<rparr>) = lasting_server t"
    by (auto simp: stores_def lasting_server_def server_wf_def)
qed

lemma load_recovers:
  assumes "log_matches dat s" "server_wf r0" "\<forall>g. store_of g r0 = Map.empty" "\<not> sv_slave_mode r0"
    and es: "\<forall>i. e_mok (es i) = all_ok \<and> e_rok (es i)"
  shows "\<exists>r. kvs_persistence_load (Some dat) True True True (\<lambda>_. all_ok) es r0 = Some (0, r) \<and> server_wf r \<and> stores r = stores s"
proof -
  obtain qs where qs: "list_all plain_request qs" "dat = concat (map wire qs)" "stores s = fold q_stores qs (\<lambda>_. Map.empty)"
    using assms(1) by (auto simp: log_matches_def)
  note r0 = empty_lasting_server [OF assms(2,3)]
  obtain r where r: "aof_load_loop (\<lambda>_. all_ok) es 0 dat (r0\<lparr>sv_loading := True\<rparr>) = Some r" "lasting_server r" "stores r = stores s"
    using load_replays [OF es qs(1), of "r0\<lparr>sv_loading := True\<rparr>" 0] r0 assms(4) qs by auto
  show ?thesis
  proof (cases "dat = []")
    case True
    then have "qs = []" using qs(2) by (auto simp: resp_encode_def)
    then show ?thesis using True assms(2) r0(2) qs(3) by (simp add: kvs_persistence_load_def aof_load_file_def)
  next
    case False
    have "server_wf (r\<lparr>sv_loading := False\<rparr>)" using r(2) by (simp add: lasting_server_def server_wf_def)
    then show ?thesis using False r by (simp add: kvs_persistence_load_def aof_load_file_def)
  qed
qed

lemma sys_log:
  assumes "sys_run s0 (aof_initial (length old) (disk old)) qs s st" "lasting_server s0" "logging_master s0"
    "sv_ring s0 = a_ring (aof_initial (length old) (disk old))" "log_matches old s0" "quiescent st"
  shows "\<exists>dat. a_file st = disk dat \<and> log_matches dat s"
proof -
  note inv = sys_invariant [OF assms(1-3) refl assms(4)]
  let ?new = "concat (map wire (taken qs (stores s0)))"
  have "aof_inv (length old) (disk old) (map wire (taken qs (stores s0))) st" using aof_inv_run [OF _ refl] inv by blast
  then have "a_file st = disk (old @ ?new)"
    using quiescent_file [OF _ assms(6)] by (auto simp: disk_def nth_append)
  moreover obtain ps where ps: "list_all plain_request ps" "old = concat (map wire ps)" "stores s0 = fold q_stores ps (\<lambda>_. Map.empty)"
    using assms(5) by (auto simp: log_matches_def)
  have "log_matches (old @ ?new) s"
    unfolding log_matches_def
    by (rule exI [of _ "ps @ taken qs (stores s0)"])
      (use inv ps taken_subset [of qs "stores s0"] fold_taken [of qs "stores s0"] in \<open>auto simp: list_all_iff\<close>)
  ultimately show ?thesis by blast
qed

text \<open>C1: Recovery from the append-only file. A master starts with a log that matches its engines, on
  a first start the empty log, and executes any sequence of SET, GET, DEL, MOD and EXIST requests
  on the four engines, while the worker and the kernel write the log in any interleaving. Once the
  log has drained, a server that is started on the file ends its load with exactly the contents of
  the four engines, and the file again matches them; nothing that was acknowledged is lost and
  nothing else is restored. Memory is assumed to be available.\<close>

theorem aof_recovers:
  assumes "sys_run s0 (aof_initial (length old) (disk old)) qs s st" "quiescent st"
    and "lasting_server s0" "logging_master s0" "sv_ring s0 = a_ring (aof_initial (length old) (disk old))" "log_matches old s0"
    and "server_wf r0" "\<forall>g. store_of g r0 = Map.empty" "\<not> sv_slave_mode r0" "\<forall>i. e_mok (es i) = all_ok \<and> e_rok (es i)"
  shows "\<exists>dat r. a_file st = disk dat \<and>
    kvs_persistence_load (Some dat) True True True (\<lambda>_. all_ok) es r0 = Some (0, r) \<and>
    server_wf r \<and> (\<forall>g. store_of g r = store_of g s) \<and> log_matches dat r"
proof -
  obtain dat where d: "a_file st = disk dat" "log_matches dat s" using sys_log [OF assms(1,3-6,2)] by blast
  from load_recovers [OF d(2) assms(7-10)] obtain r where
    r: "kvs_persistence_load (Some dat) True True True (\<lambda>_. all_ok) es r0 = Some (0, r)" "server_wf r" "stores r = stores s" by blast
  then have "\<forall>g. store_of g r = store_of g s" by (metis stores_def)
  moreover have "log_matches dat r" using d(2) r(3) by (simp add: log_matches_def)
  ultimately show ?thesis using d(1) r by blast
qed

lemma sys_drains: "aof_run st cs st' \<Longrightarrow> cs = [] \<Longrightarrow> sys_run s0 st0 qs s st \<Longrightarrow> \<exists>s'. sys_run s0 st0 qs s' st'"
proof (induction rule: aof_run.induct)
  case (run_tau st cmds st1 st2)
  then show ?case using sys_run.work by blast
qed auto

lemma booted_session:
  "\<exists>s st. sys_run booted (aof_initial (length ([] :: string)) (disk [])) [QSet Array ''k'' ''v''] s st \<and> quiescent st"
proof -
  let ?q = "QSet Array ''k'' ''v''" and ?st = "aof_initial (length ([] :: string)) (disk [])"
  have len: "length (wire ?q) = 27" by code_simp
  have k: "hash_key_ok ''k''" by code_simp
  have q: "plain_request ?q" using len k by (simp add: plain_request_def)
  have "kvs_protocol all_ok (calm_env int_fops 0) 5 (wire ?q) booted =
      kvs_execute_command (calm_env int_fops 0) 5 [''SET'', ''k'', ''v''] (wire ?q) booted"
    using protocol_encode [of "[''SET'', ''k'', ''v'']"] by simp
  moreover have "fits_int (wire ?q)" using len by (auto simp: fits_int_def)
  ultimately obtain n s1 where "kvs_protocol all_ok (calm_env int_fops 0) 5 (wire ?q) booted = Inr (n, Some ok_reply, s1)"
    using booted_set by metis
  then have r: "sys_run booted ?st ([] @ [?q]) s1 (?st\<lparr>a_ring := sv_ring s1\<rparr>)"
    by (intro sys_run.serve [OF sys_run.start q]) (auto simp: calm_env_def)
  have "aof_run ?st (map wire (taken ([] @ [?q]) (stores booted))) (?st\<lparr>a_ring := sv_ring s1\<rparr>)"
    using sys_invariant [OF r _ _ refl] empty_lasting_server(1) [OF booted_wf] booted_empty(1) booted_simps
    by (auto simp: logging_master_def aof_initial_def)
  from aof_inv_run [OF this refl] drain obtain st' where "aof_run (?st\<lparr>a_ring := sv_ring s1\<rparr>) [] st'" "quiescent st'" by blast
  then show ?thesis using sys_drains [OF _ refl r] by (metis append_Nil)
qed

theorem aof_recovers_witness:
  "\<exists>s st dat r. sys_run booted (aof_initial (length ([] :: string)) (disk [])) [QSet Array ''k'' ''v''] s st \<and>
     a_file st = disk dat \<and>
     kvs_persistence_load (Some dat) True True True (\<lambda>_. all_ok) (\<lambda>_. calm_env int_fops 9) booted = Some (0, r) \<and>
     (\<forall>g. store_of g r = store_of g s)"
proof -
  obtain s st where r: "sys_run booted (aof_initial (length ([] :: string)) (disk [])) [QSet Array ''k'' ''v''] s st" "quiescent st"
    using booted_session by blast
  note b = empty_lasting_server [OF booted_wf] booted_empty(1) booted_simps
  have m: "logging_master booted" "sv_ring booted = a_ring (aof_initial (length ([] :: string)) (disk []))"
    using b by (simp_all add: logging_master_def aof_initial_def)
  from aof_recovers [OF r _ m _ booted_wf, of "\<lambda>_. calm_env int_fops 9"] b r(1) show ?thesis by (auto simp: calm_env_def)
qed

end
