(* ===== verification/KVS_Reactor.thy ===== *)
theory KVS_Reactor
  imports KVS_Recover
begin

text \<open>
  The event loop of \<open>reactor.c\<close>: the connection table, the receive and send callbacks with their
  growing buffers, and the dispatch of \<open>epoll\<close> events. The first \<open>rlength\<close> bytes of a receive
  buffer and the first \<open>wlength\<close> bytes of a send buffer are lists, the capacities
  (\<open>rbuf_size\<close>, \<open>wbuf_size\<close>) are numbers. What the kernel answers to a system call is an argument.
  Exceeding the range of the \<open>int\<close> lengths is undefined and the fault \<open>Overflow\<close>.
\<close>

subsection \<open>Connections\<close>

datatype callback = NoCallback | AcceptCb | RecvCb | SendCb

record conn =
  c_fd :: int
  c_rbuffer :: cptr
  c_rbuf_size :: nat
  c_rparse_offset :: nat
  c_wbuffer :: cptr
  c_wbuf_size :: nat
  c_woffset :: nat
  c_send_callback :: callback
  c_recv_callback :: callback

definition zero_conn :: conn where
  "zero_conn = \<lparr>c_fd = 0, c_rbuffer = None, c_rbuf_size = 0, c_rparse_offset = 0, c_wbuffer = None,
     c_wbuf_size = 0, c_woffset = 0, c_send_callback = NoCallback, c_recv_callback = NoCallback\<rparr>"

abbreviation rlength :: "conn \<Rightarrow> nat" where "rlength c \<equiv> length (bytes (c_rbuffer c))"
abbreviation wlength :: "conn \<Rightarrow> nat" where "wlength c \<equiv> length (bytes (c_wbuffer c))"

text \<open>The events a descriptor is registered for: readable, and writable.\<close>

record 'f reactor =
  rx_conn :: "int \<Rightarrow> conn"
  rx_epoll :: "int \<Rightarrow> (bool \<times> bool) option"
  rx_server :: "'f server"
  rx_io :: "io list"

definition CONNECTION_SIZE :: int where "CONNECTION_SIZE = 1024"

definition conn_fd_valid :: "int \<Rightarrow> bool" where
  "conn_fd_valid fd \<longleftrightarrow> 0 \<le> fd \<and> fd < CONNECTION_SIZE"

definition put_conn :: "int \<Rightarrow> conn \<Rightarrow> 'f reactor \<Rightarrow> 'f reactor" where
  "put_conn fd c R = R\<lparr>rx_conn := (rx_conn R)(fd := c)\<rparr>"

definition close_conn :: "int \<Rightarrow> 'f reactor \<Rightarrow> 'f reactor" where
  "close_conn fd R =
     (if \<not> conn_fd_valid fd then (if fd \<ge> 0 then R\<lparr>rx_io := rx_io R @ [Close fd]\<rparr> else R)
      else R\<lparr>rx_epoll := (rx_epoll R)(fd := None), rx_conn := (rx_conn R)(fd := zero_conn),
             rx_io := rx_io R @ [Close fd]\<rparr>)"

text \<open>\<open>set_event\<close>; adding and modifying differ only in which of them the kernel refuses (\<open>ok\<close>).\<close>

definition set_event :: "bool \<Rightarrow> int \<Rightarrow> bool \<times> bool \<Rightarrow> 'f reactor \<Rightarrow> int \<times> 'f reactor" where
  "set_event ok fd ev R =
     (if \<not> conn_fd_valid fd then (-1, R)
      else if ok then (0, R\<lparr>rx_epoll := (rx_epoll R)(fd := Some ev)\<rparr>) else (-1, R))"

definition BUF_SIZE :: nat where "BUF_SIZE = 4 * 1024 * 1024"

definition event_register :: "mallocs \<Rightarrow> bool \<Rightarrow> int \<Rightarrow> bool \<times> bool \<Rightarrow> 'f reactor \<Rightarrow> int \<times> 'f reactor" where
  "event_register mok ok fd ev R =
     (if \<not> conn_fd_valid fd
      then (-1, if fd \<ge> 0 then R\<lparr>rx_io := rx_io R @ [Close fd]\<rparr> else R)
      else let c = (rx_conn R fd)\<lparr>c_fd := fd, c_recv_callback := RecvCb, c_send_callback := SendCb,
                     c_rbuffer := (if mok 0 then Some [] else None), c_rbuf_size := BUF_SIZE,
                     c_rparse_offset := 0,
                     c_wbuffer := (if mok 1 then Some [] else None), c_wbuf_size := BUF_SIZE,
                     c_woffset := 0\<rparr>;
               (r, R1) = set_event ok fd ev (put_conn fd c R)
           in if r \<noteq> 0 then (-1, close_conn fd R1) else (0, R1))"

text \<open>\<open>accept\<close> gives a descriptor or fails.\<close>

definition accept_cb :: "int option \<Rightarrow> mallocs \<Rightarrow> bool \<Rightarrow> 'f reactor \<Rightarrow> int \<times> 'f reactor" where
  "accept_cb client mok ok R =
     (case client of None \<Rightarrow> (-1, R)
      | Some clientfd \<Rightarrow>
          let (r, R1) = event_register mok ok clientfd (True, False) R
          in if r \<noteq> 0 then (-1, R1) else (0, R1))"

subsection \<open>Sending\<close>

text \<open>What \<open>send\<close> does: takes some of the bytes, would block, or fails.\<close>

datatype sent = Taken nat | WouldBlock | SendFails

definition send_cb :: "sent \<Rightarrow> bool \<Rightarrow> int \<Rightarrow> 'f reactor \<Rightarrow> int \<times> 'f reactor" where
  "send_cb snd_r ok fd R =
     (if \<not> conn_fd_valid fd then (-1, R)
      else let c = rx_conn R fd in
        if wlength c = 0 then (0, R)
        else (case snd_r of
            WouldBlock \<Rightarrow> (0, snd (set_event ok fd (True, True) R))
          | SendFails \<Rightarrow> (-1, close_conn fd R)
          | Taken n \<Rightarrow>
              let R0 = R\<lparr>rx_io := rx_io R @ [Send fd (take n (drop (c_woffset c) (bytes (c_wbuffer c))))]\<rparr>;
                  off = c_woffset c + n
              in if off \<ge> wlength c
                 then (int n, snd (set_event ok fd (True, False)
                        (put_conn fd (c\<lparr>c_wbuffer := map_option (\<lambda>_. []) (c_wbuffer c), c_woffset := 0\<rparr>) R0)))
                 else (int n, snd (set_event ok fd (True, True) (put_conn fd (c\<lparr>c_woffset := off\<rparr>) R0)))))"

subsection \<open>Receiving\<close>

definition INT_MAX :: nat where "INT_MAX = 2 ^ 31 - 1"

text \<open>
  Appending \<open>resp_len\<close> bytes of a reply to the send buffer, which grows when they do not fit;
  \<open>None\<close> inside the result is the failed allocation of the larger buffer.
\<close>

definition append_reply :: "bool \<Rightarrow> nat \<Rightarrow> string \<Rightarrow> conn \<Rightarrow> fault + conn option" where
  "append_reply mok n msg c =
     (let w = bytes (c_wbuffer c) in
      if length w + n > INT_MAX then Inl Overflow
      else if n > length msg + 1 then Inl Memory
      else let new = w @ take n (msg @ [CHR 0x00]) in
      if length w + n > c_wbuf_size c
      then (if \<not> mok then Inr None
            else Inr (Some (c\<lparr>c_wbuffer := Some new,
                   c_wbuf_size := max (c_wbuf_size c * 2) (length w + n)\<rparr>)))
      else if c_wbuffer c = None then Inl Memory
      else Inr (Some (c\<lparr>c_wbuffer := Some new\<rparr>)))"

text \<open>How the loop over the received commands ends.\<close>

datatype 'f parsed = Parsed conn "'f server" | Malformed conn "'f server" | Closing "'f server"

text \<open>
  The loop; \<open>es i\<close>, \<open>amok i\<close> and \<open>wok i\<close> are what the run-time system supplies to the \<open>i\<close>-th
  command and to the growth of the send buffer for its reply.
\<close>

function recv_loop ::
    "(nat \<Rightarrow> mallocs) \<Rightarrow> (nat \<Rightarrow> 'f env) \<Rightarrow> mallocs \<Rightarrow> nat \<Rightarrow> int \<Rightarrow> conn \<Rightarrow> 'f server \<Rightarrow> fault + 'f parsed" where
  "recv_loop amok es wok i fd c s =
     (let rest = drop (c_rparse_offset c) (bytes (c_rbuffer c)) in
      if rest = [] then Inr (Parsed c s)
      else (case resp_parse_one_command rest of
        RespOob \<Rightarrow> Inl Memory
      | RespMore \<Rightarrow> Inr (Parsed c s)
      | RespBad \<Rightarrow> Inr (Malformed c s)
      | RespOne m \<Rightarrow>
          (case kvs_protocol (amok i) (es i) fd (take m rest) s of
             Inl f \<Rightarrow> Inl f
           | Inr (resp_len, resp, s1) \<Rightarrow>
               if resp_len < 0 then Inr (Closing s1)
               else (case (if resp_len > 0 \<and> resp \<noteq> None
                           then append_reply (wok i) (nat resp_len) (the resp) c else Inr (Some c)) of
                   Inl f \<Rightarrow> Inl f
                 | Inr None \<Rightarrow> Inr (Closing s1)
                 | Inr (Some c1) \<Rightarrow>
                     recv_loop amok es wok (i + 1) fd
                       (c1\<lparr>c_rparse_offset := c_rparse_offset c + m\<rparr>) s1))))"
  by pat_completeness auto

text \<open>The bytes of a reply that reach the send buffer.\<close>

definition reply_bytes :: "int \<Rightarrow> cptr \<Rightarrow> string" where
  "reply_bytes n out = (if n > 0 \<and> out \<noteq> None then take (nat n) (the out @ [CHR 0x00]) else [])"

lemma append_reply_reads:
  "append_reply mok n msg c = Inr (Some c1) \<Longrightarrow>
   c_rbuffer c1 = c_rbuffer c \<and> c_rbuf_size c1 = c_rbuf_size c \<and> c_rparse_offset c1 = c_rparse_offset c \<and>
   c_woffset c1 = c_woffset c \<and> c_recv_callback c1 = c_recv_callback c \<and> c_send_callback c1 = c_send_callback c \<and>
   bytes (c_wbuffer c1) = bytes (c_wbuffer c) @ take n (msg @ [CHR 0x00]) \<and>
   (wlength c \<le> c_wbuf_size c \<longrightarrow> wlength c1 \<le> c_wbuf_size c1)"
  by (auto simp: append_reply_def Let_def bytes_def split: if_splits)

lemma recv_loop_reply:
  assumes "(if 0 < n \<and> resp \<noteq> None then append_reply mok (nat n) (the resp) c else Inr (Some c)) = Inr (Some c1)"
  shows "c_rbuffer c1 = c_rbuffer c" "c_rbuf_size c1 = c_rbuf_size c" "c_rparse_offset c1 = c_rparse_offset c"
    "c_woffset c1 = c_woffset c" "c_recv_callback c1 = c_recv_callback c"
    "bytes (c_wbuffer c1) = bytes (c_wbuffer c) @ reply_bytes n resp"
    "wlength c \<le> c_wbuf_size c \<Longrightarrow> wlength c1 \<le> c_wbuf_size c1"
  using assms append_reply_reads [of mok "nat n" "the resp" c c1]
  by (auto simp: reply_bytes_def split: if_splits)

termination recv_loop
proof (relation "measure (\<lambda>(amok, es, wok, i, fd, c, s). rlength c - c_rparse_offset c)", simp, goal_cases)
  case (1 amok es wok i fd c s rest m x resp_len y resp s1 o1 c1)
  then show ?case using resp_one_pos [OF 1(3)] recv_loop_reply(1,3) [of resp_len resp "wok i" c c1] by simp
qed

declare recv_loop.simps [simp del]

text \<open>
  What \<open>recv\<close> does. \<open>NoBytes\<close> is the end of the stream or an error, which the code treats alike;
  a null buffer is refused by the kernel, which never gives more bytes than the room it is told of.
\<close>

datatype received = Bytes string | NoBytes

record 'f recv_env =
  v_grow :: bool
  v_recv :: received
  v_amok :: "nat \<Rightarrow> mallocs"
  v_env :: "nat \<Rightarrow> 'f env"
  v_wok :: mallocs
  v_send :: sent
  v_ok :: bool

text \<open>The receive buffer before \<open>recv\<close>: doubled when full. \<open>None\<close> is the failed allocation.\<close>

definition make_room :: "bool \<Rightarrow> conn \<Rightarrow> conn option" where
  "make_room mok c =
     (if c_rbuf_size c \<noteq> 0 \<and> rlength c + 1 \<ge> c_rbuf_size c
      then (if mok then Some (c\<lparr>c_rbuffer := Some (bytes (c_rbuffer c)), c_rbuf_size := c_rbuf_size c * 2\<rparr>) else None)
      else Some c)"

text \<open>Dropping the commands that have been executed from the front of the buffer.\<close>

definition shift_left :: "conn \<Rightarrow> conn" where
  "shift_left c =
     (if c_rparse_offset c > 0
      then c\<lparr>c_rbuffer := map_option (drop (c_rparse_offset c)) (c_rbuffer c), c_rparse_offset := 0\<rparr> else c)"

definition recv_cb :: "'f recv_env \<Rightarrow> int \<Rightarrow> 'f reactor \<Rightarrow> fault + int \<times> 'f reactor" where
  "recv_cb v fd R =
     (if \<not> conn_fd_valid fd then Inr (-1, R)
      else (case make_room (v_grow v) (rx_conn R fd) of
        None \<Rightarrow> Inr (-1, close_conn fd R)
      | Some c \<Rightarrow>
          (case (v_recv v, c_rbuffer c) of
             (Bytes d, Some b) \<Rightarrow>
               if d = [] then Inr (-1, close_conn fd R)
               else if length b + length d > INT_MAX then Inl Overflow
               else if length b + length d \<ge> c_rbuf_size c then Inl Memory
               else (case recv_loop (v_amok v) (v_env v) (v_wok v) 0 fd (c\<lparr>c_rbuffer := Some (b @ d)\<rparr>) (rx_server R) of
                   Inl f \<Rightarrow> Inl f
                 | Inr (Closing s1) \<Rightarrow> Inr (-1, close_conn fd (R\<lparr>rx_server := s1\<rparr>))
                 | Inr (Malformed c1 s1) \<Rightarrow> Inr (-1, put_conn fd c1 (R\<lparr>rx_server := s1\<rparr>))
                 | Inr (Parsed c1 s1) \<Rightarrow>
                     let R1 = put_conn fd (shift_left c1) (R\<lparr>rx_server := s1\<rparr>)
                     in Inr (int (length d), if wlength c1 > 0 then snd (send_cb (v_send v) (v_ok v) fd R1) else R1))
           | _ \<Rightarrow> Inr (-1, close_conn fd R))))"

subsection \<open>Dispatch\<close>

text \<open>One ready descriptor: the readable part, then the writable part, each by the callback that is
  then registered.\<close>

record 'f event =
  ev_fd :: int
  ev_in :: bool
  ev_out :: bool
  ev_accept :: "int option"
  ev_mok :: mallocs
  ev_ctl :: bool
  ev_recv :: "'f recv_env"
  ev_send :: sent

definition dispatch_in :: "'f event \<Rightarrow> 'f reactor \<Rightarrow> fault + 'f reactor" where
  "dispatch_in ev R =
     (if \<not> ev_in ev then Inr R
      else (case c_recv_callback (rx_conn R (ev_fd ev)) of
          AcceptCb \<Rightarrow> Inr (snd (accept_cb (ev_accept ev) (ev_mok ev) (ev_ctl ev) R))
        | RecvCb \<Rightarrow> map_sum id snd (recv_cb (ev_recv ev) (ev_fd ev) R)
        | _ \<Rightarrow> Inr R))"

definition dispatch_out :: "'f event \<Rightarrow> 'f reactor \<Rightarrow> 'f reactor" where
  "dispatch_out ev R =
     (if ev_out ev \<and> c_send_callback (rx_conn R (ev_fd ev)) \<noteq> NoCallback
      then snd (send_cb (ev_send ev) (ev_ctl ev) (ev_fd ev) R) else R)"

definition dispatch :: "'f event \<Rightarrow> 'f reactor \<Rightarrow> fault + 'f reactor" where
  "dispatch ev R =
     (if \<not> conn_fd_valid (ev_fd ev) then Inr R
      else map_sum id (dispatch_out ev) (dispatch_in ev R))"

text \<open>\<open>reactor_start\<close> up to the loop; \<open>sock\<close> is the listening socket.\<close>

definition reactor_start :: "int \<Rightarrow> bool \<Rightarrow> 'f server \<Rightarrow> int \<times> 'f reactor" where
  "reactor_start sock ok s =
     (let R0 = \<lparr>rx_conn = \<lambda>_. zero_conn, rx_epoll = \<lambda>_. None, rx_server = s, rx_io = []\<rparr> in
      if \<not> conn_fd_valid sock then (-1, if sock \<ge> 0 then R0\<lparr>rx_io := [Close sock]\<rparr> else R0)
      else let (r, R1) = set_event ok sock (True, False)
                 (put_conn sock (zero_conn\<lparr>c_fd := sock, c_recv_callback := AcceptCb\<rparr>) R0)
           in if r \<noteq> 0 then (-1, R1\<lparr>rx_io := [Close sock]\<rparr>) else (0, R1))"

subsection \<open>What a connection has exchanged\<close>

text \<open>
  The server executes requests one after the other, each with the descriptor it came from and its
  reply; between two of them the log worker may change the ring it shares with the server.
\<close>

type_synonym exchange = "string \<times> string"

inductive executes :: "'f server \<Rightarrow> (int \<times> exchange) list \<Rightarrow> 'f server \<Rightarrow> bool" where
  idle: "executes s [] s"
| request: "kvs_protocol amok e fd msg s = Inr (n, out, s1) \<Longrightarrow> executes s1 log t \<Longrightarrow>
    executes s ((fd, msg, reply_bytes n out) # log) t"
| worker: "executes (s\<lparr>sv_ring := r\<rparr>) log t \<Longrightarrow> executes s log t"

lemma executes_append: "executes s log t \<Longrightarrow> executes t log' u \<Longrightarrow> executes s (log @ log') u"
  by (induction rule: executes.induct) (auto intro: executes.intros)

lemma executes_worker: "executes s log t \<Longrightarrow> executes s log (t\<lparr>sv_ring := r\<rparr>)"
  using executes_append [OF _ worker [OF idle], of s log t r] by simp

text \<open>The requests are what the framing finds at their place in the stream.\<close>

primrec framed :: "exchange list \<Rightarrow> string \<Rightarrow> bool" where
  "framed [] rest \<longleftrightarrow> True"
| "framed (x # xs) rest \<longleftrightarrow>
     resp_parse_one_command (fst x @ concat (map fst xs) @ rest) = RespOne (length (fst x)) \<and> framed xs rest"

lemma framed_extend: "framed xs rest \<Longrightarrow> framed xs (rest @ d)"
proof (induction xs)
  case (Cons x xs)
  then show ?case using resp_parse_extend [of "fst x @ concat (map fst xs) @ rest" "length (fst x)" d] by simp
qed simp

lemma framed_append: "framed (xs @ ys) rest \<longleftrightarrow> framed xs (concat (map fst ys) @ rest) \<and> framed ys rest"
  by (induction xs) auto

definition no_command :: "string \<Rightarrow> bool" where
  "no_command rest \<longleftrightarrow> (\<forall>m. resp_parse_one_command rest \<noteq> RespOne m)"

lemma no_command_nil [simp]: "no_command []"
  by (simp add: no_command_def resp_parse_one_command_def at_def)

abbreviation unparsed :: "conn \<Rightarrow> string" where
  "unparsed c \<equiv> drop (c_rparse_offset c) (bytes (c_rbuffer c))"

abbreviation unsent :: "conn \<Rightarrow> string" where
  "unsent c \<equiv> drop (c_woffset c) (bytes (c_wbuffer c))"

definition conn_ok :: "conn \<Rightarrow> bool" where
  "conn_ok c \<longleftrightarrow> c_rparse_offset c \<le> rlength c \<and> c_woffset c \<le> wlength c \<and>
     rlength c < c_rbuf_size c \<and> wlength c \<le> c_wbuf_size c"

text \<open>The loop executes the commands at the front of the unparsed bytes, as many as there are.\<close>

definition handled :: "conn \<Rightarrow> 'f server \<Rightarrow> int \<Rightarrow> exchange list \<Rightarrow> conn \<Rightarrow> 'f server \<Rightarrow> bool" where
  "handled c s fd xs c1 s1 \<longleftrightarrow> executes s (map (Pair fd) xs) s1 \<and> framed xs (unparsed c1) \<and>
     unparsed c = concat (map fst xs) @ unparsed c1 \<and> no_command (unparsed c1) \<and>
     bytes (c_wbuffer c1) = bytes (c_wbuffer c) @ concat (map snd xs) \<and>
     c_rbuffer c1 = c_rbuffer c \<and> c_rbuf_size c1 = c_rbuf_size c \<and> c_woffset c1 = c_woffset c \<and>
     c_recv_callback c1 = c_recv_callback c \<and> conn_ok c1"

lemma handled_nil: "conn_ok c \<Longrightarrow> no_command (unparsed c) \<Longrightarrow> handled c s fd [] c s"
  by (simp add: handled_def idle)

lemma handled_cons:
  assumes "handled (c1\<lparr>c_rparse_offset := c_rparse_offset c + m\<rparr>) s1 fd xs c2 s2"
    and "resp_parse_one_command (unparsed c) = RespOne m"
    and "kvs_protocol amok e fd (take m (unparsed c)) s = Inr (n, out, s1)"
    and "c_rbuffer c1 = c_rbuffer c" "c_rbuf_size c1 = c_rbuf_size c" "c_woffset c1 = c_woffset c"
      "c_recv_callback c1 = c_recv_callback c" "bytes (c_wbuffer c1) = bytes (c_wbuffer c) @ reply_bytes n out"
  shows "handled c s fd ((take m (unparsed c), reply_bytes n out) # xs) c2 s2"
proof -
  have m: "m \<le> length (unparsed c)" using resp_parse_extend [OF assms(2)] by blast
  have "drop m (unparsed c) = concat (map fst xs) @ unparsed c2"
    using assms(1,4) by (simp add: handled_def add.commute)
  then have u: "unparsed c = take m (unparsed c) @ concat (map fst xs) @ unparsed c2"
    by (metis append_take_drop_id)
  then have "resp_parse_one_command (take m (unparsed c) @ concat (map fst xs) @ unparsed c2) =
      RespOne (length (take m (unparsed c)))" using assms(2) m by simp
  moreover have "executes s1 (map (Pair fd) xs) s2" "framed xs (unparsed c2)" "no_command (unparsed c2)"
    "bytes (c_wbuffer c2) = bytes (c_wbuffer c1) @ concat (map snd xs)" "c_rbuffer c2 = c_rbuffer c1"
    "c_rbuf_size c2 = c_rbuf_size c1" "c_woffset c2 = c_woffset c1" "c_recv_callback c2 = c_recv_callback c1" "conn_ok c2"
    using assms(1) unfolding handled_def by auto
  ultimately show ?thesis
    unfolding handled_def list.map framed.simps concat.simps fst_conv snd_conv using u assms(4-8) request [OF assms(3)]
    by (metis append_assoc)
qed

lemma recv_loop_handles:
  "recv_loop amok es wok i fd c s = Inr res \<Longrightarrow> conn_ok c \<Longrightarrow>
   (case res of
      Closing s1 \<Rightarrow> \<exists>log. executes s (map (Pair fd) log) s1
    | Malformed c1 s1 \<Rightarrow> \<exists>xs. handled c s fd xs c1 s1
    | Parsed c1 s1 \<Rightarrow> \<exists>xs. handled c s fd xs c1 s1)"
proof (induction amok es wok i fd c s rule: recv_loop.induct)
  case (1 amok es wok i fd c s)
  show ?case
  proof (cases "no_command (unparsed c)")
    case True
    with 1(3) have "\<exists>xs. handled c s fd xs c s" by (blast intro: handled_nil)
    moreover have "res = Parsed c s \<or> res = Malformed c s"
      using 1(2) True by (subst (asm) recv_loop.simps) (auto simp: Let_def no_command_def split: if_splits resp_result.splits)
    ultimately show ?thesis by auto
  next
    case False
    then obtain m where RespOne: "resp_parse_one_command (unparsed c) = RespOne m" by (auto simp: no_command_def)
    then have ne: "unparsed c \<noteq> []" using resp_one_pos by blast
    have m: "m \<le> length (unparsed c)" using resp_parse_extend [OF RespOne] by blast
    obtain n out s1 o1 where P: "kvs_protocol (amok i) (es i) fd (take m (unparsed c)) s = Inr (n, out, s1)"
      and o1: "n \<ge> 0 \<Longrightarrow> (if 0 < n \<and> out \<noteq> None then append_reply (wok i) (nat n) (the out) c else Inr (Some c)) = Inr o1"
      using 1(2) ne RespOne by (subst (asm) recv_loop.simps) (auto simp: Let_def split: sum.splits if_splits)
    show ?thesis
    proof (cases "n < 0 \<or> o1 = None")
      case True
      then have "res = Closing s1" using 1(2) ne RespOne P o1 by (subst (asm) recv_loop.simps) (auto simp: Let_def split: if_splits)
      moreover have "executes s (map (Pair fd) [(take m (unparsed c), reply_bytes n out)]) s1"
        using request [OF P idle] by simp
      ultimately show ?thesis by (auto simp del: list.map)
    next
      case False
      then obtain c1 where c1: "o1 = Some c1" "n \<ge> 0" by auto
      note r = recv_loop_reply [OF o1 [OF c1(2), unfolded c1(1)]]
      let ?c = "c1\<lparr>c_rparse_offset := c_rparse_offset c + m\<rparr>"
      have L: "recv_loop amok es wok (i + 1) fd ?c s1 = Inr res"
        using 1(2) ne RespOne P o1 c1 by (subst (asm) recv_loop.simps) (auto simp: Let_def split: if_splits)
      have "conn_ok ?c" using 1(3) r m by (auto simp: conn_ok_def)
      note IH = 1(1) [OF refl ne RespOne P refl refl _ o1 [OF c1(2)] c1(1) L this]
      note C = handled_cons [OF _ RespOne P r(1,2,4,5,6)]
      show ?thesis
      proof (cases res)
        case (Closing s2)
        with IH c1(2) obtain log where "executes s1 (map (Pair fd) log) s2" by auto
        then have "executes s (map (Pair fd) ((take m (unparsed c), reply_bytes n out) # log)) s2" using request [OF P] by simp
        with Closing show ?thesis by (auto simp del: list.map)
      next
        case (Parsed c2 s2)
        with IH c1(2) obtain xs where "handled ?c s1 fd xs c2 s2" by auto
        from C [OF this] Parsed show ?thesis by auto
      next
        case (Malformed c2 s2)
        with IH c1(2) obtain xs where "handled ?c s1 fd xs c2 s2" by auto
        from C [OF this] Malformed show ?thesis by auto
      qed
    qed
  qed
qed

subsection \<open>Runs of the event loop\<close>

text \<open>The bytes an event brings in on a descriptor, and the descriptor it opens.\<close>

definition brings :: "'f event \<Rightarrow> 'f reactor \<Rightarrow> int \<Rightarrow> string" where
  "brings ev R fd =
     (if ev_in ev \<and> fd = ev_fd ev \<and> c_recv_callback (rx_conn R fd) = RecvCb
      then (case v_recv (ev_recv ev) of Bytes d \<Rightarrow> d | NoBytes \<Rightarrow> []) else [])"

definition opens :: "'f event \<Rightarrow> 'f reactor \<Rightarrow> int option" where
  "opens ev R = (if ev_in ev \<and> c_recv_callback (rx_conn R (ev_fd ev)) = AcceptCb then ev_accept ev else None)"

text \<open>
  A run with, for each descriptor, the bytes received since it was accepted and the place in the
  output from which on it belongs to the present connection.
\<close>

inductive net_run :: "'f server \<Rightarrow> (int \<Rightarrow> string) \<Rightarrow> (int \<Rightarrow> nat) \<Rightarrow> 'f reactor \<Rightarrow> bool" for s0 where
  start: "reactor_start sock ok s0 = (0, R) \<Longrightarrow> net_run s0 (\<lambda>_. []) (\<lambda>_. 0) R"
| event: "net_run s0 inp mark R \<Longrightarrow> conn_fd_valid (ev_fd ev) \<Longrightarrow> dispatch ev R = Inr R' \<Longrightarrow>
    net_run s0 (\<lambda>fd. if opens ev R = Some fd then [] else inp fd @ brings ev R fd)
      (\<lambda>fd. if opens ev R = Some fd then length (rx_io R) else mark fd) R'"
| worker: "net_run s0 inp mark R \<Longrightarrow> net_run s0 inp mark (R\<lparr>rx_server := (rx_server R)\<lparr>sv_ring := r\<rparr>\<rparr>)"

definition sent_to :: "int \<Rightarrow> io list \<Rightarrow> string" where
  "sent_to fd ios = concat (map (\<lambda>x. case x of Send f b \<Rightarrow> if f = fd then b else [] | _ \<Rightarrow> []) ios)"

lemma sent_to_simps [simp]:
  "sent_to fd [] = []" "sent_to fd (xs @ ys) = sent_to fd xs @ sent_to fd ys"
  "sent_to fd (Send f b # xs) = (if f = fd then b else []) @ sent_to fd xs"
  "sent_to fd (Close f # xs) = sent_to fd xs"
  by (simp_all add: sent_to_def)

text \<open>What holds of a connection: the exchanges \<open>xs\<close> account for all bytes in both directions.\<close>

definition accounts :: "exchange list \<Rightarrow> string \<Rightarrow> string \<Rightarrow> conn \<Rightarrow> bool" where
  "accounts xs inp out c \<longleftrightarrow> inp = concat (map fst xs) @ unparsed c \<and> out @ unsent c = concat (map snd xs) \<and>
     framed xs (unparsed c) \<and> no_command (unparsed c) \<and> conn_ok c"

definition of_fd :: "int \<Rightarrow> (int \<times> exchange) list \<Rightarrow> exchange list" where
  "of_fd fd log = map snd (filter (\<lambda>x. fst x = fd) log)"

lemma of_fd_simps [simp]:
  "of_fd fd [] = []" "of_fd fd (log @ log') = of_fd fd log @ of_fd fd log'"
  "of_fd fd (map (Pair f) xs) = (if f = fd then xs else [])"
  by (induction xs) (auto simp: of_fd_def)

definition net_inv :: "(int \<times> exchange) list \<Rightarrow> (int \<Rightarrow> string) \<Rightarrow> (int \<Rightarrow> nat) \<Rightarrow> 'f reactor \<Rightarrow> bool" where
  "net_inv log inp mark R \<longleftrightarrow> (\<forall>fd. mark fd \<le> length (rx_io R) \<and>
     (c_recv_callback (rx_conn R fd) = RecvCb \<longrightarrow> conn_fd_valid fd \<and>
       (\<exists>before xs. of_fd fd log = before @ xs \<and> accounts xs (inp fd) (sent_to fd (drop (mark fd) (rx_io R))) (rx_conn R fd))))"

lemma net_invD:
  assumes "net_inv log inp mark R" "c_recv_callback (rx_conn R fd) = RecvCb"
  obtains before xs where "of_fd fd log = before @ xs"
    "accounts xs (inp fd) (sent_to fd (drop (mark fd) (rx_io R))) (rx_conn R fd)"
  using assms unfolding net_inv_def by blast

text \<open>A step that touches one descriptor only.\<close>

lemma net_inv_update:
  assumes "net_inv log inp mark R" "rx_io R' = rx_io R @ new" "conn_fd_valid fd" "\<And>f. f \<noteq> fd \<Longrightarrow> sent_to f new = []"
    and "\<And>f. f \<noteq> fd \<Longrightarrow> rx_conn R' f = rx_conn R f" "\<And>f. f \<noteq> fd \<Longrightarrow> of_fd f log' = []" "\<And>f. f \<noteq> fd \<Longrightarrow> inp' f = inp f"
    and "c_recv_callback (rx_conn R' fd) = RecvCb \<Longrightarrow> \<exists>before xs. of_fd fd (log @ log') = before @ xs \<and>
      accounts xs (inp' fd) (sent_to fd (drop (mark fd) (rx_io R @ new))) (rx_conn R' fd)"
  shows "net_inv (log @ log') inp' mark R'"
  unfolding net_inv_def
proof (intro allI conjI impI)
  fix f
  have m: "mark f \<le> length (rx_io R)" using assms(1) by (simp add: net_inv_def)
  then show "mark f \<le> length (rx_io R')" by (simp add: assms(2))
  assume cb: "c_recv_callback (rx_conn R' f) = RecvCb"
  show "conn_fd_valid f" using cb assms(1,3,5) unfolding net_inv_def by metis
  show "\<exists>before xs. of_fd f (log @ log') = before @ xs \<and>
      accounts xs (inp' f) (sent_to f (drop (mark f) (rx_io R'))) (rx_conn R' f)"
  proof (cases "f = fd")
    case True
    then show ?thesis using assms(2,8) cb by simp
  next
    case False
    with cb assms(5) obtain before xs where "of_fd f log = before @ xs"
      "accounts xs (inp f) (sent_to f (drop (mark f) (rx_io R))) (rx_conn R f)"
      using net_invD [OF assms(1)] by metis
    then show ?thesis using False assms(2-7) m by auto
  qed
qed

lemma net_inv_cong:
  "rx_conn R' = rx_conn R \<Longrightarrow> rx_io R' = rx_io R \<Longrightarrow> net_inv log inp mark R' = net_inv log inp mark R"
  by (simp add: net_inv_def)

lemma set_event_simps [simp]:
  "rx_conn (snd (set_event ok fd ev R)) = rx_conn R" "rx_io (snd (set_event ok fd ev R)) = rx_io R"
  "rx_server (snd (set_event ok fd ev R)) = rx_server R"
  by (simp_all add: set_event_def)

lemma put_conn_simps [simp]:
  "rx_conn (put_conn fd c R) = (rx_conn R)(fd := c)" "rx_io (put_conn fd c R) = rx_io R"
  "rx_server (put_conn fd c R) = rx_server R"
  by (simp_all add: put_conn_def)

lemma zero_conn_simps [simp]: "c_recv_callback zero_conn = NoCallback" "bytes (c_wbuffer zero_conn) = []"
  by (simp_all add: zero_conn_def bytes_def)

lemma close_conn_server [simp]: "rx_server (close_conn fd R) = rx_server R"
  by (simp add: close_conn_def)

lemma close_inv:
  assumes "net_inv log inp mark R" "conn_fd_valid fd" "\<And>f. f \<noteq> fd \<Longrightarrow> of_fd f log' = []" "\<And>f. f \<noteq> fd \<Longrightarrow> inp' f = inp f"
  shows "net_inv (log @ log') inp' mark (close_conn fd R)"
  by (rule net_inv_update [OF assms(1), of _ "[Close fd]" fd]) (use assms in \<open>auto simp: close_conn_def\<close>)

lemma send_inv:
  assumes "net_inv log inp mark R"
  shows "net_inv log inp mark (snd (send_cb sr ok fd R)) \<and> rx_server (snd (send_cb sr ok fd R)) = rx_server R"
proof (cases "conn_fd_valid fd \<and> wlength (rx_conn R fd) \<noteq> 0")
  case True
  show ?thesis
  proof (cases sr)
    case (Taken n)
    let ?c = "rx_conn R fd" and ?R = "snd (send_cb sr ok fd R)"
    let ?b = "take n (unsent ?c)"
    let ?c' = "if c_woffset ?c + n \<ge> wlength ?c then ?c\<lparr>c_wbuffer := map_option (\<lambda>_. []) (c_wbuffer ?c), c_woffset := 0\<rparr>
      else ?c\<lparr>c_woffset := c_woffset ?c + n\<rparr>"
    have R: "rx_io ?R = rx_io R @ [Send fd ?b]" "rx_conn ?R = (rx_conn R)(fd := ?c')" "rx_server ?R = rx_server R"
      using True Taken by (simp_all add: send_cb_def Let_def)
    have "net_inv (log @ []) inp mark ?R"
    proof (rule net_inv_update [OF assms R(1) conjunct1 [OF True], where log' = "[]"])
      assume "c_recv_callback (rx_conn ?R fd) = RecvCb"
      then have "c_recv_callback ?c = RecvCb" by (simp add: R(2) split: if_splits)
      then obtain before xs where B: "of_fd fd log = before @ xs"
        "accounts xs (inp fd) (sent_to fd (drop (mark fd) (rx_io R))) ?c" by (rule net_invD [OF assms])
      have m: "mark fd \<le> length (rx_io R)" using assms by (simp add: net_inv_def)
      have "?b @ unsent ?c' = unsent ?c"
        by (simp add: bytes_def not_le add.commute split: option.split) (metis append_take_drop_id drop_drop)
      then have "accounts xs (inp fd) (sent_to fd (drop (mark fd) (rx_io R @ [Send fd ?b]))) ?c'"
        using B(2) m by (auto simp: accounts_def conn_ok_def bytes_def split: option.splits)
      then show "\<exists>before xs. of_fd fd (log @ []) = before @ xs \<and>
          accounts xs (inp fd) (sent_to fd (drop (mark fd) (rx_io R @ [Send fd ?b]))) (rx_conn ?R fd)"
        using B(1) unfolding R(2) fun_upd_same append_Nil2 by blast
    qed (auto simp: R(2))
    then show ?thesis using R(3) by simp
  next
    case WouldBlock
    then show ?thesis using True assms by (simp add: send_cb_def Let_def cong: net_inv_cong)
  next
    case SendFails
    then show ?thesis using True close_inv [OF assms, of fd "[]" inp] by (simp add: send_cb_def Let_def)
  qed
qed (use assms in \<open>auto simp: send_cb_def Let_def\<close>)

lemma make_room_keeps:
  assumes "make_room mok c = Some c1"
  shows "bytes (c_rbuffer c1) = bytes (c_rbuffer c)" "c_rparse_offset c1 = c_rparse_offset c" "c_wbuffer c1 = c_wbuffer c"
    "c_wbuf_size c1 = c_wbuf_size c" "c_woffset c1 = c_woffset c" "c_recv_callback c1 = c_recv_callback c"
    "c_rbuf_size c \<le> c_rbuf_size c1"
  using assms by (auto simp: make_room_def bytes_def split: if_splits)

lemma shift_left_keeps:
  "unparsed (shift_left c) = unparsed c" "c_wbuffer (shift_left c) = c_wbuffer c" "c_woffset (shift_left c) = c_woffset c"
  "c_recv_callback (shift_left c) = c_recv_callback c" "conn_ok c \<Longrightarrow> conn_ok (shift_left c)"
  by (auto simp: shift_left_def bytes_def conn_ok_def split: option.splits)

text \<open>The exchanges after a receive.\<close>

lemma accounts_recv:
  assumes "accounts xs inp out c0" "make_room mok c0 = Some c" "c_rbuffer c = Some b"
    and "length b + length d < c_rbuf_size c"
    and H: "handled (c\<lparr>c_rbuffer := Some (b @ d)\<rparr>) s fd ys c1 s1"
  shows "accounts (xs @ ys) (inp @ d) out c1"
proof -
  note k = make_room_keeps [OF assms(2)]
  let ?c = "c\<lparr>c_rbuffer := Some (b @ d)\<rparr>"
  have b: "bytes (c_rbuffer c0) = b" "c_rparse_offset c0 \<le> length b" "c_woffset c0 \<le> wlength c0"
    using k(1) assms(1,3) by (auto simp: bytes_def accounts_def conn_ok_def)
  have u: "unparsed ?c = unparsed c0 @ d" using b k(2) by (simp add: bytes_def)
  have h: "framed ys (unparsed c1)" "unparsed ?c = concat (map fst ys) @ unparsed c1" "no_command (unparsed c1)"
    "bytes (c_wbuffer c1) = bytes (c_wbuffer ?c) @ concat (map snd ys)" "c_woffset c1 = c_woffset ?c" "conn_ok c1"
    using H unfolding handled_def by blast+
  have "framed xs (unparsed c0 @ d)" using assms(1) framed_extend by (simp add: accounts_def)
  then have "framed (xs @ ys) (unparsed c1)" using h(1,2) u by (simp add: framed_append)
  moreover have "out @ unsent c1 = concat (map snd (xs @ ys))"
    using assms(1) h(4,5) b(3) k(3,5) by (simp add: accounts_def flip: append_assoc)
  moreover have "inp @ d = concat (map fst (xs @ ys)) @ unparsed c1"
    using assms(1) h(2) u by (simp add: accounts_def)
  ultimately show ?thesis using h(3,6) by (simp add: accounts_def)
qed

lemma accounts_shift: "accounts xs inp out (shift_left c) \<longleftrightarrow> accounts xs inp out c" if "conn_ok c"
  using that shift_left_keeps [of c] by (auto simp: accounts_def)

lemma recv_inv:
  assumes I: "net_inv log inp mark R" and cb: "c_recv_callback (rx_conn R fd) = RecvCb" and fd: "conn_fd_valid fd"
    and res: "recv_cb v fd R = Inr (r, R')"
  shows "\<exists>log'. net_inv (log @ log') (inp(fd := inp fd @ (case v_recv v of Bytes d \<Rightarrow> d | NoBytes \<Rightarrow> []))) mark R' \<and>
    executes (rx_server R) log' (rx_server R')"
proof -
  let ?inp = "inp(fd := inp fd @ (case v_recv v of Bytes d \<Rightarrow> d | NoBytes \<Rightarrow> []))"
  have close: ?thesis if "R' = close_conn fd (R\<lparr>rx_server := s1\<rparr>)" "executes (rx_server R) (map (Pair fd) xs) s1" for s1 xs
  proof (intro exI conjI)
    have "net_inv log inp mark (R\<lparr>rx_server := s1\<rparr>)" using I by (simp cong: net_inv_cong)
    then show "net_inv (log @ map (Pair fd) xs) ?inp mark R'" unfolding that(1) by (rule close_inv) (use fd in auto)
  qed (use that in simp)
  have close0: ?thesis if "R' = close_conn fd R" using close [of "rx_server R" "[]"] that by (simp add: idle)
  obtain before xs where B: "of_fd fd log = before @ xs"
      "accounts xs (inp fd) (sent_to fd (drop (mark fd) (rx_io R))) (rx_conn R fd)" by (rule net_invD [OF I cb])
  show ?thesis
  proof (cases "\<exists>c b d. make_room (v_grow v) (rx_conn R fd) = Some c \<and> v_recv v = Bytes d \<and> c_rbuffer c = Some b \<and> d \<noteq> []")
    case False
    then have "R' = close_conn fd R"
      using res fd by (auto simp: recv_cb_def split: option.splits received.splits if_splits)
    then show ?thesis by (rule close0)
  next
    case True
    then obtain c b d where c: "make_room (v_grow v) (rx_conn R fd) = Some c" and d: "v_recv v = Bytes d" "d \<noteq> []"
      and b: "c_rbuffer c = Some b" by blast
    let ?c = "c\<lparr>c_rbuffer := Some (b @ d)\<rparr>"
    obtain p where len: "length b + length d < c_rbuf_size c"
      and L: "recv_loop (v_amok v) (v_env v) (v_wok v) 0 fd ?c (rx_server R) = Inr p"
      using res fd c d b by (auto simp: recv_cb_def split: sum.splits if_splits)
    have ok: "conn_ok ?c" using B(2) make_room_keeps [OF c] len b by (auto simp: accounts_def conn_ok_def bytes_def)
    note h = recv_loop_handles [OF L ok]
    have put: "net_inv (log @ map (Pair fd) ys) ?inp mark (put_conn fd c2 (R\<lparr>rx_server := s1\<rparr>)) \<and>
        executes (rx_server R) (map (Pair fd) ys) s1"
      if H: "handled ?c (rx_server R) fd ys c1 s1" and c2: "c2 = c1 \<or> c2 = shift_left c1" for ys c1 c2 s1
    proof
      show "executes (rx_server R) (map (Pair fd) ys) s1" using H by (simp add: handled_def)
      have "conn_ok c1" using H by (simp add: handled_def)
      then have "accounts (xs @ ys) (inp fd @ d) (sent_to fd (drop (mark fd) (rx_io R))) c2"
        using accounts_recv [OF B(2) c b len H] c2 by (auto simp: accounts_shift)
      then show "net_inv (log @ map (Pair fd) ys) ?inp mark (put_conn fd c2 (R\<lparr>rx_server := s1\<rparr>))"
        by (intro net_inv_update [OF I, where new = "[]" and fd = fd]) (use d B(1) fd in auto)
    qed
    show ?thesis
    proof (cases p)
      case (Closing s1)
      then have "R' = close_conn fd (R\<lparr>rx_server := s1\<rparr>)" using res fd c d b L len by (simp add: recv_cb_def split: if_splits)
      then show ?thesis using close h Closing by auto
    next
      case (Malformed c1 s1)
      then have "R' = put_conn fd c1 (R\<lparr>rx_server := s1\<rparr>)" using res fd c d b L len by (simp add: recv_cb_def split: if_splits)
      moreover obtain ys where "handled ?c (rx_server R) fd ys c1 s1" using h Malformed by auto
      ultimately show ?thesis using put [of ys c1 s1 c1] by auto
    next
      case (Parsed c1 s1)
      let ?R = "put_conn fd (shift_left c1) (R\<lparr>rx_server := s1\<rparr>)"
      have R': "R' = (if wlength c1 > 0 then snd (send_cb (v_send v) (v_ok v) fd ?R) else ?R)"
        using res fd c d b L len Parsed by (simp add: recv_cb_def Let_def split: if_splits)
      obtain ys where "handled ?c (rx_server R) fd ys c1 s1" using h Parsed by auto
      from put [OF this, of "shift_left c1"] have P: "net_inv (log @ map (Pair fd) ys) ?inp mark ?R"
        "executes (rx_server R) (map (Pair fd) ys) s1" by simp_all
      show ?thesis using R' P send_inv [OF P(1), of "v_send v" "v_ok v" fd] by auto
    qed
  qed
qed

lemma accept_inv:
  assumes "net_inv log inp mark R" "accept_cb client mok ok R = (r, R')"
  shows "net_inv log (\<lambda>fd. if client = Some fd then [] else inp fd) (\<lambda>fd. if client = Some fd then length (rx_io R) else mark fd) R' \<and>
    rx_server R' = rx_server R"
proof (cases client)
  case None
  then show ?thesis using assms by (simp add: accept_cb_def)
next
  case (Some cfd)
  then have R': "R' = snd (event_register mok ok cfd (True, False) R)"
    using assms(2) by (auto simp: accept_cb_def split: prod.splits if_splits)
  let ?inp = "\<lambda>fd. if client = Some fd then [] else inp fd"
    and ?mark = "\<lambda>fd. if client = Some fd then length (rx_io R) else mark fd"
  have fresh: "c_recv_callback (rx_conn R' cfd) = RecvCb \<Longrightarrow> conn_fd_valid cfd \<Longrightarrow>
      unparsed (rx_conn R' cfd) = [] \<and> unsent (rx_conn R' cfd) = [] \<and> conn_ok (rx_conn R' cfd)"
    by (auto simp: R' event_register_def set_event_def close_conn_def Let_def bytes_def conn_ok_def BUF_SIZE_def split: if_splits)
  have other: "f \<noteq> cfd \<or> \<not> conn_fd_valid cfd \<Longrightarrow> rx_conn R' f = rx_conn R f" for f
    by (auto simp: R' event_register_def set_event_def close_conn_def Let_def)
  have io: "rx_io R' = rx_io R \<or> rx_io R' = rx_io R @ [Close cfd]" "rx_server R' = rx_server R"
    by (auto simp: R' event_register_def set_event_def close_conn_def Let_def)
  have "mark f \<le> length (rx_io R')" for f using assms(1) io(1) unfolding net_inv_def by (metis le_add1 le_trans length_append)
  moreover have "conn_fd_valid f \<and> (\<exists>before xs. of_fd f log = before @ xs \<and>
      accounts xs (?inp f) (sent_to f (drop (?mark f) (rx_io R'))) (rx_conn R' f))"
    if cb: "c_recv_callback (rx_conn R' f) = RecvCb" for f
  proof (cases "f = cfd")
    case True
    have v: "conn_fd_valid cfd" using cb other [of cfd] assms(1) True unfolding net_inv_def by metis
    have "accounts [] (?inp f) (sent_to f (drop (?mark f) (rx_io R'))) (rx_conn R' f)"
      using fresh cb v True Some io by (auto simp: accounts_def)
    then show ?thesis using v True by blast
  next
    case False
    then have "mark f \<le> length (rx_io R) \<and> conn_fd_valid f \<and> (\<exists>before xs. of_fd f log = before @ xs \<and>
      accounts xs (inp f) (sent_to f (drop (mark f) (rx_io R))) (rx_conn R' f))"
      using cb other [of f] assms(1) unfolding net_inv_def by auto
    moreover from this have "sent_to f (drop (mark f) (rx_io R')) = sent_to f (drop (mark f) (rx_io R))" using io by auto
    ultimately show ?thesis using False Some by simp
  qed
  ultimately show ?thesis using Some io by (auto simp: net_inv_def)
qed

lemma dispatch_inv:
  assumes I: "net_inv log inp mark R" and v: "conn_fd_valid (ev_fd ev)" and D: "dispatch ev R = Inr R'"
  shows "\<exists>log'. net_inv (log @ log') (\<lambda>fd. if opens ev R = Some fd then [] else inp fd @ brings ev R fd)
      (\<lambda>fd. if opens ev R = Some fd then length (rx_io R) else mark fd) R' \<and>
    executes (rx_server R) log' (rx_server R')"
proof -
  let ?inp = "\<lambda>fd. if opens ev R = Some fd then [] else inp fd @ brings ev R fd"
    and ?mark = "\<lambda>fd. if opens ev R = Some fd then length (rx_io R) else mark fd"
  obtain R1 where R1: "dispatch_in ev R = Inr R1" "R' = dispatch_out ev R1"
    using D v by (cases "dispatch_in ev R") (auto simp: dispatch_def)
  have "\<exists>log'. net_inv (log @ log') ?inp ?mark R1 \<and> executes (rx_server R) log' (rx_server R1)"
  proof (cases "ev_in ev \<and> c_recv_callback (rx_conn R (ev_fd ev)) \<in> {AcceptCb, RecvCb}")
    case False
    then have "R1 = R" "?inp = inp" "?mark = mark"
      using R1(1) by (auto simp: dispatch_in_def opens_def brings_def fun_eq_iff split: if_splits callback.splits)
    then show ?thesis using I idle [of "rx_server R"] by (intro exI [of _ "[]"]) simp
  next
    case True
    show ?thesis
    proof (cases "c_recv_callback (rx_conn R (ev_fd ev)) = RecvCb")
      case False
      with True have cb: "c_recv_callback (rx_conn R (ev_fd ev)) = AcceptCb" "ev_in ev" by auto
      obtain r where "accept_cb (ev_accept ev) (ev_mok ev) (ev_ctl ev) R = (r, R1)"
        using R1(1) cb by (cases "accept_cb (ev_accept ev) (ev_mok ev) (ev_ctl ev) R") (simp add: dispatch_in_def)
      note a = accept_inv [OF I this]
      have "opens ev R = ev_accept ev" "?inp = (\<lambda>fd. if ev_accept ev = Some fd then [] else inp fd)"
        using cb by (auto simp: opens_def brings_def fun_eq_iff)
      with a have "net_inv (log @ []) ?inp ?mark R1 \<and> rx_server R1 = rx_server R" by simp
      then show ?thesis using idle [of "rx_server R"] by (intro exI [of _ "[]"] conjI) simp_all
    next
      case cb: True
      obtain r where r: "recv_cb (ev_recv ev) (ev_fd ev) R = Inr (r, R1)"
        using R1(1) cb True by (cases "recv_cb (ev_recv ev) (ev_fd ev) R") (auto simp: dispatch_in_def)
      have e: "inp(ev_fd ev := inp (ev_fd ev) @ (case v_recv (ev_recv ev) of Bytes d \<Rightarrow> d | NoBytes \<Rightarrow> [])) = ?inp" "?mark = mark"
        using cb True by (auto simp: opens_def brings_def fun_eq_iff)
      show ?thesis using recv_inv [OF I cb v r] unfolding e by blast
    qed
  qed
  then obtain log' where L: "net_inv (log @ log') ?inp ?mark R1" "executes (rx_server R) log' (rx_server R1)" by blast
  have "net_inv (log @ log') ?inp ?mark R' \<and> rx_server R' = rx_server R1"
    unfolding R1(2) dispatch_out_def using L(1) send_inv [OF L(1)] by simp
  then show ?thesis using L(2) by (intro exI [of _ log'] conjI) simp_all
qed

lemma net_run_inv:
  "net_run s0 inp mark R \<Longrightarrow> \<exists>log. net_inv log inp mark R \<and> executes s0 log (rx_server R)"
proof (induction rule: net_run.induct)
  case (start sock ok R)
  then show ?case
    by (intro exI [of _ "[]"]) (auto simp: reactor_start_def set_event_def net_inv_def Let_def idle split: if_splits)
next
  case (event inp mark R ev R')
  then obtain log where "net_inv log inp mark R" "executes s0 log (rx_server R)" by blast
  then show ?case using dispatch_inv [OF _ event(2,3)] executes_append by blast
next
  case (worker inp mark R r)
  then obtain log where "net_inv log inp mark R" "executes s0 log (rx_server R)" by blast
  then show ?case using executes_worker by (intro exI [of _ log]) (auto cong: net_inv_cong)
qed

subsection \<open>The stream of a client\<close>

definition sendable :: "string list \<Rightarrow> bool" where
  "sendable args \<longleftrightarrow> args \<noteq> [] \<and> length args < 2 ^ 31 \<and> (\<forall>a \<in> set args. length a < 2 ^ 31)"

lemma framed_requests:
  assumes "framed xs rest" "concat (map fst xs) @ rest @ later = concat (map resp_encode reqs)" "list_all sendable reqs"
  shows "\<exists>k \<le> length reqs. map fst xs = map resp_encode (take k reqs) \<and> rest @ later = concat (map resp_encode (drop k reqs))"
  using assms
proof (induction xs arbitrary: reqs)
  case Nil
  then show ?case by (intro exI [of _ 0]) simp
next
  case (Cons x xs)
  have p: "resp_parse_one_command (fst x @ concat (map fst xs) @ rest @ later) = RespOne (length (fst x))"
    using Cons.prems(1) resp_parse_extend [of "fst x @ concat (map fst xs) @ rest" "length (fst x)" later] by simp
  then have "reqs \<noteq> []" using Cons.prems(2) no_command_nil by (auto simp: no_command_def)
  then obtain r rs where r: "reqs = r # rs" by (cases reqs) auto
  have "resp_parse_one_command (resp_encode r @ concat (map resp_encode rs)) = RespOne (length (resp_encode r))"
    by (rule resp_parse_encode) (use Cons.prems(3) r in \<open>auto simp: sendable_def\<close>)
  moreover have eq: "fst x @ concat (map fst xs) @ rest @ later = resp_encode r @ concat (map resp_encode rs)"
    using Cons.prems(2) unfolding r by (simp only: list.map concat.simps append_assoc)
  ultimately have "length (fst x) = length (resp_encode r)" using p [unfolded eq] by simp
  then have x: "fst x = resp_encode r" "concat (map fst xs) @ rest @ later = concat (map resp_encode rs)"
    using eq by (metis append_eq_append_conv)+
  obtain k where "k \<le> length rs" "map fst xs = map resp_encode (take k rs)" "rest @ later = concat (map resp_encode (drop k rs))"
    using Cons.IH [OF _ x(2)] Cons.prems(1,3) r by auto
  then show ?case using x r by (intro exI [of _ "Suc k"]) simp
qed

lemma incomplete_request:
  assumes "no_command rest" "rest @ later = concat (map resp_encode (r # rs))" "sendable r"
  shows "length rest < length (resp_encode r)"
proof (rule ccontr)
  assume "\<not> ?thesis"
  moreover have "take (length (resp_encode r)) (rest @ later) = resp_encode r" using assms(2) by simp
  ultimately obtain x where "rest = resp_encode r @ x" by (metis append_take_drop_id not_less take_append diff_is_0_eq take_0 append_Nil2)
  then show False using assms(1,3) resp_parse_encode [of r x] by (auto simp: no_command_def sendable_def)
qed

text \<open>C2: however the stream of a client is cut into pieces by the network, and however the events of
  other connections, partial sends and the log worker come in between, the server executes exactly the
  requests of the client that have arrived completely, in order, and the bytes sent so far
  followed by those in the send buffer are exactly their replies, in order; the buffers of the
  connection never overflow.\<close>

theorem reactor_serves_stream:
  assumes "net_run s0 inp mark R" "c_recv_callback (rx_conn R fd) = RecvCb" "list_all sendable reqs"
    and "inp fd @ later = concat (map resp_encode reqs)"
  shows "\<exists>log before xs k rest. executes s0 log (rx_server R) \<and> of_fd fd log = before @ xs \<and>
    k \<le> length reqs \<and> map fst xs = map resp_encode (take k reqs) \<and>
    inp fd = concat (map resp_encode (take k reqs)) @ rest \<and>
    (k < length reqs \<longrightarrow> length rest < length (resp_encode (reqs ! k))) \<and>
    sent_to fd (drop (mark fd) (rx_io R)) @ unsent (rx_conn R fd) = concat (map snd xs) \<and> conn_ok (rx_conn R fd)"
proof -
  obtain log where log: "net_inv log inp mark R" "executes s0 log (rx_server R)" using net_run_inv [OF assms(1)] by blast
  obtain before xs where xs: "of_fd fd log = before @ xs"
    "accounts xs (inp fd) (sent_to fd (drop (mark fd) (rx_io R))) (rx_conn R fd)" by (rule net_invD [OF log(1) assms(2)])
  let ?rest = "unparsed (rx_conn R fd)"
  have a: "inp fd = concat (map fst xs) @ ?rest" "framed xs ?rest" "no_command ?rest" "conn_ok (rx_conn R fd)"
    using xs(2) by (simp_all add: accounts_def)
  obtain k where k: "k \<le> length reqs" "map fst xs = map resp_encode (take k reqs)"
    "?rest @ later = concat (map resp_encode (drop k reqs))"
    using framed_requests [OF a(2) _ assms(3)] a(1) assms(4) by auto
  have "length ?rest < length (resp_encode (reqs ! k))" if "k < length reqs"
    by (rule incomplete_request [OF a(3), of later _ "drop (Suc k) reqs"])
      (use that k(3) assms(3) in \<open>simp_all add: Cons_nth_drop_Suc list_all_length flip: list.map concat.simps\<close>)
  then show ?thesis
    by (intro exI [of _ log] exI [of _ before] exI [of _ xs] exI [of _ k] exI [of _ ?rest])
      (use log(2) xs a k in \<open>auto simp: accounts_def\<close>)
qed

text \<open>A client that sends the request \<open>X\<close> in two pieces, cut behind the header.\<close>

definition example_recv :: "string \<Rightarrow> int recv_env" where
  "example_recv d = \<lparr>v_grow = True, v_recv = Bytes d, v_amok = \<lambda>_. all_ok, v_env = \<lambda>_. calm_env int_fops 0,
     v_wok = all_ok, v_send = WouldBlock, v_ok = True\<rparr>"

definition example_event :: "int \<Rightarrow> string \<Rightarrow> int event" where
  "example_event fd d = \<lparr>ev_fd = fd, ev_in = True, ev_out = False, ev_accept = Some 4, ev_mok = all_ok, ev_ctl = True,
     ev_recv = example_recv d, ev_send = WouldBlock\<rparr>"

lemma example_pieces:
  "resp_parse_one_command (CHR ''*'' # dec 1 @ CRLF) = RespBad"
  "resp_encode [''X''] = (CHR ''*'' # dec 1 @ CRLF) @ resp_bulk ''X''"
  "kvs_protocol all_ok (calm_env int_fops 0) 4 (resp_encode [''X'']) booted =
     Inr (26, Some (''-ERR unknown command '' @ [CHR 0x27] @ ''X'' @ [CHR 0x27] @ CRLF), booted)"
proof -
  show "resp_parse_one_command (CHR ''*'' # dec 1 @ CRLF) = RespBad"
    using resp_parse_header [of 1 "[]"] by (simp add: at_def)
  show "resp_encode [''X''] = (CHR ''*'' # dec 1 @ CRLF) @ resp_bulk ''X''" by (simp add: resp_encode_def)
  have "lookup_command ''X'' = None" by code_simp
  moreover have "kvs_protocol all_ok (calm_env int_fops 0) 4 (resp_encode [''X'']) booted =
      kvs_execute_command (calm_env int_fops 0) 4 [''X''] (resp_encode [''X'']) booted"
    by (rule protocol_encode) simp_all
  ultimately show "kvs_protocol all_ok (calm_env int_fops 0) 4 (resp_encode [''X'']) booted =
     Inr (26, Some (''-ERR unknown command '' @ [CHR 0x27] @ ''X'' @ [CHR 0x27] @ CRLF), booted)"
    by (simp add: kvs_execute_command_def answer_def calm_env_def)
qed

lemma example_recv_event:
  assumes "conn_fd_valid fd" "c_recv_callback c = RecvCb" "c_rbuffer c = Some b" "d \<noteq> []" "rx_conn R fd = c"
    "length (b @ d) < 100" "c_rbuf_size c = BUF_SIZE"
    "recv_loop (\<lambda>_. all_ok) (\<lambda>_. calm_env int_fops 0) all_ok 0 fd (c\<lparr>c_rbuffer := Some (b @ d)\<rparr>) (rx_server R) = Inr p"
  shows "p = Malformed c1 s1 \<Longrightarrow> dispatch (example_event fd d) R = Inr (put_conn fd c1 (R\<lparr>rx_server := s1\<rparr>))"
    "p = Parsed c1 s1 \<Longrightarrow> c_recv_callback c1 = RecvCb \<Longrightarrow>
      \<exists>R'. dispatch (example_event fd d) R = Inr R' \<and> c_recv_callback (rx_conn R' fd) = RecvCb"
  using assms
  by (auto simp: dispatch_def dispatch_in_def dispatch_out_def example_event_def example_recv_def recv_cb_def make_room_def
      BUF_SIZE_def INT_MAX_def bytes_def send_cb_def shift_left_keeps Let_def)

lemma example_step:
  assumes "\<exists>mark. net_run s0 inp mark R" "conn_fd_valid (ev_fd ev)" "dispatch ev R = Inr R'"
    "\<And>fd. inp' fd = (if opens ev R = Some fd then [] else inp fd @ brings ev R fd)"
  shows "\<exists>mark. net_run s0 inp' mark R'"
proof -
  have i: "inp' = (\<lambda>fd. if opens ev R = Some fd then [] else inp fd @ brings ev R fd)" using assms(4) by blast
  obtain mark where m: "net_run s0 inp mark R" using assms(1) by blast
  show ?thesis unfolding i by (rule exI, rule net_run.event [OF m assms(2,3)])
qed

lemma example_run:
  "\<exists>mark R. net_run booted (\<lambda>fd. if fd = 4 then resp_encode [''X''] else []) mark R \<and> c_recv_callback (rx_conn R 4) = RecvCb"
proof -
  let ?p = "CHR ''*'' # dec 1 @ CRLF"
  define c0 where "c0 = zero_conn\<lparr>c_fd := 4, c_recv_callback := RecvCb, c_send_callback := SendCb, c_rbuffer := Some [],
    c_rbuf_size := BUF_SIZE, c_wbuffer := Some [], c_wbuf_size := BUF_SIZE\<rparr>"
  define c1 where "c1 = c0\<lparr>c_rbuffer := Some ?p\<rparr>"
  have len: "length ?p < 20" "length (resp_encode [''X'']) < 30" by (simp_all add: dec.simps resp_encode_def resp_bulk_def)
  have v: "conn_fd_valid 3" "conn_fd_valid 4" by (simp_all add: conn_fd_valid_def CONNECTION_SIZE_def)
  define R0 :: "int reactor" where "R0 = snd (reactor_start 3 True booted)"
  have R0: "reactor_start 3 True booted = (0, R0)" "c_recv_callback (rx_conn R0 3) = AcceptCb"
      "rx_conn R0 4 = zero_conn" "rx_server R0 = booted"
    using v by (simp_all add: R0_def reactor_start_def set_event_def Let_def)
  have "\<exists>R1. dispatch (example_event 3 []) R0 = Inr R1 \<and> rx_conn R1 4 = c0 \<and> rx_server R1 = booted"
    using R0 v by (simp add: dispatch_def dispatch_in_def dispatch_out_def example_event_def
        accept_cb_def event_register_def set_event_def c0_def Let_def zero_conn_def)
  then obtain R1 where R1: "dispatch (example_event 3 []) R0 = Inr R1" "rx_conn R1 4 = c0" "rx_server R1 = booted" by blast
  have l1: "recv_loop am es wo i fd c1 s = Inr (Malformed c1 s)" for am es wo i fd and s :: "int server"
    using example_pieces(1) by (subst recv_loop.simps) (simp add: c1_def c0_def zero_conn_def bytes_def)
  define R2 where "R2 = put_conn 4 c1 (R1\<lparr>rx_server := booted\<rparr>)"
  have R2: "dispatch (example_event 4 ?p) R1 = Inr R2"
    unfolding R2_def
    by (rule example_recv_event(1) [OF v(2), of c0 "[]" ?p R1 "Malformed c1 booted"])
      (use len l1 R1 in \<open>simp_all add: c1_def\<close>, simp_all add: c0_def)
  let ?X = "resp_encode [''X'']" and ?out = "''-ERR unknown command '' @ [CHR 0x27] @ ''X'' @ [CHR 0x27] @ CRLF"
  let ?c = "c1\<lparr>c_rbuffer := Some ?X\<rparr>"
  have parse: "resp_parse_one_command ?X = RespOne (length ?X)" using resp_parse_encode [of "[''X'']" "[]"] by simp
  then have ne: "?X \<noteq> []" using resp_one_pos by blast
  obtain c2 where c2: "append_reply True 26 ?out ?c = Inr (Some c2)" "c_rbuffer c2 = Some ?X" "c_recv_callback c2 = RecvCb"
    by (simp add: append_reply_def c1_def c0_def bytes_def INT_MAX_def BUF_SIZE_def)
  have l3: "recv_loop am es wo i fd (c2\<lparr>c_rparse_offset := length ?X\<rparr>) s = Inr (Parsed (c2\<lparr>c_rparse_offset := length ?X\<rparr>) s)"
    for am es wo i fd and s :: "int server"
    by (subst recv_loop.simps) (simp add: c2 bytes_def)
  have "c_rparse_offset ?c = 0" by (simp add: c1_def c0_def zero_conn_def)
  then have l2: "recv_loop (\<lambda>_. all_ok) (\<lambda>_. calm_env int_fops 0) all_ok 0 4 ?c booted = Inr (Parsed (c2\<lparr>c_rparse_offset := length ?X\<rparr>) booted)"
    using parse ne c2(1) l3 example_pieces(3) by (subst recv_loop.simps) (simp add: bytes_def)
  have "\<exists>R3. dispatch (example_event 4 (resp_bulk ''X'')) R2 = Inr R3 \<and> c_recv_callback (rx_conn R3 4) = RecvCb"
    by (rule example_recv_event(2) [OF v(2), where c = c1 and b = ?p and R = R2 and ?s1.0 = booted and
          p = "Parsed (c2\<lparr>c_rparse_offset := length ?X\<rparr>) booted" and ?c1.0 = "c2\<lparr>c_rparse_offset := length ?X\<rparr>"])
      (unfold example_pieces(2) [symmetric], use len l2 c2(3) in \<open>simp_all add: R2_def c1_def c0_def resp_bulk_def\<close>)
  then obtain R3 where R3: "dispatch (example_event 4 (resp_bulk ''X'')) R2 = Inr R3" "c_recv_callback (rx_conn R3 4) = RecvCb" by blast
  have cb: "c_recv_callback (rx_conn R1 4) = RecvCb" "c_recv_callback (rx_conn R2 4) = RecvCb" using R1(2) by (simp_all add: R2_def c1_def c0_def)
  have "\<exists>mark. net_run booted (\<lambda>_. []) mark R0" using net_run.start [OF R0(1)] by blast
  then have "\<exists>mark. net_run booted (\<lambda>_. []) mark R1"
    by (rule example_step [OF _ _ R1(1)]) (use v R0(2) in \<open>auto simp: example_event_def opens_def brings_def\<close>)
  then have "\<exists>mark. net_run booted (\<lambda>fd. if fd = 4 then ?p else []) mark R2"
    by (rule example_step [OF _ _ R2]) (use v cb in \<open>auto simp: example_event_def example_recv_def opens_def brings_def\<close>)
  then have "\<exists>mark. net_run booted (\<lambda>fd. if fd = 4 then ?X else []) mark R3"
    by (rule example_step [OF _ _ R3(1)])
      (use v cb in \<open>auto simp: example_event_def example_recv_def opens_def brings_def example_pieces(2)\<close>)
  then show ?thesis using R3(2) by blast
qed

theorem reactor_serves_stream_witness:
  "\<exists>inp mark R. net_run booted inp mark R \<and> inp 4 = resp_encode [''X''] \<and>
    (\<exists>log before xs k rest. executes booted log (rx_server R) \<and> of_fd 4 log = before @ xs \<and>
     k \<le> length [[''X'']] \<and> map fst xs = map resp_encode (take k [[''X'']]) \<and>
     inp 4 = concat (map resp_encode (take k [[''X'']])) @ rest \<and>
     (k < length [[''X'']] \<longrightarrow> length rest < length (resp_encode ([[''X'']] ! k))) \<and>
     sent_to 4 (drop (mark 4) (rx_io R)) @ unsent (rx_conn R 4) = concat (map snd xs) \<and> conn_ok (rx_conn R 4))"
proof -
  define inp :: "int \<Rightarrow> string" where "inp = (\<lambda>fd. if fd = 4 then resp_encode [''X''] else [])"
  obtain mark R where r: "net_run booted inp mark R" "c_recv_callback (rx_conn R 4) = RecvCb"
    using example_run unfolding inp_def by blast
  have i: "inp 4 = resp_encode [''X'']" by (simp add: inp_def)
  have "list_all sendable [[''X'']]" by (simp add: sendable_def)
  then show ?thesis
    by (intro exI [of _ inp] exI [of _ mark] exI [of _ R] conjI) (rule r, rule i, rule reactor_serves_stream [OF r, of _ "[]"], assumption, simp add: i)
qed

end
