(* ===== verification/KVS_Fullsync.thy ===== *)
theory KVS_Fullsync
  imports KVS_Rdma KVS_Reactor
begin

text \<open>
  The full synchronisation of a replica: the sending side of \<open>kvs_repli_master.c\<close>, the receiving side
  of \<open>kvs_repli_slave.c\<close>, and both together with the device between them. A handler is one step, as it
  runs under the lock of its connection. The results of the calls into the device, the file system
  and the allocator are arguments.
\<close>

subsection \<open>Master\<close>

record master_slot_state =
  ss_in_use :: bool
  ss_write_done :: bool
  ss_acked :: bool
  ss_is_last :: bool
  ss_slot :: nat
  ss_seq :: nat
  ss_offset :: nat
  ss_len :: nat

definition zero_ss :: master_slot_state where
  "zero_ss = \<lparr>ss_in_use = False, ss_write_done = False, ss_acked = False, ss_is_last = False,
     ss_slot = 0, ss_seq = 0, ss_offset = 0, ss_len = 0\<rparr>"

record master_sync_state =
  t_next_seq :: nat
  t_next_offset :: nat
  t_empty_sent :: bool
  t_done_received :: bool
  t_finishing :: bool
  t_slots :: "nat \<Rightarrow> master_slot_state"

definition master_sync_state_new :: master_sync_state where
  "master_sync_state_new = \<lparr>t_next_seq = 1, t_next_offset = 0, t_empty_sent = False, t_done_received = False,
     t_finishing = False, t_slots = \<lambda>_. zero_ss\<rparr>"

text \<open>The replica, its connection with the state that hangs off it, and what went out on its socket.\<close>

record master =
  ma_replica :: kvs_replica
  ma_conn :: conn_manger
  ma_st :: "master_sync_state option"
  ma_io :: "io list"

definition replica_free_snapshot :: "kvs_replica \<Rightarrow> kvs_replica" where
  "replica_free_snapshot r = r\<lparr>r_buf := None, r_size := 0, r_offset := 0, r_seq := 0\<rparr>"

definition master_has_inflight_locked :: "master_sync_state \<Rightarrow> bool" where
  "master_has_inflight_locked st \<longleftrightarrow> (\<exists>i < RDMA_REPL_WINDOW. ss_in_use (t_slots st i))"

text \<open>\<open>saved\<close> is what \<open>rdb_save_to_memory\<close> gives.\<close>

definition master_prepare_snapshot :: "int \<times> string option \<Rightarrow> kvs_replica \<Rightarrow> int \<times> kvs_replica" where
  "master_prepare_snapshot saved r =
     (let r1 = replica_free_snapshot r in
      if fst saved \<noteq> 0 then (-1, r1)
      else (0, r1\<lparr>r_buf := snd saved, r_size := length (bytes (snd saved)), r_offset := 0, r_seq := 1\<rparr>))"

text \<open>Overwriting the first \<open>n\<close> bytes of a memory area.\<close>

definition overwrite :: "nat \<Rightarrow> string \<Rightarrow> string \<Rightarrow> string" where
  "overwrite n new old = take n new @ drop n old"

definition max_payload :: "conn_manger \<Rightarrow> nat" where
  "max_payload c = min (m_remote_slot_size c - HDR_SIZE) RDMA_REPL_CHUNK_SIZE"

definition chunk_header :: "kvs_replica \<Rightarrow> nat \<Rightarrow> nat \<Rightarrow> nat \<Rightarrow> bool \<Rightarrow> nat \<Rightarrow> rdma_chunk_header" where
  "chunk_header r seq off to_send is_last sl =
     \<lparr>h_magic = RDMA_REPL_MAGIC, h_version = RDMA_REPL_VERSION, h_flags = 0, h_seq = seq, h_offset = off,
      h_total_size = r_size r, h_checksum = rdma_fnv1a64 (take to_send (drop off (bytes (r_buf r)))),
      h_len = to_send, h_is_last = (if is_last then 1 else 0), h_slot_id = sl, h_header_len = HDR_SIZE\<rparr>"

definition master_send_one_locked ::
    "(nat \<Rightarrow> int) \<Rightarrow> kvs_replica \<Rightarrow> conn_manger \<Rightarrow> master_sync_state \<Rightarrow> int \<times> conn_manger \<times> master_sync_state" where
  "master_send_one_locked err r c st =
     (if \<not> m_has_remote_region c then (-1, c, st)
      else if r_size r = 0 \<and> t_empty_sent st then (0, c, st)
      else if r_size r \<noteq> 0 \<and> t_next_offset st \<ge> r_size r then (0, c, st)
      else
        let off = t_next_offset st; seq = t_next_seq st;
            to_send = (if r_size r = 0 then 0 else min (r_size r - off) (max_payload c));
            is_last = (r_size r = 0 \<or> off + to_send \<ge> r_size r);
            sl = (seq - 1) mod m_remote_slot_count c
        in if sl \<ge> RDMA_REPL_WINDOW then (-1, c, st)
        else if ss_in_use (t_slots st sl) then (0, c, st)
        else (case rdma_send_slot_ptr c sl of None \<Rightarrow> (-1, c, st)
          | Some i \<Rightarrow>
              let hdr = chunk_header r seq off to_send is_last sl;
                  old = m_send c i
              in if to_send > 0 \<and> r_buf r = None then (-1, c\<lparr>m_send := (m_send c)(i := old\<lparr>s_hdr := hdr\<rparr>)\<rparr>, st)
              else
                let c1 = c\<lparr>m_send := (m_send c)(i := \<lparr>s_hdr = hdr,
                           s_payload = overwrite to_send (take to_send (drop off (bytes (r_buf r)))) (s_payload old)\<rparr>)\<rparr>;
                    ss = \<lparr>ss_in_use = True, ss_write_done = False, ss_acked = False, ss_is_last = is_last,
                          ss_slot = sl, ss_seq = seq, ss_offset = off, ss_len = to_send\<rparr>;
                    (ret, c2) = post_rdma_writev_slot err i (HDR_SIZE + to_send) sl seq c1
                in if ret \<noteq> 0 then (-1, c2, st\<lparr>t_slots := (t_slots st)(sl := zero_ss)\<rparr>)
                   else (1, c2, st\<lparr>t_slots := (t_slots st)(sl := ss), t_next_seq := seq + 1,
                           t_empty_sent := (r_size r = 0 \<or> t_empty_sent st),
                           t_next_offset := (if r_size r = 0 then off else off + to_send)\<rparr>)))"

text \<open>The loop of \<open>master_pump_locked\<close>; \<open>k\<close> chunks have been sent. Every chunk takes a free slot.\<close>

definition free_slots :: "master_sync_state \<Rightarrow> nat" where
  "free_slots st = card {i. i < RDMA_REPL_WINDOW \<and> \<not> ss_in_use (t_slots st i)}"

lemma send_one_takes_slot:
  assumes "master_send_one_locked err r c st = (ret, c1, st1)" "\<not> ret < 0" "ret \<noteq> 0"
  shows "free_slots st1 < free_slots st"
proof -
  let ?sl = "(t_next_seq st - 1) mod m_remote_slot_count c"
  have sl: "?sl < RDMA_REPL_WINDOW" "\<not> ss_in_use (t_slots st ?sl)"
    and st1: "{i. i < RDMA_REPL_WINDOW \<and> \<not> ss_in_use (t_slots st1 i)} = {i. i < RDMA_REPL_WINDOW \<and> \<not> ss_in_use (t_slots st i)} - {?sl}"
    using assms by (auto simp: master_send_one_locked_def Let_def split: if_splits option.splits prod.splits)
  show ?thesis unfolding free_slots_def st1 by (rule card_Diff1_less) (use sl in auto)
qed

function master_pump_locked ::
    "(nat \<Rightarrow> nat \<Rightarrow> int) \<Rightarrow> nat \<Rightarrow> kvs_replica \<Rightarrow> conn_manger \<Rightarrow> master_sync_state \<Rightarrow> int \<times> conn_manger \<times> master_sync_state" where
  "master_pump_locked errs k r c st =
     (if t_done_received st then (if k > 0 then 1 else 0, c, st)
      else (case master_send_one_locked (errs k) r c st of (ret, c1, st1) \<Rightarrow>
        if ret < 0 then (-1, rdma_disconnect c1, st1)
        else if ret = 0 then (if k > 0 then 1 else 0, c1, st1)
        else master_pump_locked errs (k + 1) r c1 st1))"
  by pat_completeness auto

termination master_pump_locked
  by (relation "measure (\<lambda>(errs, k, r, c, st). free_slots st)") (auto intro: send_one_takes_slot [OF sym])

declare master_pump_locked.simps [simp del]

definition master_finish_fullsync :: "master \<Rightarrow> master" where
  "master_finish_fullsync m =
     (let r = replica_free_snapshot (ma_replica m) in
      m\<lparr>ma_replica := r\<lparr>r_state := KVS_REPL_STATE_WAIT_FINSYNC\<rparr>,
        ma_io := ma_io m @ (if r_fd r \<ge> 0 then [Send (r_fd r) (''+DONE'' @ CRLF)] else [])\<rparr>)"

definition master_should_finish_locked :: "master_sync_state \<Rightarrow> bool" where
  "master_should_finish_locked st \<longleftrightarrow> t_done_received st \<and> \<not> t_finishing st \<and> \<not> master_has_inflight_locked st"

definition master_release_completed_slots_locked :: "master_sync_state \<Rightarrow> master_sync_state" where
  "master_release_completed_slots_locked st =
     st\<lparr>t_slots := (\<lambda>i. if i < RDMA_REPL_WINDOW \<and> ss_in_use (t_slots st i) \<and> ss_write_done (t_slots st i) \<and>
         ss_acked (t_slots st i) then zero_ss else t_slots st i)\<rparr>"

text \<open>What both completion handlers end with: release, send more, finish.\<close>

definition master_continue :: "(nat \<Rightarrow> nat \<Rightarrow> int) \<Rightarrow> master_sync_state \<Rightarrow> master \<Rightarrow> master" where
  "master_continue errs st m =
     (case master_pump_locked errs 0 (ma_replica m) (ma_conn m) (master_release_completed_slots_locked st) of
        (_, c, st1) \<Rightarrow>
          if master_should_finish_locked st1
          then master_finish_fullsync (m\<lparr>ma_conn := c, ma_st := Some (st1\<lparr>t_finishing := True\<rparr>)\<rparr>)
          else m\<lparr>ma_conn := c, ma_st := Some st1\<rparr>)"

text \<open>A completion of the send queue; \<open>i\<close> is the context its \<open>wr_id\<close> points to.\<close>

definition on_master_write_complete ::
    "bool \<Rightarrow> (nat \<Rightarrow> int) \<Rightarrow> (nat \<Rightarrow> nat \<Rightarrow> int) \<Rightarrow> nat \<Rightarrow> master \<Rightarrow> master" where
  "on_master_write_complete ok cerr errs i m =
     (let ctx = m_send_ctx (ma_conn m) i in
      if \<not> ok then m\<lparr>ma_conn := rdma_disconnect (ma_conn m)\<rparr>
      else
        let c = (ma_conn m)\<lparr>m_completed_send := m_completed_send (ma_conn m) + 1\<rparr>; m1 = m\<lparr>ma_conn := c\<rparr> in
        if x_type ctx \<noteq> RDMA_WR_CTX_WRITE then m1
        else (case ma_st m of None \<Rightarrow> m1
          | Some st \<Rightarrow>
              let sl = x_slot ctx in
              if sl < RDMA_REPL_WINDOW \<and> ss_in_use (t_slots st sl) \<and> ss_seq (t_slots st sl) = x_seq ctx
              then let (r, c1) = post_ctrl_slot cerr sl RDMA_CTRL_CHUNK (x_seq ctx) sl 0 c;
                       c2 = (if r \<noteq> 0 then rdma_disconnect c1 else c1);
                       st1 = st\<lparr>t_slots := (t_slots st)(sl := (t_slots st sl)\<lparr>ss_write_done := True\<rparr>)\<rparr>
                   in master_continue errs st1 (m1\<lparr>ma_conn := c2\<rparr>)
              else master_continue errs st m1))"

definition acknowledge :: "nat \<Rightarrow> master_sync_state \<Rightarrow> master_sync_state" where
  "acknowledge seq st =
     st\<lparr>t_slots := (\<lambda>i. if i < RDMA_REPL_WINDOW \<and> ss_in_use (t_slots st i) \<and> ss_seq (t_slots st i) \<le> seq
         then (t_slots st i)\<lparr>ss_acked := True\<rparr> else t_slots st i)\<rparr>"

text \<open>A completion of the receive queue; \<open>i\<close> is the context its \<open>wr_id\<close> points to.\<close>

definition on_master_recv_complete ::
    "bool \<Rightarrow> bool \<Rightarrow> (nat \<Rightarrow> nat \<Rightarrow> int) \<Rightarrow> nat \<Rightarrow> master \<Rightarrow> master" where
  "on_master_recv_complete ok rok errs i m =
     (let ctx = m_recv_ctx (ma_conn m) i in
      if \<not> ok then m\<lparr>ma_conn := rdma_disconnect (ma_conn m)\<rparr>
      else
        let c = (ma_conn m)\<lparr>m_completed_recv := m_completed_recv (ma_conn m) + 1\<rparr> in
        (case rdma_ctrl_recv_slot_ptr c (x_slot ctx) of None \<Rightarrow> m\<lparr>ma_conn := rdma_disconnect c\<rparr>
         | Some j \<Rightarrow>
            let k = m_ctrl c j; (r, c1) = post_recv_slot rok (x_slot ctx) c; m1 = m\<lparr>ma_conn := c1\<rparr> in
            if r \<noteq> 0 then m1
            else (case ma_st m of None \<Rightarrow> m1
              | Some st \<Rightarrow>
                  if k_magic k \<noteq> RDMA_REPL_MAGIC \<or> k_type k = RDMA_CTRL_ERROR \<or>
                     (k_type k \<noteq> RDMA_CTRL_ACK \<and> k_type k \<noteq> RDMA_CTRL_DONE)
                  then m\<lparr>ma_conn := rdma_disconnect c1\<rparr>
                  else
                    let st1 = acknowledge (k_seq k) st;
                        st2 = (if k_type k = RDMA_CTRL_DONE then st1\<lparr>t_done_received := True\<rparr> else st1)
                    in master_continue errs st2
                         (m1\<lparr>ma_replica := (ma_replica m)\<lparr>r_offset := int (k_offset k), r_seq := int (k_seq k) + 1\<rparr>\<rparr>))))"

text \<open>\<open>mok\<close> is the allocation of the synchronisation state, \<open>rok i\<close> the posting of the \<open>i\<close>-th receive.\<close>

definition master_start_fullsync ::
    "int \<times> string option \<Rightarrow> bool \<Rightarrow> mallocs \<Rightarrow> (nat \<Rightarrow> nat \<Rightarrow> int) \<Rightarrow> master \<Rightarrow> int \<times> master" where
  "master_start_fullsync saved mok rok errs m =
     (case master_prepare_snapshot saved (ma_replica m) of (p, r) \<Rightarrow>
        if p \<noteq> 0 then (-1, m\<lparr>ma_replica := r, ma_conn := rdma_disconnect (ma_conn m)\<rparr>)
        else if \<not> mok then (-1, m\<lparr>ma_replica := replica_free_snapshot r, ma_conn := rdma_disconnect (ma_conn m)\<rparr>)
        else (case post_recv_n rok RDMA_REPL_CTRL_RECV_DEPTH (ma_conn m) of (q, c) \<Rightarrow>
          let m1 = m\<lparr>ma_replica := r, ma_conn := c, ma_st := Some master_sync_state_new\<rparr> in
          if q \<noteq> 0 then (-1, m1\<lparr>ma_conn := rdma_disconnect c\<rparr>)
          else (case master_pump_locked errs 0 r c master_sync_state_new of (ret, c1, st1) \<Rightarrow>
             (if ret < 0 then -1 else 0, m1\<lparr>ma_conn := c1, ma_st := Some st1\<rparr>))))"

subsection \<open>Replica\<close>

text \<open>\<open>sl_tmp\<close> and \<open>sl_file\<close> are the temporary file and the snapshot file.\<close>

record 'f slave =
  sl_conn :: conn_manger
  sl_rdb_fd :: bool
  sl_rdb_offset :: nat
  sl_next_seq :: nat
  sl_last_acked_seq :: nat
  sl_done_posted :: bool
  sl_done_seq :: nat
  sl_tmp :: cptr
  sl_file :: cptr
  sl_server :: "'f server"

text \<open>The results of the calls \<open>write_full\<close> makes; an empty list is a call that has not returned.\<close>

datatype write_result = Wrote nat | Interrupted | WriteFails

fun write_full :: "write_result list \<Rightarrow> string \<Rightarrow> string \<Rightarrow> (bool \<times> string) option" where
  "write_full ws [] f = Some (True, f)"
| "write_full [] (b # buf) f = None"
| "write_full (Interrupted # ws) (b # buf) f = write_full ws (b # buf) f"
| "write_full (WriteFails # ws) (b # buf) f = Some (False, f)"
| "write_full (Wrote n # ws) (b # buf) f =
     (if n = 0 then Some (False, f) else write_full ws (drop n (b # buf)) (f @ take n (b # buf)))"

record 'f chunk_env =
  z_open :: bool
  z_write :: "write_result list"
  z_fsync :: bool
  z_rename :: bool
  z_seek :: bool
  z_buf :: bool
  z_read :: bool
  z_mk :: "nat \<Rightarrow> mallocs"
  z_region :: "nat \<Rightarrow> hashnode list option"
  z_env :: "'f env"
  z_bmok :: mallocs
  z_err :: "nat \<Rightarrow> int"
  z_rok :: bool

definition open_slave_rdb :: "bool \<Rightarrow> 'f slave \<Rightarrow> int \<times> 'f slave" where
  "open_slave_rdb ok s =
     (if sl_rdb_fd s then (0, s)
      else if ok then (0, s\<lparr>sl_rdb_fd := True, sl_tmp := Some []\<rparr>) else (-1, s))"

definition commit_slave_rdb :: "bool \<Rightarrow> bool \<Rightarrow> nat \<Rightarrow> 'f slave \<Rightarrow> int \<times> 'f slave" where
  "commit_slave_rdb fsync_ok rename_ok total_size s =
     (let s1 = s\<lparr>sl_rdb_fd := False\<rparr> in
      if sl_rdb_fd s \<and> \<not> fsync_ok then (-1, s1)
      else if total_size = 0 then (0, s1\<lparr>sl_tmp := None, sl_file := None\<rparr>)
      else if rename_ok \<and> sl_tmp s \<noteq> None then (0, s1\<lparr>sl_file := sl_tmp s, sl_tmp := None\<rparr>)
      else (-1, s1))"

definition load_received_rdb :: "'f chunk_env \<Rightarrow> nat \<Rightarrow> 'f slave \<Rightarrow> (int \<times> 'f slave) option" where
  "load_received_rdb z total_size s =
     map_option (\<lambda>(r, srv). (r, s\<lparr>sl_server := srv\<rparr>))
       (if total_size = 0 then kvs_reset_data_engines (z_mk z) (z_region z) (sl_server s)
        else rdb_load_files (sl_file s) (z_seek z) (z_buf z) (z_read z) (z_mk z) (z_region z) (z_env z) (z_bmok z) (sl_server s))"

definition slave_post_ack :: "(nat \<Rightarrow> int) \<Rightarrow> nat \<Rightarrow> nat \<Rightarrow> 'f slave \<Rightarrow> int \<times> 'f slave" where
  "slave_post_ack err seq off s =
     (case post_ctrl_slot err (seq mod RDMA_REPL_SEND_SLOTS) RDMA_CTRL_ACK seq off 0 (sl_conn s) of (r, c) \<Rightarrow>
        if r \<noteq> 0 then (-1, s\<lparr>sl_conn := c\<rparr>) else (0, s\<lparr>sl_conn := c, sl_last_acked_seq := seq\<rparr>))"

definition slave_post_error :: "(nat \<Rightarrow> int) \<Rightarrow> nat \<Rightarrow> nat \<Rightarrow> nat \<Rightarrow> 'f slave \<Rightarrow> int \<times> 'f slave" where
  "slave_post_error err seq off status s =
     (-1, s\<lparr>sl_conn := snd (post_ctrl_slot err (seq mod RDMA_REPL_SEND_SLOTS) RDMA_CTRL_ERROR seq off status (sl_conn s))\<rparr>)"

text \<open>Storing the payload of an accepted chunk in the temporary file; \<open>Inl\<close> is an error status.\<close>

definition store_payload :: "'f chunk_env \<Rightarrow> rdma_chunk_header \<Rightarrow> string \<Rightarrow> 'f slave \<Rightarrow> ((nat \<times> 'f slave) + 'f slave) option" where
  "store_payload z hdr payload s =
     (if h_len hdr = 0 then Some (Inr s)
      else if rdma_fnv1a64 payload \<noteq> h_checksum hdr then Some (Inl (107, s))
      else (case open_slave_rdb (z_open z) s of (r, s1) \<Rightarrow>
        if r \<noteq> 0 then Some (Inl (108, s1))
        else map_option (\<lambda>(ok, f). let s2 = s1\<lparr>sl_tmp := Some f\<rparr> in if ok then Inr s2 else Inl (109, s2))
               (write_full (z_write z) payload (bytes (sl_tmp s1)))))"

text \<open>The last chunk: commit, load, report.\<close>

definition finish_rdb :: "'f chunk_env \<Rightarrow> rdma_chunk_header \<Rightarrow> 'f slave \<Rightarrow> (int \<times> 'f slave) option" where
  "finish_rdb z hdr s =
     (case commit_slave_rdb (z_fsync z) (z_rename z) (h_total_size hdr) s of (r, s1) \<Rightarrow>
        if r \<noteq> 0 then Some (slave_post_error (z_err z) (h_seq hdr) (sl_rdb_offset s) 110 s1)
        else (case load_received_rdb z (h_total_size hdr) s1 of None \<Rightarrow> None
          | Some (q, s2) \<Rightarrow>
              if q \<noteq> 0 then Some (slave_post_error (z_err z) (h_seq hdr) (sl_rdb_offset s) 111 s2)
              else (case post_ctrl_slot (z_err z) (h_seq hdr mod RDMA_REPL_SEND_SLOTS) RDMA_CTRL_DONE (h_seq hdr)
                           (sl_rdb_offset s) 0 (sl_conn s2) of (p, c) \<Rightarrow>
                let s3 = s2\<lparr>sl_conn := c\<rparr> in
                Some (if p \<noteq> 0 then (-1, s3) else (0, s3\<lparr>sl_done_posted := True, sl_done_seq := h_seq hdr\<rparr>)))))"

definition read_payload :: "nat \<Rightarrow> rslot \<Rightarrow> string" where
  "read_payload n sl = take n (s_payload sl @ replicate n (CHR 0x00))"

definition process_rdma_chunk :: "'f chunk_env \<Rightarrow> nat \<Rightarrow> 'f slave \<Rightarrow> (int \<times> 'f slave) option" where
  "process_rdma_chunk z data_slot s =
     (let c = sl_conn s; fail = (\<lambda>seq status. Some (slave_post_error (z_err z) seq (sl_rdb_offset s) status s)) in
      if data_slot \<ge> m_local_slot_count c then fail (sl_next_seq s) 100
      else (case rdma_data_slot_ptr c data_slot of None \<Rightarrow> Some (-1, s)
        | Some base \<Rightarrow>
            let hdr = s_hdr base in
            if h_magic hdr \<noteq> RDMA_REPL_MAGIC \<or> h_version hdr \<noteq> RDMA_REPL_VERSION then fail (sl_next_seq s) 101
            else if h_header_len hdr \<noteq> HDR_SIZE then fail (h_seq hdr) 102
            else if h_slot_id hdr \<noteq> data_slot then fail (h_seq hdr) 103
            else if h_seq hdr \<noteq> sl_next_seq s then fail (h_seq hdr) 104
            else if h_len hdr > m_local_slot_size c - HDR_SIZE then fail (h_seq hdr) 105
            else if sl_rdb_offset s \<noteq> h_offset hdr then fail (h_seq hdr) 106
            else (case store_payload z hdr (read_payload (h_len hdr) base) s of None \<Rightarrow> None
              | Some (Inl (status, s1)) \<Rightarrow> Some (slave_post_error (z_err z) (h_seq hdr) (sl_rdb_offset s1) status s1)
              | Some (Inr s1) \<Rightarrow>
                  let s2 = s1\<lparr>sl_rdb_offset := sl_rdb_offset s1 + h_len hdr\<rparr> in
                  if h_is_last hdr \<noteq> 0 then finish_rdb z hdr s2
                  else
                    let s3 = s2\<lparr>sl_next_seq := sl_next_seq s2 + 1\<rparr> in
                    if h_seq hdr - sl_last_acked_seq s3 \<ge> RDMA_REPL_ACK_EVERY
                    then (case slave_post_ack (z_err z) (h_seq hdr) (sl_rdb_offset s3) s3 of (r, s4) \<Rightarrow>
                            Some (if r \<noteq> 0 then (-1, s4) else (0, s4)))
                    else Some (0, s3))))"

text \<open>The two kinds of completion, by the context that \<open>wr_id\<close> points to.\<close>

datatype wc = WcSend nat | WcRecv nat

definition with_conn :: "(conn_manger \<Rightarrow> conn_manger) \<Rightarrow> 'f slave \<Rightarrow> 'f slave" where
  "with_conn f s = s\<lparr>sl_conn := f (sl_conn s)\<rparr>"

definition wc_ctx :: "conn_manger \<Rightarrow> wc \<Rightarrow> rdma_wr_ctx" where
  "wc_ctx c w = (case w of WcSend i \<Rightarrow> m_send_ctx c i | WcRecv i \<Rightarrow> m_recv_ctx c i)"

definition on_rdma_recv_complete :: "bool \<Rightarrow> 'f chunk_env \<Rightarrow> wc \<Rightarrow> 'f slave \<Rightarrow> 'f slave option" where
  "on_rdma_recv_complete ok z w s =
     (let ctx = wc_ctx (sl_conn s) w in
      if \<not> ok then Some (with_conn (rdma_disconnect o rdma_mark_failed) s)
      else if x_type ctx = RDMA_WR_CTX_SEND then
        let s1 = with_conn (\<lambda>c. c\<lparr>m_completed_send := m_completed_send c + 1\<rparr>) s in
        Some (if sl_done_posted s \<and> x_seq ctx = sl_done_seq s then with_conn rdma_mark_done s1 else s1)
      else if x_type ctx \<noteq> RDMA_WR_CTX_RECV then Some s
      else
        let s1 = with_conn (\<lambda>c. c\<lparr>m_completed_recv := m_completed_recv c + 1\<rparr>) s in
        (case w of WcSend _ \<Rightarrow> Some s1
         | WcRecv _ \<Rightarrow>
            (case rdma_ctrl_recv_slot_ptr (sl_conn s1) (x_slot ctx) of
               None \<Rightarrow> Some (with_conn (rdma_disconnect o rdma_mark_failed) s1)
             | Some j \<Rightarrow>
                let k = m_ctrl (sl_conn s1) j in
                if k_magic k \<noteq> RDMA_REPL_MAGIC \<or> k_type k \<noteq> RDMA_CTRL_CHUNK
                then Some (with_conn (rdma_disconnect o rdma_mark_failed) s1)
                else (case process_rdma_chunk z (k_offset k mod 2 ^ 32) s1 of None \<Rightarrow> None
                  | Some (r, s2) \<Rightarrow>
                      if r \<noteq> 0 then Some (with_conn (rdma_disconnect o rdma_mark_failed) s2)
                      else if sl_done_posted s2 then Some s2
                      else (case post_recv_slot (z_rok z) (x_slot ctx) (sl_conn s2) of (q, c) \<Rightarrow>
                        Some (if q \<noteq> 0 then with_conn rdma_mark_failed (s2\<lparr>sl_conn := c\<rparr>) else s2\<lparr>sl_conn := c\<rparr>))))))"

subsection \<open>Both sides and the device\<close>

text \<open>
  The device executes the work of a send queue in order: a write copies the bytes that are then in
  the send slot to the remote address, a send copies them to the next posted receive. The
  completion of a work request is reported some time after its execution, in order; the
  completions of sends and of receives come in any order. The replica may send FINSYNC at any time.
  \<open>y_mc\<close>, \<open>y_sc\<close> are the contexts of executed
  and not yet completed sends, \<open>y_mr\<close>, \<open>y_sr\<close> the filled receives whose completions are outstanding.
\<close>

record 'f sync_sys =
  y_m :: master
  y_s :: "'f slave"
  y_mc :: "nat list"
  y_mr :: "nat list"
  y_sc :: "nat list"
  y_sr :: "nat list"

definition dma_write :: "nat \<Rightarrow> rslot \<Rightarrow> rslot \<Rightarrow> rslot" where
  "dma_write len src dst = \<lparr>s_hdr = s_hdr src, s_payload = overwrite (len - HDR_SIZE) (s_payload src) (s_payload dst)\<rparr>"

abbreviation with_mconn :: "(conn_manger \<Rightarrow> conn_manger) \<Rightarrow> master \<Rightarrow> master" where
  "with_mconn f m \<equiv> m\<lparr>ma_conn := f (ma_conn m)\<rparr>"

inductive sync_step :: "('f chunk_env \<Rightarrow> bool) \<Rightarrow> 'f sync_sys \<Rightarrow> 'f sync_sys \<Rightarrow> bool" for Z where
  m_write: "m_sq (ma_conn (y_m Y)) = WWrite i len addr # q \<Longrightarrow>
    addr = m_base (sl_conn (y_s Y)) + j * m_local_slot_size (sl_conn (y_s Y)) \<Longrightarrow> j < m_local_slot_count (sl_conn (y_s Y)) \<Longrightarrow>
    sync_step Z Y (Y\<lparr>y_m := with_mconn (\<lambda>c. c\<lparr>m_sq := q\<rparr>) (y_m Y), y_mc := y_mc Y @ [i],
      y_s := with_conn (\<lambda>c. c\<lparr>m_data := (m_data c)(j := dma_write len (m_send (ma_conn (y_m Y)) i) (m_data c j))\<rparr>) (y_s Y)\<rparr>)"
| m_send: "m_sq (ma_conn (y_m Y)) = WSend i len # q \<Longrightarrow> m_rq (sl_conn (y_s Y)) = j # rq \<Longrightarrow>
    sync_step Z Y (Y\<lparr>y_m := with_mconn (\<lambda>c. c\<lparr>m_sq := q\<rparr>) (y_m Y), y_mc := y_mc Y @ [i],
      y_s := with_conn (\<lambda>c. c\<lparr>m_rq := rq, m_ctrl := (m_ctrl c)(j := get_ctrl (m_send (ma_conn (y_m Y)) i))\<rparr>) (y_s Y),
      y_sr := y_sr Y @ [j]\<rparr>)"
| s_send: "m_sq (sl_conn (y_s Y)) = WSend i len # q \<Longrightarrow> m_rq (ma_conn (y_m Y)) = j # rq \<Longrightarrow>
    sync_step Z Y (Y\<lparr>y_s := with_conn (\<lambda>c. c\<lparr>m_sq := q\<rparr>) (y_s Y), y_sc := y_sc Y @ [i],
      y_m := with_mconn (\<lambda>c. c\<lparr>m_rq := rq, m_ctrl := (m_ctrl c)(j := get_ctrl (m_send (sl_conn (y_s Y)) i))\<rparr>) (y_m Y),
      y_mr := y_mr Y @ [j]\<rparr>)"
| m_sent: "y_mc Y = i # q \<Longrightarrow>
    sync_step Z Y (Y\<lparr>y_mc := q, y_m := on_master_write_complete ok cerr errs i (y_m Y)\<rparr>)"
| m_received: "y_mr Y = i # q \<Longrightarrow>
    sync_step Z Y (Y\<lparr>y_mr := q, y_m := on_master_recv_complete ok rok errs i (y_m Y)\<rparr>)"
| s_sent: "y_sc Y = i # q \<Longrightarrow> Z z \<Longrightarrow> on_rdma_recv_complete ok z (WcSend i) (y_s Y) = Some s' \<Longrightarrow>
    sync_step Z Y (Y\<lparr>y_sc := q, y_s := s'\<rparr>)"
| s_received: "y_sr Y = i # q \<Longrightarrow> Z z \<Longrightarrow> on_rdma_recv_complete ok z (WcRecv i) (y_s Y) = Some s' \<Longrightarrow>
    sync_step Z Y (Y\<lparr>y_sr := q, y_s := s'\<rparr>)"
| m_finsync: "kvs_replication_master_handle_finsync fd [ma_replica (y_m Y)] = ([r], out) \<Longrightarrow>
    sync_step Z Y (Y\<lparr>y_m := (y_m Y)\<lparr>ma_replica := r, ma_io := ma_io (y_m Y) @ out\<rparr>\<rparr>)"

text \<open>The replica before it connects: its receives are posted, its region goes to the master.\<close>

definition slave_initial :: "conn_manger \<Rightarrow> cptr \<Rightarrow> cptr \<Rightarrow> 'f server \<Rightarrow> 'f slave" where
  "slave_initial c tmp old srv = \<lparr>sl_conn = c, sl_rdb_fd = False, sl_rdb_offset = 0, sl_next_seq = 1,
     sl_last_acked_seq = 0, sl_done_posted = False, sl_done_seq = 0, sl_tmp = tmp, sl_file = old, sl_server = srv\<rparr>"

inductive sync_run ::
    "('f chunk_env \<Rightarrow> bool) \<Rightarrow> int \<times> string option \<Rightarrow> cptr \<Rightarrow> 'f server \<Rightarrow> 'f sync_sys \<Rightarrow> bool" for Z saved old srv where
  start: "post_recv_n rok RDMA_REPL_WINDOW (fresh_conn base key) = (0, cs) \<Longrightarrow> rdma_get_local_region cs = Some g \<Longrightarrow>
    rdma_set_remote_region (fresh_conn mbase mkey) g = (0, cm) \<Longrightarrow> r_state r = KVS_REPL_STATE_WAIT_RDMA \<Longrightarrow>
    master_start_fullsync saved True rok' errs \<lparr>ma_replica = r, ma_conn = cm, ma_st = None, ma_io = []\<rparr> = (0, m) \<Longrightarrow>
    sync_run Z saved old srv \<lparr>y_m = m, y_s = slave_initial cs tmp old srv, y_mc = [], y_mr = [], y_sc = [], y_sr = []\<rparr>"
| step: "sync_run Z saved old srv Y \<Longrightarrow> sync_step Z Y Y' \<Longrightarrow> sync_run Z saved old srv Y'"

subsection \<open>Chunks\<close>

abbreviation P :: nat where "P \<equiv> RDMA_REPL_CHUNK_SIZE"

definition slot_of :: "nat \<Rightarrow> nat" where
  "slot_of k = (k - 1) mod RDMA_REPL_WINDOW"

definition piece :: "string \<Rightarrow> nat \<Rightarrow> string" where
  "piece D k = take P (drop ((k - 1) * P) D)"

text \<open>The header of the \<open>k\<close>-th chunk of a snapshot, and a slot that holds this chunk.\<close>

definition good_hdr :: "string \<Rightarrow> nat \<Rightarrow> rdma_chunk_header" where
  "good_hdr D k = \<lparr>h_magic = RDMA_REPL_MAGIC, h_version = RDMA_REPL_VERSION, h_flags = 0, h_seq = k,
     h_offset = (k - 1) * P, h_total_size = length D, h_checksum = rdma_fnv1a64 (piece D k), h_len = length (piece D k),
     h_is_last = (if k * P \<ge> length D then 1 else 0), h_slot_id = slot_of k, h_header_len = HDR_SIZE\<rparr>"

definition good :: "string \<Rightarrow> nat \<Rightarrow> rslot \<Rightarrow> bool" where
  "good D k x \<longleftrightarrow> s_hdr x = good_hdr D k \<and> take (length (piece D k)) (s_payload x) = piece D k"

text \<open>A slot whose contents the replica refuses.\<close>

definition rejected :: "rslot \<Rightarrow> bool" where
  "rejected x \<longleftrightarrow> h_magic (s_hdr x) \<noteq> RDMA_REPL_MAGIC \<or> h_version (s_hdr x) \<noteq> RDMA_REPL_VERSION"

lemma rejected_zero [simp]: "rejected zero_slot"
  by (simp add: rejected_def zero_slot_def zero_header_def RDMA_REPL_MAGIC_def)

lemma rejected_ctrl: "k_type k \<noteq> RDMA_REPL_VERSION \<Longrightarrow> k_type k < 2 ^ 16 \<Longrightarrow> rejected (put_ctrl k x)"
  by (simp add: rejected_def put_ctrl_def)

lemma dma_keeps:
  "rejected x \<Longrightarrow> rejected (dma_write n x y)"
  "good D k x \<Longrightarrow> good D k (dma_write (HDR_SIZE + length (piece D k)) x y)"
  by (auto simp: rejected_def good_def dma_write_def overwrite_def)

definition writes :: "work list \<Rightarrow> work list" where
  "writes q = filter (\<lambda>w. case w of WWrite _ _ _ \<Rightarrow> True | _ \<Rightarrow> False) q"

lemma writes_simps [simp]:
  "writes [] = []" "writes (WSend i n # q) = writes q" "writes (WWrite i n a # q) = WWrite i n a # writes q"
  "writes (q @ q') = writes q @ writes q'"
  by (simp_all add: writes_def)

definition write_of :: "string \<Rightarrow> nat \<Rightarrow> nat \<Rightarrow> work" where
  "write_of D b k = WWrite (slot_of k) (HDR_SIZE + length (piece D k)) (b + slot_of k * RDMA_REPL_SLOT_SIZE)"

text \<open>A control message the master may act on: it acknowledges no more than has been stored.\<close>

definition ctrl_ok :: "nat \<Rightarrow> bool \<Rightarrow> rdma_ctrl_msg \<Rightarrow> bool" where
  "ctrl_ok acc dn k \<longleftrightarrow> (k_type k = RDMA_CTRL_ACK \<or> k_type k = RDMA_CTRL_DONE \<longrightarrow> k_seq k \<le> acc) \<and>
     (k_type k = RDMA_CTRL_DONE \<longrightarrow> dn)"

subsection \<open>Invariant of the master\<close>

text \<open>\<open>d\<close> chunks have reached the replica, \<open>acc\<close> have been stored by it, \<open>dn\<close> says that it is done;
  \<open>b\<close> is the address of its receive buffer.\<close>

definition linked :: "nat \<Rightarrow> conn_manger \<Rightarrow> bool" where
  "linked b c \<longleftrightarrow> m_ready c \<and> m_has_remote_region c \<and> m_remote_slot_size c = RDMA_REPL_SLOT_SIZE \<and>
     m_remote_slot_count c = RDMA_REPL_WINDOW \<and> m_remote_addr c = b"

definition mi_state :: "string \<Rightarrow> bool \<Rightarrow> kvs_replica \<Rightarrow> master_sync_state \<Rightarrow> bool" where
  "mi_state D dn r st \<longleftrightarrow> (t_done_received st \<longrightarrow> dn) \<and>
     (t_done_received st \<or> r_buf r = Some D \<and> r_size r = length D) \<and>
     1 \<le> t_next_seq st \<and> t_next_offset st = min ((t_next_seq st - 1) * P) (length D) \<and>
     (D = [] \<longrightarrow> (t_empty_sent st \<longleftrightarrow> t_next_seq st \<noteq> 1))"

definition mi_window :: "string \<Rightarrow> nat \<Rightarrow> nat \<Rightarrow> nat \<Rightarrow> conn_manger \<Rightarrow> master_sync_state \<Rightarrow> bool" where
  "mi_window D b d acc c st \<longleftrightarrow> d < t_next_seq st \<and> writes (m_sq c) = map (write_of D b) [d + 1..<t_next_seq st] \<and>
     (\<forall>k. d < k \<and> k < t_next_seq st \<longrightarrow> ss_in_use (t_slots st (slot_of k)) \<and> ss_seq (t_slots st (slot_of k)) = k \<and>
        (good D k (m_send c (slot_of k)) \<or> rejected (m_send c (slot_of k)))) \<and>
     (\<forall>i < RDMA_REPL_WINDOW. ss_in_use (t_slots st i) \<and> ss_acked (t_slots st i) \<longrightarrow> ss_seq (t_slots st i) \<le> acc)"

definition mi :: "string \<Rightarrow> nat \<Rightarrow> nat \<Rightarrow> nat \<Rightarrow> bool \<Rightarrow> kvs_replica \<Rightarrow> conn_manger \<Rightarrow> master_sync_state \<Rightarrow> bool" where
  "mi D b d acc dn r c st \<longleftrightarrow> linked b c \<and> mi_state D dn r st \<and> mi_window D b d acc c st \<and>
     (\<forall>j. ctrl_ok acc dn (m_ctrl c j))"

lemma window_pos [simp]: "0 < RDMA_REPL_WINDOW" "RDMA_REPL_SEND_SLOTS = RDMA_REPL_WINDOW" "0 < P" "HDR_SIZE \<noteq> 0"
  by (simp_all add: RDMA_REPL_WINDOW_def RDMA_REPL_SEND_SLOTS_def RDMA_REPL_CHUNK_SIZE_def RDMA_REPL_SLOT_SIZE_def HDR_SIZE_def)

lemma slot_of_less [simp]: "slot_of k < RDMA_REPL_WINDOW" "slot_of k mod RDMA_REPL_WINDOW = slot_of k"
  by (simp_all add: slot_of_def)

lemma max_payload_linked: "linked b c \<Longrightarrow> max_payload c = P"
  by (simp add: linked_def max_payload_def RDMA_REPL_CHUNK_SIZE_def)

text \<open>Posting a control message touches one send slot and adds no write.\<close>

lemma post_ctrl_effect:
  assumes "post_ctrl_slot err sl type seq off status c = (ret, c1)" "m_ready c"
  shows "linked b c1 = linked b c" "writes (m_sq c1) = writes (m_sq c)" "m_ctrl c1 = m_ctrl c" "m_rq c1 = m_rq c"
    "m_data c1 = m_data c" "m_failed c1 = m_failed c" "m_base c1 = m_base c" "m_ready c1 = m_ready c"
    "m_local_slot_size c1 = m_local_slot_size c" "m_local_slot_count c1 = m_local_slot_count c"
    "m_send c1 = (m_send c)(sl mod RDMA_REPL_WINDOW := put_ctrl \<lparr>k_magic = RDMA_REPL_MAGIC, k_type = type, k_seq = seq,
        k_offset = off, k_status = status, k_reserved = 0\<rparr> (m_send c (sl mod RDMA_REPL_WINDOW)))"
  using assms by (auto simp: post_ctrl_slot_def post_send_slot_def rdma_send_slot_ptr_def linked_def Let_def
      set_send_ctx_def rdma_disconnect_def CTRL_SIZE_def RDMA_REPL_SLOT_SIZE_def split: if_splits)

text \<open>The chunk that \<open>master_send_one_locked\<close> prepares is the next one of the snapshot.\<close>

lemma prepared_chunk:
  assumes "r_buf r = Some D" "r_size r = length D" "1 \<le> k" "(k - 1) * P < length D \<or> D = [] \<and> k = 1"
    and "to_send = (if r_size r = 0 then 0 else min (r_size r - (k - 1) * P) P)"
  shows "chunk_header r k ((k - 1) * P) to_send (r_size r = 0 \<or> (k - 1) * P + to_send \<ge> r_size r) (slot_of k) = good_hdr D k"
    "take to_send (drop ((k - 1) * P) (bytes (r_buf r))) = piece D k" "to_send = length (piece D k)"
proof -
  have kP: "(k - 1) * P + P = k * P" using assms(3) by (cases k) simp_all
  show p: "take to_send (drop ((k - 1) * P) (bytes (r_buf r))) = piece D k"
    using assms by (auto simp: piece_def bytes_def min_def)
  show l: "to_send = length (piece D k)" using assms by (auto simp: piece_def)
  have "(r_size r = 0 \<or> (k - 1) * P + to_send \<ge> r_size r) \<longleftrightarrow> k * P \<ge> length D"
    using assms(2,4,5) kP by (auto simp: min_def)
  then show "chunk_header r k ((k - 1) * P) to_send (r_size r = 0 \<or> (k - 1) * P + to_send \<ge> r_size r) (slot_of k) = good_hdr D k"
    using p l assms(2) by (simp add: chunk_header_def good_hdr_def)
qed

lemma send_one_cases:
  assumes "master_send_one_locked err r c st = (ret, c1, st1)" "linked b c" "mi_state D dn r st" "\<not> t_done_received st"
  defines "k \<equiv> t_next_seq st"
  obtains (stop) "ret \<le> 0" "c1 = c" "st1 = st"
  | (sent) x where "good D k x" "(k - 1) * P < length D \<or> D = [] \<and> k = 1" "\<not> ss_in_use (t_slots st (slot_of k))"
      "m_send c1 = (m_send c)(slot_of k := x)" "linked b c1" "m_ctrl c1 = m_ctrl c"
      "ret < 0 \<and> m_sq c1 = m_sq c \<and> st1 = st\<lparr>t_slots := (t_slots st)(slot_of k := zero_ss)\<rparr> \<or>
       ret = 1 \<and> m_sq c1 = m_sq c @ [write_of D b k] \<and> (\<exists>ss. ss_in_use ss \<and> \<not> ss_acked ss \<and> ss_seq ss = k \<and>
         st1 = st\<lparr>t_slots := (t_slots st)(slot_of k := ss), t_next_seq := k + 1, t_empty_sent := (D = [] \<or> t_empty_sent st),
           t_next_offset := (if D = [] then t_next_offset st else t_next_offset st + length (piece D k))\<rparr>)"
proof (cases "c1 = c \<and> st1 = st \<and> ret \<le> 0")
  case True
  then show ?thesis using stop by simp
next
  case False
  have r: "r_buf r = Some D" "r_size r = length D" "1 \<le> k" and off: "t_next_offset st = min ((k - 1) * P) (length D)"
    and e: "D = [] \<longrightarrow> (t_empty_sent st \<longleftrightarrow> k \<noteq> 1)"
    using assms by (auto simp: mi_state_def)
  have L: "m_ready c" "m_has_remote_region c" "m_remote_slot_count c = RDMA_REPL_WINDOW" "max_payload c = P"
    "m_remote_slot_size c = RDMA_REPL_SLOT_SIZE" "m_remote_addr c = b"
    using assms(2) max_payload_linked by (auto simp: linked_def)
  have pos: "(k - 1) * P < length D \<or> D = [] \<and> k = 1"
    using False assms(1) L(2) r(2) off e by (auto simp: master_send_one_locked_def k_def split: if_splits)
  then have off': "t_next_offset st = (k - 1) * P" using off by auto
  define n where "n = (if r_size r = 0 then 0 else min (r_size r - (k - 1) * P) P)"
  note c = prepared_chunk [OF r pos n_def]
  have nb: "n \<le> P" by (simp add: n_def)
  let ?x = "\<lparr>s_hdr = good_hdr D k, s_payload = overwrite n (piece D k) (s_payload (m_send c (slot_of k)))\<rparr>"
  have free: "\<not> ss_in_use (t_slots st (slot_of k))"
    using False assms(1) L by (auto simp: master_send_one_locked_def k_def slot_of_def Let_def split: if_splits)
  define c0 where "c0 = c\<lparr>m_send := (m_send c)(slot_of k := ?x)\<rparr>"
  define ss where "ss = \<lparr>ss_in_use = True, ss_write_done = False, ss_acked = False,
     ss_is_last = (r_size r = 0 \<or> (k - 1) * P + n \<ge> r_size r), ss_slot = slot_of k, ss_seq = k, ss_offset = (k - 1) * P, ss_len = n\<rparr>"
  obtain p c2 where P: "post_rdma_writev_slot err (slot_of k) (HDR_SIZE + n) (slot_of k) k c0 = (p, c2)" by fastforce
  have "master_send_one_locked err r c st =
      (if p \<noteq> 0 then (-1, c2, st\<lparr>t_slots := (t_slots st)(slot_of k := zero_ss)\<rparr>)
       else (1, c2, st\<lparr>t_slots := (t_slots st)(slot_of k := ss), t_next_seq := k + 1, t_empty_sent := (r_size r = 0 \<or> t_empty_sent st),
         t_next_offset := (if r_size r = 0 then (k - 1) * P else (k - 1) * P + n)\<rparr>))"
  proof -
    have g: "\<not> (r_size r = 0 \<and> t_empty_sent st)" "\<not> (r_size r \<noteq> 0 \<and> (k - 1) * P \<ge> r_size r)" "\<not> slot_of k \<ge> RDMA_REPL_WINDOW"
      "\<not> (n > 0 \<and> r_buf r = None)" "rdma_send_slot_ptr c (slot_of k) = Some (slot_of k)"
      using pos e r(1,2) L(1) slot_of_less(1) [of k] by (auto simp: rdma_send_slot_ptr_def simp del: slot_of_less(1) dest: leD)
    show ?thesis
      unfolding master_send_one_locked_def off' k_def [symmetric] L(3,4) slot_of_def [symmetric] n_def [symmetric] Let_def
      by (simp only: g if_False option.case free L(2) not_True_eq_False c(1,2) c0_def [symmetric] P prod.case ss_def)
  qed
  note step = this [unfolded assms(1)]
  have c2: "m_send c2 = m_send c0 \<and> linked b c2 \<and> m_ctrl c2 = m_ctrl c \<and>
      m_sq c2 = (if p = 0 then m_sq c @ [WWrite (slot_of k) (HDR_SIZE + n) (b + slot_of k * RDMA_REPL_SLOT_SIZE)] else m_sq c)"
    using P L by (auto simp: post_rdma_writev_slot_def c0_def set_send_ctx_def rdma_disconnect_def rdma_remote_slot_addr_def
        linked_def Let_def split: if_splits)
  show ?thesis
  proof (rule sent [of ?x])
    show "good D k ?x" using c(3) by (simp add: good_def overwrite_def)
    show "ret < 0 \<and> m_sq c1 = m_sq c \<and> st1 = st\<lparr>t_slots := (t_slots st)(slot_of k := zero_ss)\<rparr> \<or>
       ret = 1 \<and> m_sq c1 = m_sq c @ [write_of D b k] \<and> (\<exists>ss. ss_in_use ss \<and> \<not> ss_acked ss \<and> ss_seq ss = k \<and>
         st1 = st\<lparr>t_slots := (t_slots st)(slot_of k := ss), t_next_seq := k + 1, t_empty_sent := (D = [] \<or> t_empty_sent st),
           t_next_offset := (if D = [] then t_next_offset st else t_next_offset st + length (piece D k))\<rparr>)"
    proof (cases "p = 0")
      case True
      have "ss_in_use ss" "\<not> ss_acked ss" "ss_seq ss = k" by (simp_all add: ss_def)
      then show ?thesis using True step c2 r(2) c(3) off' by (intro disjI2 conjI exI [of _ ss]) (auto simp: write_of_def)
    qed (use step c2 in auto)
  qed (use step c2 pos free in \<open>auto simp: c0_def split: if_splits\<close>)
qed

lemma mi_window_slots:
  assumes "mi_window D b d acc c st" "\<not> ss_in_use (t_slots st (slot_of n))" "d < k" "k < t_next_seq st"
  shows "slot_of k \<noteq> slot_of n"
  using assms unfolding mi_window_def by metis

lemma piece_length: "length (piece D k) = min P (length D - (k - 1) * P)"
  by (simp add: piece_def)

lemma next_offset:
  assumes "1 \<le> k" "(k - 1) * P < length D \<or> D = [] \<and> k = 1"
  shows "min ((k - 1) * P) (length D) + length (piece D k) = min (k * P) (length D)"
proof -
  have "(k - 1) * P + P = k * P" using assms(1) by (cases k) simp_all
  then show ?thesis using assms(2) by (auto simp: piece_length min_def)
qed

lemma send_one_mi:
  assumes I: "mi D b d acc dn r c st" and nd: "\<not> t_done_received st"
    and R: "master_send_one_locked err r c st = (ret, c1, st1)"
  shows "mi D b d acc dn r c1 st1"
proof -
  have L: "linked b c" and S: "mi_state D dn r st" and W: "mi_window D b d acc c st" and C: "\<forall>j. ctrl_ok acc dn (m_ctrl c j)"
    using I by (simp_all add: mi_def)
  let ?k = "t_next_seq st"
  show ?thesis
  proof (cases rule: send_one_cases [OF R L S nd])
    case 1
    then show ?thesis using I by simp
  next
    case (2 x)
    note ne = mi_window_slots [OF W 2(3)]
    have kpos: "1 \<le> ?k" using S by (simp add: mi_state_def)
    from 2(7) show ?thesis
    proof (elim disjE conjE exE)
      assume *: "m_sq c1 = m_sq c" "st1 = st\<lparr>t_slots := (t_slots st)(slot_of ?k := zero_ss)\<rparr>"
      have "mi_window D b d acc c1 st1"
        using W ne 2(4) * unfolding mi_window_def by (auto simp: zero_ss_def)
      moreover have "mi_state D dn r st1" using S *(2) by (simp add: mi_state_def)
      ultimately show ?thesis using 2(5,6) C by (simp add: mi_def)
    next
      fix ss
      assume *: "m_sq c1 = m_sq c @ [write_of D b ?k]" "ss_in_use ss" "\<not> ss_acked ss" "ss_seq ss = ?k"
        "st1 = st\<lparr>t_slots := (t_slots st)(slot_of ?k := ss), t_next_seq := ?k + 1, t_empty_sent := (D = [] \<or> t_empty_sent st),
          t_next_offset := (if D = [] then t_next_offset st else t_next_offset st + length (piece D ?k))\<rparr>"
      have d: "d < ?k" "writes (m_sq c) = map (write_of D b) [d + 1..<?k]" using W by (simp_all add: mi_window_def)
      have "writes [write_of D b ?k] = [write_of D b ?k]" by (simp add: write_of_def)
      then have w: "writes (m_sq c1) = map (write_of D b) [d + 1..<t_next_seq st1]" using d *(1,5) by simp
      have v: "ss_in_use (t_slots st1 (slot_of k)) \<and> ss_seq (t_slots st1 (slot_of k)) = k \<and>
          (good D k (m_send c1 (slot_of k)) \<or> rejected (m_send c1 (slot_of k)))" if "d < k" "k < t_next_seq st1" for k
      proof (cases "k = ?k")
        case True
        then show ?thesis using * 2(1,4) by simp
      next
        case False
        then have "k < ?k" using that(2) *(5) by simp
        then show ?thesis using ne [OF that(1)] W that(1) *(5) 2(4) unfolding mi_window_def by simp
      qed
      have a: "\<forall>i < RDMA_REPL_WINDOW. ss_in_use (t_slots st1 i) \<and> ss_acked (t_slots st1 i) \<longrightarrow> ss_seq (t_slots st1 i) \<le> acc"
        using W *(3,5) by (simp add: mi_window_def)
      have "mi_window D b d acc c1 st1" unfolding mi_window_def using d(1) w v a *(5) by simp
      moreover have "mi_state D dn r st1"
        using S *(5) next_offset [OF kpos 2(2)] nd by (auto simp: mi_state_def)
      ultimately show ?thesis using 2(5,6) C by (simp add: mi_def)
    qed
  qed
qed

lemma mi_disconnect [simp]: "mi D b d acc dn r (rdma_disconnect c) st = mi D b d acc dn r c st"
  by (simp add: mi_def mi_window_def linked_def rdma_disconnect_def)

lemma pump_mi:
  "master_pump_locked errs k r c st = (ret, c1, st1) \<Longrightarrow> mi D b d acc dn r c st \<Longrightarrow> mi D b d acc dn r c1 st1"
proof (induction errs k r c st rule: master_pump_locked.induct)
  case (1 errs k r c st)
  show ?case
  proof (cases "t_done_received st")
    case True
    then show ?thesis using 1(2,3) by (subst (asm) master_pump_locked.simps) (simp split: if_splits)
  next
    case False
    obtain p c2 st2 where s: "master_send_one_locked (errs k) r c st = (p, c2, st2)" by (metis prod_cases3)
    note m = send_one_mi [OF 1(3) False s]
    show ?thesis
      using 1(1) [OF False s [symmetric] refl] 1(2) m False s
      by (subst (asm) (2) master_pump_locked.simps) (auto split: if_splits)
  qed
qed

lemma release_mi:
  assumes "mi D b d acc dn r c st" "acc \<le> d"
  shows "mi D b d acc dn r c (master_release_completed_slots_locked st)"
proof -
  let ?st = "master_release_completed_slots_locked st"
  have W: "mi_window D b d acc c st" using assms(1) by (simp add: mi_def)
  have keep: "t_slots ?st (slot_of k) = t_slots st (slot_of k)" if "d < k" "k < t_next_seq st" for k
  proof -
    have "ss_seq (t_slots st (slot_of k)) = k" using W that by (simp add: mi_window_def)
    then have "\<not> (ss_in_use (t_slots st (slot_of k)) \<and> ss_acked (t_slots st (slot_of k)))"
      using W that assms(2) unfolding mi_window_def by (metis leD le_trans slot_of_less(1))
    then show ?thesis by (auto simp: master_release_completed_slots_locked_def)
  qed
  have "t_next_seq ?st = t_next_seq st" by (simp add: master_release_completed_slots_locked_def)
  then have "mi_window D b d acc c ?st"
    using W keep unfolding mi_window_def by (auto simp: master_release_completed_slots_locked_def zero_ss_def)
  then show ?thesis using assms(1) by (simp add: mi_def mi_state_def master_release_completed_slots_locked_def)
qed

lemma acknowledge_mi:
  assumes "mi D b d acc dn r c st" "seq \<le> acc"
  shows "mi D b d acc dn r c (acknowledge seq st)"
  using assms unfolding mi_def mi_window_def mi_state_def acknowledge_def by (auto split: if_splits)

lemma write_done_mi:
  assumes "mi D b d acc dn r c st"
  shows "mi D b d acc dn r c (st\<lparr>t_slots := (t_slots st)(sl := (t_slots st sl)\<lparr>ss_write_done := True\<rparr>)\<rparr>)"
  using assms unfolding mi_def mi_window_def mi_state_def by (auto split: if_splits)

lemma chunk_notice_mi:
  assumes "mi D b d acc dn r c st" "post_ctrl_slot err sl RDMA_CTRL_CHUNK seq off 0 c = (ret, c1)"
  shows "mi D b d acc dn r c1 st"
proof -
  have rdy: "m_ready c" using assms(1) by (simp add: mi_def linked_def)
  note e = post_ctrl_effect [OF assms(2) rdy]
  have "rejected (put_ctrl \<lparr>k_magic = RDMA_REPL_MAGIC, k_type = RDMA_CTRL_CHUNK, k_seq = seq, k_offset = off,
      k_status = 0, k_reserved = 0\<rparr> x)" for x
    by (rule rejected_ctrl) (simp_all add: ctrl_types RDMA_REPL_VERSION_def)
  then show ?thesis using assms(1) e unfolding mi_def mi_window_def by auto
qed

lemma mi_cong:
  assumes "linked b c1 = linked b c" "m_sq c1 = m_sq c" "m_send c1 = m_send c" "\<forall>j. ctrl_ok acc dn (m_ctrl c j) \<longrightarrow> ctrl_ok acc dn (m_ctrl c1 j)"
  shows "mi D b d acc dn r c st \<Longrightarrow> mi D b d acc dn r c1 st"
  using assms by (simp add: mi_def mi_window_def)

lemma ctrl_ok_zero [simp]: "ctrl_ok acc dn zero_ctrl"
  by (simp add: ctrl_ok_def zero_ctrl_def ctrl_types)

lemma post_recv_effect:
  assumes "post_recv_slot ok sl c = (ret, c1)"
  shows "linked b c1 = linked b c" "m_sq c1 = m_sq c" "m_send c1 = m_send c" "m_data c1 = m_data c" "m_failed c1 = m_failed c"
    "m_base c1 = m_base c" "m_ready c1 = m_ready c" "m_local_slot_size c1 = m_local_slot_size c"
    "m_local_slot_count c1 = m_local_slot_count c" "m_ctrl c1 j = m_ctrl c j \<or> m_ctrl c1 j = zero_ctrl"
  using assms by (auto simp: post_recv_slot_def linked_def rdma_disconnect_def Let_def split: if_splits)

definition master_inv :: "string \<Rightarrow> nat \<Rightarrow> nat \<Rightarrow> nat \<Rightarrow> bool \<Rightarrow> master \<Rightarrow> bool" where
  "master_inv D b d acc dn m \<longleftrightarrow> (\<exists>st. ma_st m = Some st \<and> mi D b d acc dn (ma_replica m) (ma_conn m) st) \<and>
     (r_state (ma_replica m) \<in> {KVS_REPL_STATE_WAIT_FINSYNC, KVS_REPL_STATE_ONLINE} \<longrightarrow> dn)"

lemma master_inv_conn:
  assumes "master_inv D b d acc dn m" "linked b c1 = linked b (ma_conn m)" "m_sq c1 = m_sq (ma_conn m)"
    "m_send c1 = m_send (ma_conn m)" "\<forall>j. ctrl_ok acc dn (m_ctrl (ma_conn m) j) \<longrightarrow> ctrl_ok acc dn (m_ctrl c1 j)"
  shows "master_inv D b d acc dn (m\<lparr>ma_conn := c1\<rparr>)"
  using assms mi_cong [OF assms(2-5)] by (auto simp: master_inv_def)

lemma continue_inv:
  assumes "mi D b d acc dn (ma_replica m) (ma_conn m) st" "acc \<le> d"
    "r_state (ma_replica m) \<in> {KVS_REPL_STATE_WAIT_FINSYNC, KVS_REPL_STATE_ONLINE} \<longrightarrow> dn"
  shows "master_inv D b d acc dn (master_continue errs st m)"
proof -
  let ?st = "master_release_completed_slots_locked st"
  obtain ret c st1 where p: "master_pump_locked errs 0 (ma_replica m) (ma_conn m) ?st = (ret, c, st1)" by (metis prod_cases3)
  note i = pump_mi [OF p release_mi [OF assms(1,2)]]
  show ?thesis
  proof (cases "master_should_finish_locked st1")
    case True
    then have dr: "t_done_received st1" by (simp add: master_should_finish_locked_def)
    then have dn using i by (simp add: mi_def mi_state_def)
    moreover have "mi D b d acc dn ((replica_free_snapshot (ma_replica m))\<lparr>r_state := KVS_REPL_STATE_WAIT_FINSYNC\<rparr>) c (st1\<lparr>t_finishing := True\<rparr>)"
      using i dr unfolding mi_def mi_state_def mi_window_def by (cases dn) simp_all
    ultimately show ?thesis
      using True p by (simp add: master_continue_def master_inv_def master_finish_fullsync_def Let_def)
  next
    case False
    then show ?thesis using p i assms(3) by (simp add: master_continue_def master_inv_def)
  qed
qed

lemma write_complete_inv:
  assumes I: "master_inv D b d acc dn m" and ad: "acc \<le> d"
  shows "master_inv D b d acc dn (on_master_write_complete ok cerr errs i m)"
proof -
  let ?c = "(ma_conn m)\<lparr>m_completed_send := m_completed_send (ma_conn m) + 1\<rparr>"
  let ?m = "m\<lparr>ma_conn := ?c\<rparr>" and ?ctx = "m_send_ctx (ma_conn m) i"
  have I1: "master_inv D b d acc dn ?m" by (rule master_inv_conn [OF I]) (simp_all add: linked_def)
  have I0: "master_inv D b d acc dn (m\<lparr>ma_conn := rdma_disconnect (ma_conn m)\<rparr>)"
    by (rule master_inv_conn [OF I]) (simp_all add: linked_def rdma_disconnect_def)
  obtain st where st: "ma_st m = Some st" "mi D b d acc dn (ma_replica m) ?c st" using I1 by (auto simp: master_inv_def)
  have f: "r_state (ma_replica m) \<in> {KVS_REPL_STATE_WAIT_FINSYNC, KVS_REPL_STATE_ONLINE} \<longrightarrow> dn" using I by (simp add: master_inv_def)
  obtain p c1 where c1: "post_ctrl_slot cerr (x_slot ?ctx) RDMA_CTRL_CHUNK (x_seq ?ctx) (x_slot ?ctx) 0 ?c = (p, c1)" by fastforce
  let ?st = "st\<lparr>t_slots := (t_slots st)(x_slot ?ctx := (t_slots st (x_slot ?ctx))\<lparr>ss_write_done := True\<rparr>)\<rparr>"
  let ?c2 = "if p \<noteq> 0 then rdma_disconnect c1 else c1"
  have "mi D b d acc dn (ma_replica m) c1 ?st" by (rule write_done_mi [OF chunk_notice_mi [OF st(2) c1]])
  then have "mi D b d acc dn (ma_replica m) ?c2 ?st" by simp
  then have A: "master_inv D b d acc dn (master_continue errs ?st (?m\<lparr>ma_conn := ?c2\<rparr>))"
    using ad f by (intro continue_inv) simp_all
  have B: "master_inv D b d acc dn (master_continue errs st ?m)" using st(2) ad f by (intro continue_inv) simp_all
  show ?thesis using I0 I1 A B st(1) c1 by (auto simp: on_master_write_complete_def Let_def)
qed

lemma recv_complete_inv:
  assumes I: "master_inv D b d acc dn m" and ad: "acc \<le> d"
  shows "master_inv D b d acc dn (on_master_recv_complete ok rok errs i m)"
proof -
  let ?c = "(ma_conn m)\<lparr>m_completed_recv := m_completed_recv (ma_conn m) + 1\<rparr>" and ?ctx = "m_recv_ctx (ma_conn m) i"
  have I0: "master_inv D b d acc dn (m\<lparr>ma_conn := rdma_disconnect (ma_conn m)\<rparr>)"
    by (rule master_inv_conn [OF I]) (simp_all add: linked_def rdma_disconnect_def)
  have I1: "master_inv D b d acc dn (m\<lparr>ma_conn := rdma_disconnect ?c\<rparr>)"
    by (rule master_inv_conn [OF I]) (simp_all add: linked_def rdma_disconnect_def)
  obtain p c1 where c1: "post_recv_slot rok (x_slot ?ctx) ?c = (p, c1)" by fastforce
  note e = post_recv_effect [OF c1]
  have ctrl: "ctrl_ok acc dn (m_ctrl (ma_conn m) j) \<longrightarrow> ctrl_ok acc dn (m_ctrl c1 j)" for j
    using e(10) [of j] by auto
  have I2: "master_inv D b d acc dn (m\<lparr>ma_conn := c1\<rparr>)"
    by (rule master_inv_conn [OF I]) (use e ctrl in \<open>simp_all add: linked_def\<close>)
  have I3: "master_inv D b d acc dn (m\<lparr>ma_conn := rdma_disconnect c1\<rparr>)"
    by (rule master_inv_conn [OF I]) (use e ctrl in \<open>simp_all add: linked_def rdma_disconnect_def\<close>)
  obtain st where st: "ma_st m = Some st" "mi D b d acc dn (ma_replica m) c1 st" using I2 by (auto simp: master_inv_def)
  have C: "ctrl_ok acc dn (m_ctrl (ma_conn m) j)" for j using I by (auto simp: master_inv_def mi_def)
  have f: "r_state (ma_replica m) \<in> {KVS_REPL_STATE_WAIT_FINSYNC, KVS_REPL_STATE_ONLINE} \<longrightarrow> dn" using I by (simp add: master_inv_def)
  have act: "master_inv D b d acc dn (master_continue errs
       (if k_type k = RDMA_CTRL_DONE then (acknowledge (k_seq k) st)\<lparr>t_done_received := True\<rparr> else acknowledge (k_seq k) st)
       (m\<lparr>ma_conn := c1, ma_replica := (ma_replica m)\<lparr>r_offset := x, r_seq := y\<rparr>\<rparr>))"
    if k: "ctrl_ok acc dn k" "k_type k = RDMA_CTRL_ACK \<or> k_type k = RDMA_CTRL_DONE" for k x y
  proof -
    have a: "mi D b d acc dn (ma_replica m) c1 (acknowledge (k_seq k) st)"
      by (rule acknowledge_mi [OF st(2)]) (use k in \<open>auto simp: ctrl_ok_def\<close>)
    have "mi D b d acc dn (ma_replica m) c1
       (if k_type k = RDMA_CTRL_DONE then (acknowledge (k_seq k) st)\<lparr>t_done_received := True\<rparr> else acknowledge (k_seq k) st)"
      using a k unfolding mi_def mi_state_def mi_window_def ctrl_ok_def by auto
    then show ?thesis using ad f by (intro continue_inv) (simp_all add: mi_def mi_state_def)
  qed
  show ?thesis
    using I0 I1 I2 I3 act C st(1) c1 by (auto simp: on_master_recv_complete_def Let_def split: option.splits)
qed

subsection \<open>Invariant of the replica\<close>

definition acc_of :: "'f slave \<Rightarrow> nat" where
  "acc_of s = (if sl_done_posted s then sl_next_seq s else sl_next_seq s - 1)"

text \<open>What a finished replica has: the snapshot as its file, loaded into its engines.\<close>

definition loaded :: "('f chunk_env \<Rightarrow> bool) \<Rightarrow> string \<Rightarrow> 'f server \<Rightarrow> cptr \<Rightarrow> 'f server \<Rightarrow> bool" where
  "loaded Z D srv0 f srv \<longleftrightarrow> f = (if D = [] then None else Some D) \<and>
     (\<exists>z srv1. Z z \<and> (D \<noteq> [] \<longrightarrow> srv1 = srv0) \<and>
       (if D = [] then kvs_reset_data_engines (z_mk z) (z_region z) srv1
        else rdb_load_files (Some D) (z_seek z) (z_buf z) (z_read z) (z_mk z) (z_region z) (z_env z) (z_bmok z) srv1) = Some (0, srv))"

definition si_file :: "('f chunk_env \<Rightarrow> bool) \<Rightarrow> string \<Rightarrow> cptr \<Rightarrow> 'f server \<Rightarrow> 'f slave \<Rightarrow> bool" where
  "si_file Z D old srv0 s \<longleftrightarrow> 1 \<le> sl_next_seq s \<and>
     (if sl_done_posted s
      then sl_rdb_offset s = length D \<and> loaded Z D srv0 (sl_file s) (sl_server s) \<and>
        ((sl_next_seq s - 1) * P < length D \<or> D = [] \<and> sl_next_seq s = 1)
      else sl_rdb_offset s = (sl_next_seq s - 1) * P \<and> sl_file s = old \<and> sl_server s = srv0 \<and>
        (sl_next_seq s \<noteq> 1 \<longrightarrow> (sl_next_seq s - 1) * P < length D \<and> sl_rdb_fd s \<and> sl_tmp s = Some (take (sl_rdb_offset s) D)) \<and>
        (sl_next_seq s = 1 \<longrightarrow> \<not> sl_rdb_fd s))"

definition si_conn :: "string \<Rightarrow> nat \<Rightarrow> nat \<Rightarrow> nat \<Rightarrow> bool \<Rightarrow> conn_manger \<Rightarrow> bool" where
  "si_conn D b d acc dn c \<longleftrightarrow> m_ready c \<and> m_base c = b \<and> m_local_slot_size c = RDMA_REPL_SLOT_SIZE \<and>
     m_local_slot_count c = RDMA_REPL_WINDOW \<and>
     (\<forall>j. rejected (m_data c j) \<or> (\<exists>k. 1 \<le> k \<and> k \<le> d \<and> good D k (m_data c j))) \<and>
     (\<forall>j. ctrl_ok acc dn (get_ctrl (m_send c j)))"

definition slave_inv :: "('f chunk_env \<Rightarrow> bool) \<Rightarrow> string \<Rightarrow> cptr \<Rightarrow> 'f server \<Rightarrow> nat \<Rightarrow> nat \<Rightarrow> 'f slave \<Rightarrow> bool" where
  "slave_inv Z D old srv0 b d s \<longleftrightarrow> si_file Z D old srv0 s \<and> si_conn D b d (acc_of s) (sl_done_posted s) (sl_conn s) \<and> acc_of s \<le> d"

lemma ctrl_ok_mono: "ctrl_ok acc dn k \<Longrightarrow> acc \<le> acc' \<Longrightarrow> (dn \<longrightarrow> dn') \<Longrightarrow> ctrl_ok acc' dn' k"
  by (auto simp: ctrl_ok_def)

lemma mi_mono:
  assumes "mi D b d acc dn r c st" "acc \<le> acc'" "dn \<longrightarrow> dn'"
  shows "mi D b d acc' dn' r c st"
  using assms ctrl_ok_mono [OF _ assms(2,3)] unfolding mi_def mi_state_def mi_window_def by (auto intro: le_trans)

lemma master_inv_mono: "master_inv D b d acc dn m \<Longrightarrow> acc \<le> acc' \<Longrightarrow> (dn \<longrightarrow> dn') \<Longrightarrow> master_inv D b d acc' dn' m"
  using mi_mono unfolding master_inv_def by blast

lemma si_conn_mono: "si_conn D b d acc dn c \<Longrightarrow> d \<le> d' \<Longrightarrow> acc \<le> acc' \<Longrightarrow> (dn \<longrightarrow> dn') \<Longrightarrow> si_conn D b d' acc' dn' c"
  using ctrl_ok_mono unfolding si_conn_def by (meson le_trans)

lemma post_ctrl_si:
  assumes "si_conn D b d acc dn c" "post_ctrl_slot err sl ty seq off 0 c = (r, c1)"
    "ctrl_ok acc dn \<lparr>k_magic = RDMA_REPL_MAGIC, k_type = ty, k_seq = seq, k_offset = off, k_status = 0, k_reserved = 0\<rparr>"
  shows "si_conn D b d acc dn c1"
proof -
  have "m_ready c" using assms(1) by (simp add: si_conn_def)
  note e = post_ctrl_effect [OF assms(2) this]
  show ?thesis using assms(1,3) e unfolding si_conn_def by (simp add: get_put_ctrl)
qed

lemma write_full_all: "write_full ws buf f = Some (True, f') \<Longrightarrow> f' = f @ buf"
  by (induction ws buf f rule: write_full.induct) (auto split: if_splits)

lemma read_good: "good D k x \<Longrightarrow> read_payload (length (piece D k)) x = piece D k"
  unfolding good_def read_payload_def by (metis length_take min.cobounded1 take_append diff_is_0_eq take0 append_Nil2)

lemma take_piece: "1 \<le> k \<Longrightarrow> take ((k - 1) * P) D @ piece D k = take (k * P) D"
  using take_add [of "(k - 1) * P" P D] by (cases k) (simp_all add: piece_def add.commute)

lemma store_payload_good:
  assumes "store_payload z (good_hdr D k) (piece D k) s = Some (Inr s1)"
  shows "piece D k = [] \<and> s1 = s \<or> piece D k \<noteq> [] \<and>
     s1 = s\<lparr>sl_rdb_fd := True, sl_tmp := Some ((if sl_rdb_fd s then bytes (sl_tmp s) else []) @ piece D k)\<rparr>"
  using assms by (auto simp: store_payload_def good_hdr_def open_slave_rdb_def Let_def bytes_def dest: write_full_all split: if_splits)

lemma process_zero:
  assumes "process_rdma_chunk z j s = Some (0, s')" "si_conn D b d acc dn (sl_conn s)"
  obtains k s1 where "1 \<le> k" "k \<le> d" "sl_next_seq s = k" "sl_rdb_offset s = (k - 1) * P"
    "store_payload z (good_hdr D k) (piece D k) s = Some (Inr s1)"
    "length D \<le> k * P \<Longrightarrow> finish_rdb z (good_hdr D k) (s1\<lparr>sl_rdb_offset := sl_rdb_offset s1 + length (piece D k)\<rparr>) = Some (0, s')"
    "\<not> length D \<le> k * P \<Longrightarrow> \<exists>s3. s3 = s1\<lparr>sl_rdb_offset := sl_rdb_offset s1 + length (piece D k), sl_next_seq := sl_next_seq s1 + 1\<rparr> \<and>
       (s' = s3 \<or> slave_post_ack (z_err z) k (sl_rdb_offset s3) s3 = (0, s'))"
proof -
  let ?x = "m_data (sl_conn s) j"
  have rdy: "m_ready (sl_conn s)" and dat: "rejected ?x \<or> (\<exists>k. 1 \<le> k \<and> k \<le> d \<and> good D k ?x)"
    using assms(2) by (simp_all add: si_conn_def)
  note R = assms(1) [unfolded process_rdma_chunk_def Let_def rdma_data_slot_ptr_def]
  have jc: "\<not> j \<ge> m_local_slot_count (sl_conn s)" and nr: "\<not> rejected ?x"
    using R rdy by (auto simp: slave_post_error_def rejected_def split: if_splits)
  then obtain k where k: "1 \<le> k" "k \<le> d" "good D k ?x" using dat by auto
  have h: "s_hdr ?x = good_hdr D k" using k(3) by (simp add: good_def)
  have n: "sl_next_seq s = k" and o: "sl_rdb_offset s = (k - 1) * P"
    using R rdy jc nr h by (auto simp: slave_post_error_def rejected_def good_hdr_def split: if_splits)
  obtain s1 where s1: "store_payload z (good_hdr D k) (piece D k) s = Some (Inr s1)"
    using R rdy jc nr h read_good [OF k(3)]
    by (auto simp: slave_post_error_def rejected_def good_hdr_def split: if_splits option.splits sum.splits)
  have "if length D \<le> k * P then finish_rdb z (good_hdr D k) (s1\<lparr>sl_rdb_offset := sl_rdb_offset s1 + length (piece D k)\<rparr>) = Some (0, s')
     else \<exists>s3. s3 = s1\<lparr>sl_rdb_offset := sl_rdb_offset s1 + length (piece D k), sl_next_seq := sl_next_seq s1 + 1\<rparr> \<and>
       (s' = s3 \<or> slave_post_ack (z_err z) k (sl_rdb_offset s3) s3 = (0, s'))"
    using R rdy jc nr h read_good [OF k(3)] s1
    by (auto simp: slave_post_error_def rejected_def good_hdr_def split: if_splits prod.splits)
  then show ?thesis using that [OF k(1,2) n o s1] by presburger
qed

lemma finish_zero:
  assumes "finish_rdb z (good_hdr D k) s = Some (0, s')"
  obtains srv c where
    "s' = s\<lparr>sl_rdb_fd := False, sl_tmp := None, sl_file := (if D = [] then None else sl_tmp s), sl_server := srv,
       sl_conn := c, sl_done_posted := True, sl_done_seq := k\<rparr>"
    "(if D = [] then kvs_reset_data_engines (z_mk z) (z_region z) (sl_server s)
      else rdb_load_files (sl_tmp s) (z_seek z) (z_buf z) (z_read z) (z_mk z) (z_region z) (z_env z) (z_bmok z) (sl_server s)) = Some (0, srv)"
    "post_ctrl_slot (z_err z) (k mod RDMA_REPL_SEND_SLOTS) RDMA_CTRL_DONE k (sl_rdb_offset s) 0 (sl_conn s) = (0, c)"
  using assms by (auto simp: finish_rdb_def good_hdr_def commit_slave_rdb_def load_received_rdb_def slave_post_error_def Let_def
      split: if_splits option.splits prod.splits)

text \<open>The state after the payload of the next chunk has been stored.\<close>

lemma stored_chunk:
  assumes F: "si_file Z D old srv0 s" and k: "1 \<le> k" "sl_next_seq s = k" "sl_rdb_offset s = (k - 1) * P"
    and st: "store_payload z (good_hdr D k) (piece D k) s = Some (Inr s1)"
  shows "sl_conn s1 = sl_conn s" "sl_next_seq s1 = k" "sl_rdb_offset s1 = (k - 1) * P" "sl_done_posted s1 = sl_done_posted s"
    "sl_file s1 = sl_file s" "sl_server s1 = sl_server s"
    "D \<noteq> [] \<longrightarrow> \<not> sl_done_posted s \<and> sl_tmp s1 = Some (take (k * P) D) \<and> sl_rdb_fd s1"
    "(k - 1) * P < length D \<or> D = [] \<and> k = 1"
proof -
  note S = store_payload_good [OF st]
  have D0: "D = []" if "sl_done_posted s" using F k that by (auto simp: si_file_def)
  show "D \<noteq> [] \<longrightarrow> \<not> sl_done_posted s \<and> sl_tmp s1 = Some (take (k * P) D) \<and> sl_rdb_fd s1"
  proof
    assume ne: "D \<noteq> []"
    then have nd: "\<not> sl_done_posted s" using D0 by auto
    then have lt: "(k - 1) * P < length D" using F k ne by (cases "k = 1") (auto simp: si_file_def)
    then have "piece D k \<noteq> []" by (simp add: piece_def)
    moreover have "(if sl_rdb_fd s then bytes (sl_tmp s) else []) = take ((k - 1) * P) D"
      using F k nd by (cases "k = 1") (auto simp: si_file_def bytes_def)
    ultimately show "\<not> sl_done_posted s \<and> sl_tmp s1 = Some (take (k * P) D) \<and> sl_rdb_fd s1"
      using S nd take_piece [OF k(1), of D] by auto
  qed
  show "(k - 1) * P < length D \<or> D = [] \<and> k = 1"
    using F k D0 by (cases "k = 1") (auto simp: si_file_def split: if_splits)
qed (use store_payload_good [OF st] k in auto)

lemma last_chunk_inv:
  assumes I: "slave_inv Z D old srv0 b d s" and Z: "Z z"
    and k: "1 \<le> k" "k \<le> d" "sl_next_seq s = k" "sl_rdb_offset s = (k - 1) * P"
    and st: "store_payload z (good_hdr D k) (piece D k) s = Some (Inr s1)" and len: "length D \<le> k * P"
    and R: "finish_rdb z (good_hdr D k) (s1\<lparr>sl_rdb_offset := sl_rdb_offset s1 + length (piece D k)\<rparr>) = Some (0, s')"
  shows "slave_inv Z D old srv0 b d s' \<and> acc_of s' = k \<and> sl_done_posted s'"
proof -
  have F: "si_file Z D old srv0 s" and C: "si_conn D b d (acc_of s) (sl_done_posted s) (sl_conn s)"
    using I by (simp_all add: slave_inv_def)
  note S = stored_chunk [OF F k(1,3,4) st]
  have kP: "(k - 1) * P + P = k * P" using k(1) by (cases k) simp_all
  have le: "acc_of s \<le> k" using k(3) by (simp add: acc_of_def)
  from R show ?thesis
  proof (rule finish_zero)
    fix srv c
    let ?s1 = "s1\<lparr>sl_rdb_offset := sl_rdb_offset s1 + length (piece D k)\<rparr>"
    assume s': "s' = ?s1\<lparr>sl_rdb_fd := False, sl_tmp := None, sl_file := (if D = [] then None else sl_tmp ?s1), sl_server := srv,
        sl_conn := c, sl_done_posted := True, sl_done_seq := k\<rparr>"
      and ld: "(if D = [] then kvs_reset_data_engines (z_mk z) (z_region z) (sl_server ?s1)
        else rdb_load_files (sl_tmp ?s1) (z_seek z) (z_buf z) (z_read z) (z_mk z) (z_region z) (z_env z) (z_bmok z) (sl_server ?s1)) = Some (0, srv)"
      and p: "post_ctrl_slot (z_err z) (k mod RDMA_REPL_SEND_SLOTS) RDMA_CTRL_DONE k (sl_rdb_offset ?s1) 0 (sl_conn ?s1) = (0, c)"
    have c: "si_conn D b d k True c"
      by (rule post_ctrl_si [OF _ p]) (use si_conn_mono [OF C order_refl le] S(1) in \<open>auto simp: ctrl_ok_def\<close>)
    have "sl_server s = srv0" if "D \<noteq> []" using F S(7) that by (auto simp: si_file_def split: if_splits)
    then have "loaded Z D srv0 (sl_file s') srv"
      unfolding loaded_def using s' ld S(6,7) len Z by (intro conjI exI [of _ z] exI [of _ "sl_server s"]) auto
    moreover have "sl_rdb_offset s' = length D" using s' S(3,8) len kP by (auto simp: piece_length)
    ultimately show ?thesis using s' c S k by (simp add: slave_inv_def si_file_def acc_of_def)
  qed
qed

lemma next_chunk_inv:
  assumes I: "slave_inv Z D old srv0 b d s"
    and k: "1 \<le> k" "k \<le> d" "sl_next_seq s = k" "sl_rdb_offset s = (k - 1) * P"
    and st: "store_payload z (good_hdr D k) (piece D k) s = Some (Inr s1)" and len: "\<not> length D \<le> k * P"
    and s3: "s3 = s1\<lparr>sl_rdb_offset := sl_rdb_offset s1 + length (piece D k), sl_next_seq := sl_next_seq s1 + 1\<rparr>"
    and R: "s' = s3 \<or> slave_post_ack (z_err z) k (sl_rdb_offset s3) s3 = (0, s')"
  shows "slave_inv Z D old srv0 b d s' \<and> acc_of s' = k \<and> \<not> sl_done_posted s"
proof -
  have F: "si_file Z D old srv0 s" and C: "si_conn D b d (acc_of s) (sl_done_posted s) (sl_conn s)"
    using I by (simp_all add: slave_inv_def)
  note S = stored_chunk [OF F k(1,3,4) st]
  have kP: "(k - 1) * P + P = k * P" using k(1) by (cases k) simp_all
  have le: "acc_of s \<le> k" using k(3) by (simp add: acc_of_def)
  have nd: "\<not> sl_done_posted s" using S(7) len by auto
  have o3: "sl_rdb_offset s3 = k * P" using s3(1) S(3) len kP by (auto simp: piece_length)
  have f3: "si_file Z D old srv0 s3" using F S s3 len nd o3 k by (auto simp: si_file_def)
  have c3: "si_conn D b d k False (sl_conn s3)" using si_conn_mono [OF C order_refl le] s3 S(1) nd by simp
  have a3: "acc_of s3 = k" using s3 S(2,4) nd by (simp add: acc_of_def)
  have I3: "slave_inv Z D old srv0 b d s3" using f3 c3 a3 s3 S(4) nd k by (simp add: slave_inv_def)
  show ?thesis
  proof (cases "s' = s3")
    case True
    then show ?thesis using I3 a3 nd by simp
  next
    case False
    then obtain r c where p: "post_ctrl_slot (z_err z) (k mod RDMA_REPL_SEND_SLOTS) RDMA_CTRL_ACK k (sl_rdb_offset s3) 0 (sl_conn s3) = (r, c)"
      "s' = s3\<lparr>sl_conn := c, sl_last_acked_seq := k\<rparr>"
      using R by (auto simp: slave_post_ack_def split: prod.splits if_splits)
    have "si_conn D b d k False c" by (rule post_ctrl_si [OF c3 p(1)]) (simp add: ctrl_ok_def ctrl_types)
    then show ?thesis using p(2) I3 a3 nd s3 S by (simp add: slave_inv_def si_file_def acc_of_def)
  qed
qed

text \<open>A chunk that is processed without an error keeps the invariant.\<close>

lemma process_inv:
  assumes R: "process_rdma_chunk z j s = Some (0, s')" and Z: "Z z" and I: "slave_inv Z D old srv0 b d s"
  shows "slave_inv Z D old srv0 b d s' \<and> acc_of s \<le> acc_of s' \<and> (sl_done_posted s \<longrightarrow> sl_done_posted s')"
proof -
  have C: "si_conn D b d (acc_of s) (sl_done_posted s) (sl_conn s)" using I by (simp add: slave_inv_def)
  have le: "acc_of s \<le> sl_next_seq s" by (simp add: acc_of_def)
  from R C show ?thesis
  proof (rule process_zero)
    fix k s1
    assume k: "1 \<le> k" "k \<le> d" "sl_next_seq s = k" "sl_rdb_offset s = (k - 1) * P"
      and st: "store_payload z (good_hdr D k) (piece D k) s = Some (Inr s1)"
      and L: "length D \<le> k * P \<Longrightarrow> finish_rdb z (good_hdr D k) (s1\<lparr>sl_rdb_offset := sl_rdb_offset s1 + length (piece D k)\<rparr>) = Some (0, s')"
      and N: "\<not> length D \<le> k * P \<Longrightarrow> \<exists>s3. s3 = s1\<lparr>sl_rdb_offset := sl_rdb_offset s1 + length (piece D k), sl_next_seq := sl_next_seq s1 + 1\<rparr> \<and>
       (s' = s3 \<or> slave_post_ack (z_err z) k (sl_rdb_offset s3) s3 = (0, s'))"
    show ?thesis
    proof (cases "length D \<le> k * P")
      case True
      show ?thesis using last_chunk_inv [OF I Z k st True L [OF True]] le k(3) by simp
    next
      case False
      then obtain s3 where s3: "s3 = s1\<lparr>sl_rdb_offset := sl_rdb_offset s1 + length (piece D k), sl_next_seq := sl_next_seq s1 + 1\<rparr>"
        "s' = s3 \<or> slave_post_ack (z_err z) k (sl_rdb_offset s3) s3 = (0, s')" using N by auto
      show ?thesis using next_chunk_inv [OF I k st False s3] le k(3) by simp
    qed
  qed
qed

lemma si_file_conn [simp]: "si_file Z D old srv0 (s\<lparr>sl_conn := c\<rparr>) = si_file Z D old srv0 s" "acc_of (s\<lparr>sl_conn := c\<rparr>) = acc_of s"
  by (simp_all add: si_file_def acc_of_def)

lemma slave_inv_conn:
  assumes "slave_inv Z D old srv0 b d s" "m_ready c = m_ready (sl_conn s)" "m_base c = m_base (sl_conn s)"
    "m_local_slot_size c = m_local_slot_size (sl_conn s)" "m_local_slot_count c = m_local_slot_count (sl_conn s)"
    "m_data c = m_data (sl_conn s)" "m_send c = m_send (sl_conn s)"
  shows "slave_inv Z D old srv0 b d (s\<lparr>sl_conn := c\<rparr>)"
  using assms by (simp add: slave_inv_def si_conn_def)

lemma post_ctrl_failed: "post_ctrl_slot err sl ty seq off st c = (r, c1) \<Longrightarrow> m_failed c1 = m_failed c"
  by (auto simp: post_ctrl_slot_def post_send_slot_def rdma_send_slot_ptr_def Let_def set_send_ctx_def rdma_disconnect_def
      split: if_splits)

lemma store_payload_conn: "store_payload z hdr pl s = Some (Inl (e, s1)) \<Longrightarrow> sl_conn s1 = sl_conn s"
  "store_payload z hdr pl s = Some (Inr s1) \<Longrightarrow> sl_conn s1 = sl_conn s"
  by (auto simp: store_payload_def open_slave_rdb_def Let_def split: if_splits)

lemma post_error_failed: "slave_post_error err seq off st s = (r, s') \<Longrightarrow> m_failed (sl_conn s') = m_failed (sl_conn s)"
  by (auto simp: slave_post_error_def) (metis post_ctrl_failed prod.collapse)+

lemma post_ack_failed: "slave_post_ack err seq off s = (r, s') \<Longrightarrow> m_failed (sl_conn s') = m_failed (sl_conn s)"
  by (auto simp: slave_post_ack_def dest!: post_ctrl_failed split: prod.splits if_splits)

lemma finish_failed: "finish_rdb z hdr s = Some (r, s') \<Longrightarrow> m_failed (sl_conn s') = m_failed (sl_conn s)"
  by (auto simp: finish_rdb_def commit_slave_rdb_def load_received_rdb_def Let_def dest!: post_ctrl_failed post_error_failed
      split: if_splits option.splits prod.splits)

lemma process_failed: "process_rdma_chunk z j s = Some (r, s') \<Longrightarrow> m_failed (sl_conn s') = m_failed (sl_conn s)"
  unfolding process_rdma_chunk_def Let_def
  by (auto dest!: post_error_failed post_ack_failed finish_failed store_payload_conn split: if_splits option.splits sum.splits prod.splits)

lemma slave_failed_stays:
  assumes "on_rdma_recv_complete ok z w s = Some s'" "m_failed (sl_conn s)"
  shows "m_failed (sl_conn s')"
  using assms unfolding on_rdma_recv_complete_def Let_def
  by (auto simp: with_conn_def rdma_mark_failed_def rdma_disconnect_def rdma_mark_done_def dest!: process_failed post_recv_effect(5)
      split: if_splits option.splits wc.splits prod.splits)

lemma slave_complete_inv:
  assumes R: "on_rdma_recv_complete ok z w s = Some s'" and Z: "Z z" and I: "slave_inv Z D old srv0 b d s"
  shows "m_failed (sl_conn s') \<or>
    slave_inv Z D old srv0 b d s' \<and> acc_of s \<le> acc_of s' \<and> (sl_done_posted s \<longrightarrow> sl_done_posted s')"
proof -
  have I1: "slave_inv Z D old srv0 b d (with_conn (\<lambda>c. c\<lparr>m_completed_send := x\<rparr>) s)"
    "slave_inv Z D old srv0 b d (with_conn rdma_mark_done (with_conn (\<lambda>c. c\<lparr>m_completed_send := x\<rparr>) s))"
    "slave_inv Z D old srv0 b d (with_conn (\<lambda>c. c\<lparr>m_completed_recv := x\<rparr>) s)" for x
    unfolding with_conn_def by (simp_all add: rdma_mark_done_def slave_inv_conn [OF I])
  have I2: "slave_inv Z D old srv0 b d (s2\<lparr>sl_conn := c\<rparr>)"
    if "post_recv_slot rok sl (sl_conn s2) = (q, c)" "slave_inv Z D old srv0 b d s2" for rok sl q c s2
    by (rule slave_inv_conn [OF that(2)]) (use post_recv_effect [OF that(1)] in simp_all)
  note P = process_inv [OF _ Z I1(3)]
  show ?thesis
    using R I I1 unfolding on_rdma_recv_complete_def Let_def
    by (auto simp: with_conn_def rdma_mark_failed_def rdma_disconnect_def rdma_mark_done_def dest!: P [unfolded with_conn_def] intro: I2
        split: if_splits option.splits wc.splits prod.splits)
qed

subsection \<open>Invariant of both sides\<close>

definition sync_inv :: "('f chunk_env \<Rightarrow> bool) \<Rightarrow> string \<Rightarrow> cptr \<Rightarrow> 'f server \<Rightarrow> 'f sync_sys \<Rightarrow> bool" where
  "sync_inv Z D old srv0 Y \<longleftrightarrow> m_failed (sl_conn (y_s Y)) \<or>
     (\<exists>b d. master_inv D b d (acc_of (y_s Y)) (sl_done_posted (y_s Y)) (y_m Y) \<and> slave_inv Z D old srv0 b d (y_s Y))"

lemma write_delivered:
  assumes M: "master_inv D b d acc dn m" and S: "slave_inv Z D old srv0 b d s"
    and q: "m_sq (ma_conn m) = WWrite i len addr # q"
    and addr: "addr = m_base (sl_conn s) + j * m_local_slot_size (sl_conn s)"
  shows "master_inv D b (d + 1) acc dn (with_mconn (\<lambda>c. c\<lparr>m_sq := q\<rparr>) m)"
    "slave_inv Z D old srv0 b (d + 1)
       (with_conn (\<lambda>c. c\<lparr>m_data := (m_data c)(j := dma_write len (m_send (ma_conn m) i) (m_data c j))\<rparr>) s)"
proof -
  let ?c = "ma_conn m"
  obtain st where st: "ma_st m = Some st" "mi D b d acc dn (ma_replica m) ?c st"
    and f: "r_state (ma_replica m) \<in> {KVS_REPL_STATE_WAIT_FINSYNC, KVS_REPL_STATE_ONLINE} \<longrightarrow> dn"
    using M by (auto simp: master_inv_def)
  have W: "mi_window D b d acc ?c st" using st(2) by (simp add: mi_def)
  have wq: "WWrite i len addr # writes q = map (write_of D b) [d + 1..<t_next_seq st]" using W q by (simp add: mi_window_def)
  then have lt: "d + 1 < t_next_seq st" by (cases "d + 1 < t_next_seq st") simp_all
  then have "[d + 1..<t_next_seq st] = (d + 1) # [d + 2..<t_next_seq st]" by (simp add: upt_conv_Cons)
  then have h: "write_of D b (d + 1) = WWrite i len addr" and t: "writes q = map (write_of D b) [d + 2..<t_next_seq st]"
    using wq by simp_all
  have "mi_window D b (d + 1) acc (?c\<lparr>m_sq := q\<rparr>) st" using W t lt by (simp add: mi_window_def)
  then have "mi D b (d + 1) acc dn (ma_replica m) (?c\<lparr>m_sq := q\<rparr>) st" using st(2) by (simp add: mi_def linked_def)
  then show "master_inv D b (d + 1) acc dn (with_mconn (\<lambda>c. c\<lparr>m_sq := q\<rparr>) m)"
    using st(1) f by (simp add: master_inv_def)
  have C: "si_conn D b d (acc_of s) (sl_done_posted s) (sl_conn s)" using S by (simp add: slave_inv_def)
  have i: "i = slot_of (d + 1)" "len = HDR_SIZE + length (piece D (d + 1))" using h by (simp_all add: write_of_def)
  have "good D (d + 1) (m_send ?c i) \<or> rejected (m_send ?c i)" using W lt i(1) by (simp add: mi_window_def)
  then have "rejected (dma_write len (m_send ?c i) x) \<or> (\<exists>k. 1 \<le> k \<and> k \<le> d + 1 \<and> good D k (dma_write len (m_send ?c i) x))" for x
    using dma_keeps i(2) by (metis le_add2 order_refl)
  then have "si_conn D b (d + 1) (acc_of s) (sl_done_posted s)
      ((sl_conn s)\<lparr>m_data := (m_data (sl_conn s))(j := dma_write len (m_send ?c i) (m_data (sl_conn s) j))\<rparr>)"
    using si_conn_mono [OF C, of "d + 1" "acc_of s" "sl_done_posted s"] unfolding si_conn_def by simp
  then show "slave_inv Z D old srv0 b (d + 1)
      (with_conn (\<lambda>c. c\<lparr>m_data := (m_data c)(j := dma_write len (m_send ?c i) (m_data c j))\<rparr>) s)"
    using S by (simp add: slave_inv_def with_conn_def)
qed

lemma sync_step_inv: "sync_step Z Y Y' \<Longrightarrow> sync_inv Z D old srv0 Y \<Longrightarrow> sync_inv Z D old srv0 Y'"
proof (induction rule: sync_step.induct)
  case (m_write Y i len addr q j)
  show ?case
  proof (cases "m_failed (sl_conn (y_s Y))")
    case True
    then show ?thesis by (simp add: sync_inv_def with_conn_def)
  next
    case False
    then obtain b d where I: "master_inv D b d (acc_of (y_s Y)) (sl_done_posted (y_s Y)) (y_m Y)" "slave_inv Z D old srv0 b d (y_s Y)"
      using m_write.prems by (auto simp: sync_inv_def)
    show ?thesis
      using write_delivered [OF I m_write.hyps(1,2)]
      unfolding sync_inv_def by (intro disjI2 exI [of _ b] exI [of _ "d + 1"]) (simp add: with_conn_def)
  qed
next
  case (m_send Y i len q j rq)
  have "master_inv D b d acc dn (with_mconn (\<lambda>c. c\<lparr>m_sq := q\<rparr>) (y_m Y))" if "master_inv D b d acc dn (y_m Y)" for b d acc dn
    using that m_send.hyps(1) by (auto simp: master_inv_def mi_def mi_window_def linked_def)
  moreover have "slave_inv Z D old srv0 b d (with_conn (\<lambda>c. c\<lparr>m_rq := rq, m_ctrl := x\<rparr>) (y_s Y))"
    if "slave_inv Z D old srv0 b d (y_s Y)" for b d x
    unfolding with_conn_def by (rule slave_inv_conn [OF that]) simp_all
  ultimately show ?case using m_send.prems by (fastforce simp: sync_inv_def with_conn_def)
next
  case (s_send Y i len q j rq)
  have "master_inv D b d acc dn (with_mconn (\<lambda>c. c\<lparr>m_rq := rq, m_ctrl := (m_ctrl c)(j := x)\<rparr>) (y_m Y))"
    if "master_inv D b d acc dn (y_m Y)" "ctrl_ok acc dn x" for b d acc dn x
    by (rule master_inv_conn [OF that(1)]) (simp_all add: linked_def that(2))
  moreover have "slave_inv Z D old srv0 b d (with_conn (\<lambda>c. c\<lparr>m_sq := q\<rparr>) (y_s Y))"
    if "slave_inv Z D old srv0 b d (y_s Y)" for b d
    unfolding with_conn_def by (rule slave_inv_conn [OF that]) simp_all
  moreover have "ctrl_ok (acc_of (y_s Y)) (sl_done_posted (y_s Y)) (get_ctrl (m_send (sl_conn (y_s Y)) i))"
    if "slave_inv Z D old srv0 b d (y_s Y)" for b d
    using that by (simp add: slave_inv_def si_conn_def)
  ultimately show ?case using s_send.prems by (fastforce simp: sync_inv_def with_conn_def)
next
  case (m_sent Y i q ok cerr errs)
  then show ?case using write_complete_inv by (fastforce simp: sync_inv_def slave_inv_def)
next
  case (m_received Y i q ok rok errs)
  then show ?case using recv_complete_inv by (fastforce simp: sync_inv_def slave_inv_def)
next
  case (s_sent Y i q z ok s')
  then show ?case using slave_failed_stays [OF s_sent.hyps(3)] slave_complete_inv [of ok z "WcSend i" "y_s Y" s' Z, OF s_sent.hyps(3,2)]
      master_inv_mono
    by (fastforce simp: sync_inv_def)
next
  case (s_received Y i q z ok s')
  then show ?case using slave_failed_stays [OF s_received.hyps(3)] slave_complete_inv [of ok z "WcRecv i" "y_s Y" s' Z, OF s_received.hyps(3,2)]
      master_inv_mono
    by (fastforce simp: sync_inv_def)
next
  case (m_finsync fd Y r out)
  have "master_inv D b d acc dn ((y_m Y)\<lparr>ma_replica := r, ma_io := ma_io (y_m Y) @ out\<rparr>)"
    if "master_inv D b d acc dn (y_m Y)" for b d acc dn
    using that m_finsync.hyps
    by (auto simp: kvs_replication_master_handle_finsync_def find_replica_by_tcp_fd_def master_inv_def mi_def mi_state_def
        split: option.splits if_splits)
  then show ?case using m_finsync.prems by (fastforce simp: sync_inv_def)
qed

lemma post_recv_from_effect:
  "post_recv_from ok i n c = (ret, c1) \<Longrightarrow> linked b c1 = linked b c \<and> m_sq c1 = m_sq c \<and> m_send c1 = m_send c \<and> m_data c1 = m_data c \<and>
     m_base c1 = m_base c \<and> m_ready c1 = m_ready c \<and> m_local_slot_size c1 = m_local_slot_size c \<and>
     m_local_slot_count c1 = m_local_slot_count c \<and> (\<forall>j. m_ctrl c1 j = m_ctrl c j \<or> m_ctrl c1 j = zero_ctrl)"
proof (induction n arbitrary: i c)
  case (Suc n)
  obtain r c2 where r: "post_recv_slot (ok i) i c = (r, c2)" by fastforce
  note e = post_recv_effect [OF r]
  show ?case
  proof (cases "r = 0")
    case True
    then have "post_recv_from ok (i + 1) n c2 = (ret, c1)" using Suc.prems r by simp
    from Suc.IH [OF this] show ?thesis using e by metis
  qed (use Suc.prems r e in \<open>auto split: if_splits\<close>)
qed simp

lemma region_linked:
  assumes "post_recv_n rok n (fresh_conn base key) = (ret, cs)" "rdma_get_local_region cs = Some g"
    "rdma_set_remote_region (fresh_conn mbase mkey) g = (0, cm)"
  shows "linked base cm" "m_base cs = base" "m_sq cm = []" "m_ctrl cm j = zero_ctrl"
    "si_conn D base 0 acc dn cs"
proof -
  note e = post_recv_from_effect [OF assms(1) [unfolded post_recv_n_def]]
  have "ctrl_ok acc dn (get_ctrl zero_slot)"
    by (simp add: ctrl_ok_def get_ctrl_def zero_slot_def zero_header_def ctrl_types)
  then show "si_conn D base 0 acc dn cs" using e by (auto simp: si_conn_def fresh_conn_def)
  show "linked base cm" "m_base cs = base" "m_sq cm = []" "m_ctrl cm j = zero_ctrl"
    using e assms(2,3)
    by (auto simp: linked_def fresh_conn_def rdma_get_local_region_def rdma_set_remote_region_def split: if_splits)
qed

lemma start_inv:
  assumes "master_start_fullsync (0, Some D) True rok errs \<lparr>ma_replica = r, ma_conn = cm, ma_st = None, ma_io = []\<rparr> = (0, m)"
    "linked b cm" "m_sq cm = []" "\<forall>j. m_ctrl cm j = zero_ctrl" "r_state r = KVS_REPL_STATE_WAIT_RDMA"
  shows "master_inv D b 0 0 False m"
proof -
  let ?r = "(replica_free_snapshot r)\<lparr>r_buf := Some D, r_size := length D, r_offset := 0, r_seq := 1\<rparr>"
  have p: "master_prepare_snapshot (0, Some D) r = (0, ?r)" by (simp add: master_prepare_snapshot_def Let_def bytes_def)
  obtain q c where c: "post_recv_n rok RDMA_REPL_CTRL_RECV_DEPTH cm = (q, c)" by fastforce
  note e = post_recv_from_effect [OF c [unfolded post_recv_n_def]]
  have q0: "q = 0" using assms(1) p c by (auto simp: master_start_fullsync_def Let_def split: if_splits)
  obtain ret c1 st1 where u: "master_pump_locked errs 0 ?r c master_sync_state_new = (ret, c1, st1)"
    by (cases "master_pump_locked errs 0 ?r c master_sync_state_new") auto
  have "mi D b 0 0 False ?r c master_sync_state_new"
    using e assms(2-4) by (auto simp: mi_def mi_state_def mi_window_def master_sync_state_new_def zero_ss_def)
  then have "mi D b 0 0 False ?r c1 st1" by (rule pump_mi [OF u])
  moreover have "m = \<lparr>ma_replica = ?r, ma_conn = c1, ma_st = Some st1, ma_io = []\<rparr>"
    using assms(1) p c q0 u by (simp add: master_start_fullsync_def Let_def)
  ultimately show ?thesis using assms(5) by (simp add: master_inv_def replica_free_snapshot_def)
qed

lemma sync_run_inv: "sync_run Z (0, Some D) old srv Y \<Longrightarrow> sync_inv Z D old srv Y"
proof (induction rule: sync_run.induct)
  case (start rok base key cs g mbase mkey cm r rok' errs m tmp)
  note L = region_linked [OF start(1-3)]
  have "master_inv D base 0 0 False m" using start_inv [OF start(5) L(1,3) _ start(4)] L(4) by simp
  moreover have "slave_inv Z D old srv base 0 (slave_initial cs tmp old srv)"
    using L(5) by (simp add: slave_inv_def si_file_def acc_of_def slave_initial_def)
  moreover have "acc_of (slave_initial cs tmp old srv) = 0" "\<not> sl_done_posted (slave_initial cs tmp old srv)"
    by (simp_all add: slave_initial_def acc_of_def)
  ultimately show ?case unfolding sync_inv_def by (intro disjI2 exI [of _ base] exI [of _ 0]) simp
qed (rule sync_step_inv)

lemma reset_empties:
  assumes "kvs_reset_data_engines (\<lambda>_. all_ok) (\<lambda>_. Some []) s = Some (0, s')"
  shows "server_wf s'" "store_of g s' = Map.empty"
proof -
  have "sv_rbtree s' = snd (kvs_rbtree_create all_ok (zero_rbtree VNull))"
    "sv_hash s' = snd (kvs_hash_create all_ok (\<lambda>_. Some []) zero_hash)"
    "sv_skiplist s' = snd (kvs_skiplist_create all_ok zero_skiplist)"
    "sv_array s' = snd (kvs_array_create all_ok zero_array)"
    using assms unfolding kvs_reset_data_engines_def Let_def by (auto split: option.splits prod.splits if_splits)
  note c = this
  show "server_wf s'" using c fresh_rbtree(1) zeroed_table(1) [of zero_hash] fresh_skiplist(1) fresh_array(1)
    unfolding server_wf_def by simp
  show "store_of g s' = Map.empty"
    using c fresh_rbtree(2) zeroed_table(2) [of zero_hash] fresh_skiplist(2) fresh_array(2) by (cases g) simp_all
qed

end
