(* ===== verification/KVS_Fullcopy.thy ===== *)
theory KVS_Fullcopy
  imports KVS_Fullsync
begin

text \<open>
  What the full synchronisation achieves: the replica shows nothing of an unfinished transfer, and
  when the master takes it for synchronised it has the keys of the snapshot.
\<close>

lemma sync_safe:
  assumes "sync_run Z (0, Some D) old srv Y" "\<not> m_failed (sl_conn (y_s Y))"
  shows "\<not> sl_done_posted (y_s Y) \<longrightarrow> sl_file (y_s Y) = old \<and> sl_server (y_s Y) = srv"
    "r_state (ma_replica (y_m Y)) \<in> {KVS_REPL_STATE_WAIT_FINSYNC, KVS_REPL_STATE_ONLINE} \<longrightarrow> sl_done_posted (y_s Y)"
    "sl_done_posted (y_s Y) \<longrightarrow> loaded Z D srv (sl_file (y_s Y)) (sl_server (y_s Y))"
  using sync_run_inv [OF assms(1)] assms(2)
  by (auto simp: sync_inv_def slave_inv_def si_file_def master_inv_def split: if_splits)

text \<open>An environment of the replica in which memory is available and comes zeroed.\<close>

definition memory_ok :: "'f chunk_env \<Rightarrow> bool" where
  "memory_ok z \<longleftrightarrow> z_mk z = (\<lambda>_. all_ok) \<and> z_region z = (\<lambda>_. Some []) \<and> e_mok (z_env z) = all_ok \<and> z_bmok z = all_ok"

lemma loaded_copies:
  assumes M: "server_wf M" "rb_root (v_tree (sv_vector M)) = rb_nil (v_tree (sv_vector M))"
    "\<forall>g k v x. store_of g M k = Some (v, x) \<longrightarrow> plain_entry (k, v, x)"
    and D: "rdb_save_to_fp F m M = Some D"
    and L: "loaded Z D srv0 f srv" "\<forall>z. Z z \<longrightarrow> memory_ok z"
  shows "server_wf srv \<and> store_of g srv = store_of g M"
proof -
  obtain z srv1 where z: "memory_ok z" and ld: "(if D = [] then kvs_reset_data_engines (z_mk z) (z_region z) srv1
      else rdb_load_files (Some D) (z_seek z) (z_buf z) (z_read z) (z_mk z) (z_region z) (z_env z) (z_bmok z) srv1) = Some (0, srv)"
    using L unfolding loaded_def by blast
  have e: "e_mok (z_env z) = all_ok" using z by (simp add: memory_ok_def)
  obtain s0 where r: "kvs_reset_data_engines (\<lambda>_. all_ok) (\<lambda>_. Some []) srv1 = Some (0, s0)"
    and s0: "rdb_load_loop (z_env z) all_ok 0 0 0 D s0 = Some srv \<or> D = [] \<and> srv = s0"
    using ld z by (auto simp: memory_ok_def rdb_load_files_def rdb_load_from_memory_def split: if_splits option.splits prod.splits)
  note S = saved_snapshot_loads [OF M reset_empties(1) [OF r] _ e, of F m]
  obtain s' where s': "rdb_load_loop (z_env z) all_ok 0 0 0 D s0 = Some s'" "server_wf s'" "\<And>g. store_of g s' = store_of g M"
    using S reset_empties(2) [OF r] D by (metis option.inject)
  then have "srv = s'" if "D \<noteq> []" using s0 that by auto
  moreover have "s' = s0" if "D = []" using s'(1) that by simp
  ultimately show ?thesis using s0 s'(1-3) by (metis option.inject)
qed

subsection \<open>A transfer of one chunk\<close>

lemma post_recv_all:
  assumes "i + n \<le> RDMA_REPL_CTRL_RECV_DEPTH" "m_ready c"
  shows "\<exists>f h. post_recv_from (\<lambda>_. True) i n c =
      (0, c\<lparr>m_ctrl := f, m_recv_ctx := h, m_rq := m_rq c @ [i..<i + n], m_posted_recv := m_posted_recv c + n\<rparr>) \<and>
    (\<forall>j. i \<le> j \<and> j < i + n \<longrightarrow> h j = \<lparr>x_type = RDMA_WR_CTX_RECV, x_slot = j, x_seq = 0\<rparr>) \<and> (\<forall>j < i. h j = m_recv_ctx c j)"
  using assms
proof (induction n arbitrary: i c)
  case 0
  then show ?case by (intro exI [of _ "m_ctrl c"] exI [of _ "m_recv_ctx c"]) auto
next
  case (Suc n)
  let ?x = "\<lparr>x_type = RDMA_WR_CTX_RECV, x_slot = i, x_seq = 0\<rparr>"
  let ?c = "c\<lparr>m_ctrl := (m_ctrl c)(i := zero_ctrl), m_recv_ctx := (m_recv_ctx c)(i := ?x), m_rq := m_rq c @ [i],
    m_posted_recv := m_posted_recv c + 1\<rparr>"
  have c2: "post_recv_slot True i c = (0, ?c)" using Suc.prems by (simp add: post_recv_slot_def Let_def)
  obtain f h where c1: "post_recv_from (\<lambda>_. True) (i + 1) n ?c =
      (0, ?c\<lparr>m_ctrl := f, m_recv_ctx := h, m_rq := m_rq ?c @ [i + 1..<i + 1 + n], m_posted_recv := m_posted_recv ?c + n\<rparr>)"
    "\<forall>j. i + 1 \<le> j \<and> j < i + 1 + n \<longrightarrow> h j = \<lparr>x_type = RDMA_WR_CTX_RECV, x_slot = j, x_seq = 0\<rparr>"
    "\<forall>j < i + 1. h j = m_recv_ctx ?c j"
    using Suc.IH [of "i + 1" ?c] Suc.prems by auto
  have "h i = ?x" using c1(3) by simp
  then have "\<forall>j. i \<le> j \<and> j < i + Suc n \<longrightarrow> h j = \<lparr>x_type = RDMA_WR_CTX_RECV, x_slot = j, x_seq = 0\<rparr>"
    using c1(2) by (metis Suc_eq_plus1 add.assoc add.commute le_antisym not_less_eq_eq)
  then show ?case using c1 c2 by (intro exI [of _ f] exI [of _ h]) (simp add: upt_rec [of i])
qed

lemma post_recv_window:
  assumes "m_ready c" "0 < n" "n \<le> RDMA_REPL_CTRL_RECV_DEPTH" "m_rq c = []"
  obtains f h where "post_recv_n (\<lambda>_. True) n c =
      (0, c\<lparr>m_ctrl := f, m_recv_ctx := h, m_rq := 0 # [1..<n], m_posted_recv := m_posted_recv c + n\<rparr>)"
    "h 0 = \<lparr>x_type = RDMA_WR_CTX_RECV, x_slot = 0, x_seq = 0\<rparr>"
  using post_recv_all [of 0 n c] assms by (auto simp: post_recv_n_def min_def upt_rec [of 0])

text \<open>The first chunk in its slot, and the state of the master once it has been posted.\<close>

definition only_chunk :: "string \<Rightarrow> rslot" where
  "only_chunk D = \<lparr>s_hdr = good_hdr D 1, s_payload = D\<rparr>"

definition first_slot :: "string \<Rightarrow> bool \<Rightarrow> master_slot_state" where
  "first_slot D w = \<lparr>ss_in_use = True, ss_write_done = w, ss_acked = False, ss_is_last = True, ss_slot = 0, ss_seq = 1,
     ss_offset = 0, ss_len = length D\<rparr>"

definition chunk_sent :: "string \<Rightarrow> bool \<Rightarrow> master_sync_state" where
  "chunk_sent D w = \<lparr>t_next_seq = 2, t_next_offset = length D, t_empty_sent = False, t_done_received = False,
     t_finishing = False, t_slots = (\<lambda>_. zero_ss)(0 := first_slot D w)\<rparr>"

definition posted :: "string \<Rightarrow> conn_manger \<Rightarrow> conn_manger" where
  "posted D c = c\<lparr>m_send := (m_send c)(0 := only_chunk D),
     m_send_ctx := (m_send_ctx c)(0 := \<lparr>x_type = RDMA_WR_CTX_WRITE, x_slot = 0, x_seq = 1\<rparr>),
     m_sq := [write_of D 0 1], m_posted_send := m_posted_send c + 1\<rparr>"

lemma post_ok [simp]: "post_attempts RDMA_POST_SEND_RETRY_MAX 0 (\<lambda>_. 0)"
  by (simp add: RDMA_POST_SEND_RETRY_MAX_def numeral_eq_Suc)

lemma only_piece: "D \<noteq> [] \<Longrightarrow> length D \<le> P \<Longrightarrow> piece D (Suc 0) = D"
  by (simp add: piece_def)

lemma slot_of_1: "slot_of (Suc 0) = 0"
  by (simp add: slot_of_def)

lemma pump_idle:
  assumes "r_size r = length D" "D \<noteq> []" "m_has_remote_region c" "t_next_offset st = length D"
  shows "master_pump_locked (\<lambda>_ _. 0) k r c st = (if k > 0 then 1 else 0, c, st)"
  using assms by (subst master_pump_locked.simps) (simp add: master_send_one_locked_def)

lemma first_pump:
  assumes "linked 0 c" "m_sq c = []" "m_send c = (\<lambda>_. zero_slot)" "r_buf r = Some D" "r_size r = length D" "D \<noteq> []" "length D \<le> P"
  shows "master_pump_locked (\<lambda>_ _. 0) 0 r c master_sync_state_new = (1, posted D c, chunk_sent D False)"
proof -
  have mp: "max_payload c = P" by (rule max_payload_linked [OF assms(1)])
  have mn: "min (length D) P = length D" using assms(7) by simp
  have h: "chunk_header r 1 0 (length D) True 0 = good_hdr D 1"
    using assms(5-7) by (simp add: chunk_header_def good_hdr_def only_piece slot_of_1 bytes_def assms(4))
  have "master_send_one_locked (\<lambda>_. 0) r c master_sync_state_new = (1, posted D c, chunk_sent D False)"
    using assms mp mn h only_piece [OF assms(6,7)]
    by (simp add: master_send_one_locked_def master_sync_state_new_def linked_def rdma_send_slot_ptr_def zero_ss_def
        post_rdma_writev_slot_def Let_def set_send_ctx_def posted_def chunk_sent_def first_slot_def only_chunk_def overwrite_def bytes_def
        write_of_def rdma_remote_slot_addr_def slot_of_1 zero_slot_def RDMA_REPL_CHUNK_SIZE_def RDMA_IMM_LEN_MASK_def
        RDMA_REPL_SLOT_SIZE_def HDR_SIZE_def fun_eq_iff)
  then show ?thesis
    using pump_idle [OF assms(5,6), of "posted D c" "chunk_sent D False" 1] assms(1)
    by (subst master_pump_locked.simps) (simp add: master_sync_state_new_def posted_def chunk_sent_def linked_def)
qed

abbreviation ctrl_msg :: "nat \<Rightarrow> nat \<Rightarrow> rdma_ctrl_msg" where
  "ctrl_msg ty off \<equiv> \<lparr>k_magic = RDMA_REPL_MAGIC, k_type = ty, k_seq = 1, k_offset = off, k_status = 0, k_reserved = 0\<rparr>"

abbreviation recv_0 :: rdma_wr_ctx where
  "recv_0 \<equiv> \<lparr>x_type = RDMA_WR_CTX_RECV, x_slot = 0, x_seq = 0\<rparr>"

lemma ctrl_posted:
  assumes "m_ready c" "m_sq c = []" "sl < RDMA_REPL_WINDOW"
  obtains c1 where "post_ctrl_slot (\<lambda>_. 0) sl ty 1 off 0 c = (0, c1)" "m_sq c1 = [WSend sl CTRL_SIZE]" "get_ctrl (m_send c1 sl) = ctrl_msg ty off"
    "m_rq c1 = m_rq c" "m_recv_ctx c1 = m_recv_ctx c" "linked b c1 = linked b c" "m_failed c1 = m_failed c"
proof -
  let ?c = "c\<lparr>m_send := (m_send c)(sl := put_ctrl (ctrl_msg ty off) (m_send c sl)),
    m_send_ctx := (m_send_ctx c)(sl := \<lparr>x_type = RDMA_WR_CTX_SEND, x_slot = sl, x_seq = 1\<rparr>),
    m_sq := [WSend sl CTRL_SIZE], m_posted_send := m_posted_send c + 1\<rparr>"
  have "post_ctrl_slot (\<lambda>_. 0) sl ty 1 off 0 c = (0, ?c)"
    using assms by (simp add: post_ctrl_slot_def rdma_send_slot_ptr_def post_send_slot_def set_send_ctx_def Let_def CTRL_SIZE_def
        RDMA_REPL_SLOT_SIZE_def)
  then show ?thesis by (rule that) (simp_all add: get_put_ctrl linked_def)
qed

lemma write_completes:
  assumes "ma_conn m = c" "m_send_ctx c 0 = \<lparr>x_type = RDMA_WR_CTX_WRITE, x_slot = 0, x_seq = 1\<rparr>" "ma_st m = Some (chunk_sent D False)"
    "linked 0 c" "m_sq c = []" "r_size (ma_replica m) = length D" "D \<noteq> []"
  obtains c1 where "on_master_write_complete True (\<lambda>_. 0) (\<lambda>_ _. 0) 0 m = m\<lparr>ma_conn := c1, ma_st := Some (chunk_sent D True)\<rparr>"
    "m_sq c1 = [WSend 0 CTRL_SIZE]" "get_ctrl (m_send c1 0) = ctrl_msg RDMA_CTRL_CHUNK 0" "m_rq c1 = m_rq c" "m_recv_ctx c1 = m_recv_ctx c"
    "linked 0 c1"
proof -
  let ?c = "c\<lparr>m_completed_send := m_completed_send c + 1\<rparr>"
  have r: "m_ready ?c" "m_sq ?c = []" using assms(4,5) by (simp_all add: linked_def)
  have l: "linked 0 ?c" using assms(4) by (simp add: linked_def)
  obtain c1 where c1: "post_ctrl_slot (\<lambda>_. 0) 0 RDMA_CTRL_CHUNK 1 0 0 ?c = (0, c1)" "m_sq c1 = [WSend 0 CTRL_SIZE]"
    "get_ctrl (m_send c1 0) = ctrl_msg RDMA_CTRL_CHUNK 0" "m_rq c1 = m_rq ?c" "m_recv_ctx c1 = m_recv_ctx ?c" "linked 0 c1 = linked 0 ?c"
    by (rule ctrl_posted [OF r window_pos(1)])
  have l1: "linked 0 c1" using c1(6) l by simp
  have st: "(chunk_sent D False)\<lparr>t_slots := (t_slots (chunk_sent D False))(0 := (t_slots (chunk_sent D False) 0)\<lparr>ss_write_done := True\<rparr>)\<rparr> = chunk_sent D True"
    by (simp add: chunk_sent_def first_slot_def)
  have rel: "master_release_completed_slots_locked (chunk_sent D True) = chunk_sent D True"
    by (auto simp: master_release_completed_slots_locked_def chunk_sent_def first_slot_def zero_ss_def fun_eq_iff)
  have pump: "master_pump_locked (\<lambda>_ _. 0) 0 (ma_replica m) c1 (chunk_sent D True) = (0, c1, chunk_sent D True)"
    using pump_idle [OF assms(6,7), of c1 "chunk_sent D True" 0] l1 by (simp add: chunk_sent_def linked_def)
  have "\<not> master_should_finish_locked (chunk_sent D True)" by (simp add: master_should_finish_locked_def chunk_sent_def)
  then have "master_continue (\<lambda>_ _. 0) (chunk_sent D True) (m\<lparr>ma_conn := c1\<rparr>) = m\<lparr>ma_conn := c1, ma_st := Some (chunk_sent D True)\<rparr>"
    using rel pump by (simp add: master_continue_def)
  moreover have "t_slots (chunk_sent D False) 0 = first_slot D False" by (simp add: chunk_sent_def)
  ultimately have "on_master_write_complete True (\<lambda>_. 0) (\<lambda>_ _. 0) 0 m = m\<lparr>ma_conn := c1, ma_st := Some (chunk_sent D True)\<rparr>"
    using assms(1-3) c1(1) st by (simp add: on_master_write_complete_def Let_def first_slot_def)
  then show ?thesis using that [OF _ c1(2,3)] c1(4,5) l1 by simp
qed

lemma done_arrives:
  assumes "ma_conn m = c" "m_recv_ctx c 0 = recv_0" "m_ctrl c 0 = ctrl_msg RDMA_CTRL_DONE off" "ma_st m = Some (chunk_sent D True)" "m_ready c"
  shows "r_state (ma_replica (on_master_recv_complete True True (\<lambda>_ _. 0) 0 m)) = KVS_REPL_STATE_WAIT_FINSYNC"
proof -
  let ?c = "c\<lparr>m_completed_recv := m_completed_recv c + 1\<rparr>"
  obtain c1 where c1: "post_recv_slot True 0 ?c = (0, c1)"
    using assms(5) by (simp add: post_recv_slot_def Let_def RDMA_REPL_CTRL_RECV_DEPTH_def)
  let ?st = "(acknowledge 1 (chunk_sent D True))\<lparr>t_done_received := True\<rparr>"
  let ?st1 = "master_release_completed_slots_locked ?st"
  have free: "\<not> ss_in_use (t_slots ?st1 i)" for i
    by (simp add: master_release_completed_slots_locked_def acknowledge_def chunk_sent_def first_slot_def zero_ss_def RDMA_REPL_WINDOW_def)
  have d: "t_done_received ?st1" "\<not> t_finishing ?st1" by (simp_all add: master_release_completed_slots_locked_def acknowledge_def chunk_sent_def)
  have p: "master_pump_locked (\<lambda>_ _. 0) 0 r x ?st1 = (0, x, ?st1)" for r x using d(1) by (subst master_pump_locked.simps) simp
  have "master_should_finish_locked ?st1" using d free by (simp add: master_should_finish_locked_def master_has_inflight_locked_def)
  then have "r_state (ma_replica (master_continue (\<lambda>_ _. 0) ?st x)) = KVS_REPL_STATE_WAIT_FINSYNC" for x
    using p by (simp add: master_continue_def master_finish_fullsync_def Let_def)
  then show ?thesis
    using assms c1 by (simp add: on_master_recv_complete_def Let_def rdma_ctrl_recv_slot_ptr_def ctrl_types)
qed

definition ready_env :: "'f env \<Rightarrow> string \<Rightarrow> 'f chunk_env" where
  "ready_env e D = \<lparr>z_open = True, z_write = [Wrote (length D)], z_fsync = True, z_rename = True, z_seek = True, z_buf = True,
     z_read = True, z_mk = (\<lambda>_. all_ok), z_region = (\<lambda>_. Some []), z_env = e, z_bmok = all_ok, z_err = (\<lambda>_. 0), z_rok = True\<rparr>"

lemma chunk_processed:
  assumes "sl_conn s = c" "m_recv_ctx c 0 = recv_0" "m_ctrl c 0 = ctrl_msg RDMA_CTRL_CHUNK 0" "m_data c 0 = only_chunk D"
    "m_ready c" "\<not> m_failed c" "m_sq c = []" "m_local_slot_count c = RDMA_REPL_WINDOW" "m_local_slot_size c = RDMA_REPL_SLOT_SIZE"
    "sl_next_seq s = 1" "sl_rdb_offset s = 0" "\<not> sl_rdb_fd s" "sl_server s = srv" "D \<noteq> []" "length D \<le> P"
    "rdb_load_files (Some D) True True True (\<lambda>_. all_ok) (\<lambda>_. Some []) e all_ok srv = Some (0, srv')"
  obtains s' where "on_rdma_recv_complete True (ready_env e D) (WcRecv 0) s = Some s'" "\<not> m_failed (sl_conn s')"
    "m_sq (sl_conn s') = [WSend 1 CTRL_SIZE]" "get_ctrl (m_send (sl_conn s') 1) = ctrl_msg RDMA_CTRL_DONE (length D)"
proof -
  let ?c = "c\<lparr>m_completed_recv := m_completed_recv c + 1\<rparr>" and ?z = "ready_env e D"
  have r: "m_ready ?c" "m_sq ?c = []" "1 < RDMA_REPL_WINDOW" using assms(5,7) by (simp_all add: RDMA_REPL_WINDOW_def)
  obtain c1 where c1: "post_ctrl_slot (\<lambda>_. 0) 1 RDMA_CTRL_DONE 1 (length D) 0 ?c = (0, c1)" "m_sq c1 = [WSend 1 CTRL_SIZE]"
    "get_ctrl (m_send c1 1) = ctrl_msg RDMA_CTRL_DONE (length D)" "m_failed c1 = m_failed ?c"
    by (rule ctrl_posted [OF r])
  let ?s1 = "s\<lparr>sl_conn := ?c\<rparr>"
  let ?s2 = "?s1\<lparr>sl_rdb_fd := True, sl_tmp := Some D\<rparr>"
  have hdr: "s_hdr (m_data c 0) = good_hdr D 1" "read_payload (length D) (m_data c 0) = D"
    using assms(4) by (simp_all add: only_chunk_def read_payload_def)
  have pc: "piece D (Suc 0) = D" by (rule only_piece [OF assms(14,15)])
  have w: "write_full [Wrote (length D)] D [] = Some (True, D)" using assms(14) by (cases D) simp_all
  have st: "store_payload ?z (good_hdr D 1) D ?s1 = Some (Inr ?s2)"
    using assms(12,14) pc w by (simp add: store_payload_def good_hdr_def open_slave_rdb_def Let_def ready_env_def bytes_def)
  let ?s3 = "?s2\<lparr>sl_rdb_offset := length D\<rparr>"
  let ?s4 = "?s3\<lparr>sl_rdb_fd := False, sl_file := Some D, sl_tmp := None, sl_server := srv', sl_conn := c1, sl_done_posted := True, sl_done_seq := 1\<rparr>"
  have fin: "finish_rdb ?z (good_hdr D 1) ?s3 = Some (0, ?s4)"
    using assms(13,14,16) c1(1) r(3)
    by (simp add: finish_rdb_def commit_slave_rdb_def load_received_rdb_def good_hdr_def ready_env_def Let_def)
  have "process_rdma_chunk ?z 0 ?s1 = Some (0, ?s4)"
    using assms(5,8-11,15) hdr pc st fin r(3)
    by (simp add: process_rdma_chunk_def Let_def rdma_data_slot_ptr_def good_hdr_def slot_of_1 RDMA_REPL_CHUNK_SIZE_def)
  then have "on_rdma_recv_complete True ?z (WcRecv 0) s = Some ?s4"
    using assms(1-3,5) by (simp add: on_rdma_recv_complete_def wc_ctx_def with_conn_def rdma_ctrl_recv_slot_ptr_def Let_def)
  then show ?thesis using that [of ?s4] c1(2-4) assms(6) by simp
qed

lemma single_chunk_start:
  assumes "D \<noteq> []" "length D \<le> P"
  obtains cs m where "sync_run Z (0, Some D) old srv \<lparr>y_m = m, y_s = slave_initial cs None old srv, y_mc = [], y_mr = [], y_sc = [], y_sr = []\<rparr>"
    "m_ready cs" "m_base cs = 0" "m_sq cs = []" "\<not> m_failed cs" "\<exists>q. m_rq cs = 0 # q" "m_recv_ctx cs 0 = recv_0" "m_data cs = (\<lambda>_. zero_slot)"
    "m_local_slot_count cs = RDMA_REPL_WINDOW" "m_local_slot_size cs = RDMA_REPL_SLOT_SIZE"
    "ma_st m = Some (chunk_sent D False)" "linked 0 (ma_conn m)" "m_sq (ma_conn m) = [write_of D 0 1]" "m_send (ma_conn m) 0 = only_chunk D"
    "m_send_ctx (ma_conn m) 0 = \<lparr>x_type = RDMA_WR_CTX_WRITE, x_slot = 0, x_seq = 1\<rparr>" "\<exists>q. m_rq (ma_conn m) = 0 # q"
    "m_recv_ctx (ma_conn m) 0 = recv_0" "r_size (ma_replica m) = length D"
proof -
  have W: "RDMA_REPL_WINDOW \<le> RDMA_REPL_CTRL_RECV_DEPTH" "0 < RDMA_REPL_CTRL_RECV_DEPTH"
    by (simp_all add: RDMA_REPL_WINDOW_def RDMA_REPL_CTRL_RECV_DEPTH_def)
  have F: "m_ready (fresh_conn 0 0)" "m_rq (fresh_conn 0 0) = []" by (simp_all add: fresh_conn_def)
  obtain f h where h: "h 0 = recv_0" and cs0: "post_recv_n (\<lambda>_. True) RDMA_REPL_WINDOW (fresh_conn 0 0) =
      (0, (fresh_conn 0 0)\<lparr>m_ctrl := f, m_recv_ctx := h, m_rq := 0 # [1..<RDMA_REPL_WINDOW],
        m_posted_recv := m_posted_recv (fresh_conn 0 0) + RDMA_REPL_WINDOW\<rparr>)" (is "_ = (0, ?cs)")
    by (rule post_recv_window [OF F(1) window_pos(1) W(1) F(2)])
  define g where "g = \<lparr>g_addr = 0, g_rkey = 0, g_length = RDMA_REPL_WINDOW * RDMA_REPL_SLOT_SIZE, g_slot_size = RDMA_REPL_SLOT_SIZE,
    g_slot_count = RDMA_REPL_WINDOW, g_version = RDMA_REPL_VERSION\<rparr>"
  have g: "rdma_get_local_region ?cs = Some g"
    by (simp add: rdma_get_local_region_def fresh_conn_def g_def RDMA_REPL_WINDOW_def RDMA_REPL_SLOT_SIZE_def)
  let ?cm = "(fresh_conn 0 0)\<lparr>m_remote_addr := 0, m_remote_rkey := 0, m_remote_len := RDMA_REPL_WINDOW * RDMA_REPL_SLOT_SIZE,
    m_remote_slot_size := RDMA_REPL_SLOT_SIZE, m_remote_slot_count := RDMA_REPL_WINDOW, m_has_remote_region := True\<rparr>"
  have cm: "rdma_set_remote_region (fresh_conn 0 0) g = (0, ?cm)"
    by (simp add: rdma_set_remote_region_def g_def RDMA_REPL_WINDOW_def RDMA_REPL_SLOT_SIZE_def HDR_SIZE_def)
  have M: "m_ready ?cm" "m_rq ?cm = []" by (simp_all add: fresh_conn_def)
  obtain f' h' where h': "h' 0 = recv_0" and cm0: "post_recv_n (\<lambda>_. True) RDMA_REPL_CTRL_RECV_DEPTH ?cm =
      (0, ?cm\<lparr>m_ctrl := f', m_recv_ctx := h', m_rq := 0 # [1..<RDMA_REPL_CTRL_RECV_DEPTH],
        m_posted_recv := m_posted_recv ?cm + RDMA_REPL_CTRL_RECV_DEPTH\<rparr>)" (is "_ = (0, ?c)")
    by (rule post_recv_window [OF M(1) W(2) order_refl M(2)])
  define r where "r = \<lparr>r_fd = 0, r_addr = 0, r_state = KVS_REPL_STATE_WAIT_RDMA, r_cm_id = None, r_buf = None, r_size = 0, r_offset = 0, r_seq = 0\<rparr>"
  let ?r = "(replica_free_snapshot r)\<lparr>r_buf := Some D, r_size := length D, r_offset := 0, r_seq := 1\<rparr>"
  have l: "linked 0 ?c" "m_sq ?c = []" "m_send ?c = (\<lambda>_. zero_slot)" by (simp_all add: linked_def fresh_conn_def)
  have p: "master_pump_locked (\<lambda>_ _. 0) 0 ?r ?c master_sync_state_new = (1, posted D ?c, chunk_sent D False)"
    by (rule first_pump [OF l _ _ assms]) simp_all
  let ?m = "\<lparr>ma_replica = ?r, ma_conn = posted D ?c, ma_st = Some (chunk_sent D False), ma_io = []\<rparr>"
  have st: "master_start_fullsync (0, Some D) True (\<lambda>_. True) (\<lambda>_ _. 0) \<lparr>ma_replica = r, ma_conn = ?cm, ma_st = None, ma_io = []\<rparr> = (0, ?m)"
    using p cm0 by (simp add: master_start_fullsync_def master_prepare_snapshot_def bytes_def Let_def)
  have run: "sync_run Z (0, Some D) old srv \<lparr>y_m = ?m, y_s = slave_initial ?cs None old srv, y_mc = [], y_mr = [], y_sc = [], y_sr = []\<rparr>"
    by (rule sync_run.start [OF cs0 g cm _ st]) (simp add: r_def)
  show ?thesis
    by (rule that [OF run]) (use h h' l(1) in \<open>simp_all add: fresh_conn_def posted_def linked_def\<close>)
qed

text \<open>Without failures a snapshot of one chunk arrives, is loaded, and the master is told.\<close>

lemma single_chunk_run:
  assumes D: "D \<noteq> []" "length D \<le> P" and Z: "Z (ready_env e D)"
    and load: "rdb_load_files (Some D) True True True (\<lambda>_. all_ok) (\<lambda>_. Some []) e all_ok srv = Some (0, srv')"
  shows "\<exists>Y. sync_run Z (0, Some D) old srv Y \<and> \<not> m_failed (sl_conn (y_s Y)) \<and>
    r_state (ma_replica (y_m Y)) = KVS_REPL_STATE_WAIT_FINSYNC"
proof -
  obtain cs m where run: "sync_run Z (0, Some D) old srv \<lparr>y_m = m, y_s = slave_initial cs None old srv, y_mc = [], y_mr = [], y_sc = [], y_sr = []\<rparr>"
    (is "sync_run _ _ _ _ ?Y0")
    and s: "m_ready cs" "m_base cs = 0" "m_sq cs = []" "\<not> m_failed cs" "\<exists>q. m_rq cs = 0 # q" "m_recv_ctx cs 0 = recv_0" "m_data cs = (\<lambda>_. zero_slot)"
    "m_local_slot_count cs = RDMA_REPL_WINDOW" "m_local_slot_size cs = RDMA_REPL_SLOT_SIZE"
    and m: "ma_st m = Some (chunk_sent D False)" "linked 0 (ma_conn m)" "m_sq (ma_conn m) = [write_of D 0 1]" "m_send (ma_conn m) 0 = only_chunk D"
    "m_send_ctx (ma_conn m) 0 = \<lparr>x_type = RDMA_WR_CTX_WRITE, x_slot = 0, x_seq = 1\<rparr>" "\<exists>q. m_rq (ma_conn m) = 0 # q"
    "m_recv_ctx (ma_conn m) 0 = recv_0" "r_size (ma_replica m) = length D"
    by (rule single_chunk_start [OF D, of Z old srv])
  have pc: "piece D (Suc 0) = D" by (rule only_piece [OF D])
  have sq: "m_sq (ma_conn m) = WWrite 0 (HDR_SIZE + length D) 0 # []" using m(3) pc by (simp add: write_of_def slot_of_1)
  have dma: "dma_write (HDR_SIZE + length D) (only_chunk D) zero_slot = only_chunk D"
    by (simp add: dma_write_def only_chunk_def zero_slot_def overwrite_def)
  let ?m1 = "with_mconn (\<lambda>c. c\<lparr>m_sq := []\<rparr>) m" and ?s1 = "slave_initial (cs\<lparr>m_data := (m_data cs)(0 := only_chunk D)\<rparr>) None old srv"
  have "sync_step Z ?Y0 \<lparr>y_m = ?m1, y_s = ?s1, y_mc = [0], y_mr = [], y_sc = [], y_sr = []\<rparr>"
    using sync_step.m_write [of ?Y0 0 "HDR_SIZE + length D" 0 "[]" 0 Z] sq s(2,7,8) dma m(4)
    by (simp add: slave_initial_def with_conn_def)
  note run1 = sync_run.step [OF run this]
  obtain c2 where c2: "on_master_write_complete True (\<lambda>_. 0) (\<lambda>_ _. 0) 0 ?m1 = ?m1\<lparr>ma_conn := c2, ma_st := Some (chunk_sent D True)\<rparr>"
    "m_sq c2 = [WSend 0 CTRL_SIZE]" "get_ctrl (m_send c2 0) = ctrl_msg RDMA_CTRL_CHUNK 0" "m_rq c2 = m_rq (ma_conn ?m1)"
    "m_recv_ctx c2 = m_recv_ctx (ma_conn ?m1)" "linked 0 c2"
    by (rule write_completes [OF refl, of ?m1 D]) (use m D in \<open>simp_all add: linked_def\<close>)
  let ?m2 = "?m1\<lparr>ma_conn := c2, ma_st := Some (chunk_sent D True)\<rparr>"
  have "sync_step Z \<lparr>y_m = ?m1, y_s = ?s1, y_mc = [0], y_mr = [], y_sc = [], y_sr = []\<rparr>
      \<lparr>y_m = ?m2, y_s = ?s1, y_mc = [], y_mr = [], y_sc = [], y_sr = []\<rparr>"
    using sync_step.m_sent [of "\<lparr>y_m = ?m1, y_s = ?s1, y_mc = [0], y_mr = [], y_sc = [], y_sr = []\<rparr>" 0 "[]" Z True "\<lambda>_. 0" "\<lambda>_ _. 0"] c2(1)
    by simp
  note run2 = sync_run.step [OF run1 this]
  obtain q where q: "m_rq cs = 0 # q" using s(5) by blast
  let ?m3 = "?m2\<lparr>ma_conn := c2\<lparr>m_sq := []\<rparr>\<rparr>"
  let ?s3 = "slave_initial (cs\<lparr>m_data := (m_data cs)(0 := only_chunk D), m_rq := q,
    m_ctrl := (m_ctrl cs)(0 := ctrl_msg RDMA_CTRL_CHUNK 0)\<rparr>) None old srv"
  have "sync_step Z \<lparr>y_m = ?m2, y_s = ?s1, y_mc = [], y_mr = [], y_sc = [], y_sr = []\<rparr>
      \<lparr>y_m = ?m3, y_s = ?s3, y_mc = [0], y_mr = [], y_sc = [], y_sr = [0]\<rparr>"
    using sync_step.m_send [of "\<lparr>y_m = ?m2, y_s = ?s1, y_mc = [], y_mr = [], y_sc = [], y_sr = []\<rparr>" 0 CTRL_SIZE "[]" 0 q Z] c2(2,3) q
    by (simp add: slave_initial_def with_conn_def)
  note run3 = sync_run.step [OF run2 this]
  obtain s4 where s4: "on_rdma_recv_complete True (ready_env e D) (WcRecv 0) ?s3 = Some s4" "\<not> m_failed (sl_conn s4)"
    "m_sq (sl_conn s4) = [WSend 1 CTRL_SIZE]" "get_ctrl (m_send (sl_conn s4) 1) = ctrl_msg RDMA_CTRL_DONE (length D)"
    by (rule chunk_processed [OF refl _ _ _ _ _ _ _ _ _ _ _ _ D load, of ?s3]) (use s in \<open>simp_all add: slave_initial_def\<close>)
  have "sync_step Z \<lparr>y_m = ?m3, y_s = ?s3, y_mc = [0], y_mr = [], y_sc = [], y_sr = [0]\<rparr>
      \<lparr>y_m = ?m3, y_s = s4, y_mc = [0], y_mr = [], y_sc = [], y_sr = []\<rparr>"
    using sync_step.s_received [of "\<lparr>y_m = ?m3, y_s = ?s3, y_mc = [0], y_mr = [], y_sc = [], y_sr = [0]\<rparr>" 0 "[]" Z, OF _ Z] s4(1) by simp
  note run4 = sync_run.step [OF run3 this]
  obtain q' where q': "m_rq c2 = 0 # q'" using m(6) c2(4) by auto
  let ?c5 = "c2\<lparr>m_sq := [], m_rq := q', m_ctrl := (m_ctrl c2)(0 := ctrl_msg RDMA_CTRL_DONE (length D))\<rparr>"
  let ?m5 = "?m2\<lparr>ma_conn := ?c5\<rparr>" and ?s5 = "s4\<lparr>sl_conn := (sl_conn s4)\<lparr>m_sq := []\<rparr>\<rparr>"
  have "sync_step Z \<lparr>y_m = ?m3, y_s = s4, y_mc = [0], y_mr = [], y_sc = [], y_sr = []\<rparr>
      \<lparr>y_m = ?m5, y_s = ?s5, y_mc = [0], y_mr = [0], y_sc = [1], y_sr = []\<rparr>"
    using sync_step.s_send [of "\<lparr>y_m = ?m3, y_s = s4, y_mc = [0], y_mr = [], y_sc = [], y_sr = []\<rparr>" 1 CTRL_SIZE "[]" 0 q' Z] s4(3,4) q'
    by (simp add: with_conn_def)
  note run5 = sync_run.step [OF run4 this]
  have fin: "r_state (ma_replica (on_master_recv_complete True True (\<lambda>_ _. 0) 0 ?m5)) = KVS_REPL_STATE_WAIT_FINSYNC"
    by (rule done_arrives [OF refl]) (use c2(5,6) m(7) in \<open>simp_all add: linked_def\<close>)
  show ?thesis
    using sync_run.step [OF run5 sync_step.m_received [of _ 0 "[]" Z True True "\<lambda>_ _. 0"]] s4(2) fin by fastforce
qed

subsection \<open>A replica of a server with one key\<close>

lemma reset_succeeds:
  assumes "server_wf s" "rb_root (v_tree (sv_vector s)) = rb_nil (v_tree (sv_vector s))"
  shows "\<exists>s'. kvs_reset_data_engines (\<lambda>_. all_ok) (\<lambda>_. Some []) s = Some (0, s')"
proof -
  obtain N where N: "rb_heap (sv_rbtree s) N" using assms(1) by (auto simp: server_wf_def kvs_rbtree_inv_def)
  obtain t where t: "kvs_rbtree_destory (sv_rbtree s) = Some t"
    using destroy_loop_spec [OF N] by (auto simp: kvs_rbtree_destory_def)
  have "\<forall>i < nat (max_slots (sv_hash s)). nodes (sv_hash s) i \<noteq> None"
    using assms(1) by (auto simp: server_wf_def kvs_hash_inv_def MAX_TABLE_SIZE_def)
  then obtain h where h: "kvs_hash_destory (sv_hash s) = Some h" by (simp add: kvs_hash_destory_def list_all_iff)
  obtain k where k: "kvs_skiplist_destroy (sv_skiplist s) = Some k"
    using assms(1) destroy_spec [of "sv_skiplist s"] by (auto simp: server_wf_def)
  obtain v where v: "kvs_vector_destroy (sv_vector s) = Some v"
    using assms(2) by (simp add: kvs_vector_destroy_def kvs_rbtree_destory_def destroy_loop.simps)
  show ?thesis unfolding kvs_reset_data_engines_def using t h k v
    by (auto simp: kvs_array_create_def zero_array_def kvs_rbtree_create_def kvs_hash_create_def kvs_skiplist_create_def kvs_vector_create_def
        Let_def skiplist_new_node_def split: prod.splits)
qed

lemma enumerates_empty: "enumerates es Map.empty \<Longrightarrow> es = []"
  by (simp add: enumerates_def)

lemma enumerates_single:
  assumes "enumerates es [k \<mapsto> y]"
  shows "es = [(k, y)]"
proof -
  have d: "distinct (map fst es)" and m: "map_of es = [k \<mapsto> y]" using assms by (simp_all add: enumerates_def)
  have "(a, c) \<in> set es \<longleftrightarrow> a = k \<and> c = y" for a c using map_of_eq_Some_iff [OF d, of a c] m by (auto split: if_splits)
  then have "set es = {(k, y)}" by auto
  moreover have "distinct es" using d by (simp add: distinct_map)
  ultimately have "length es = 1" using distinct_card [of es] by simp
  then obtain x where "es = [x]" by (cases es) auto
  then show ?thesis using \<open>set es = {(k, y)}\<close> by simp
qed

lemma sample_sync:
  "\<exists>M D Y. server_wf M \<and> rb_root (v_tree (sv_vector M)) = rb_nil (v_tree (sv_vector M)) \<and>
     (\<forall>g k v x. store_of g M k = Some (v, x) \<longrightarrow> plain_entry (k, v, x)) \<and> store_of Skiplist M ''k'' = Some (''v'', 7) \<and>
     rdb_save_to_fp int_fops True M = Some D \<and> D \<noteq> [] \<and> sync_run memory_ok (0, Some D) None booted Y \<and>
     \<not> m_failed (sl_conn (y_s Y)) \<and> r_state (ma_replica (y_m Y)) = KVS_REPL_STATE_WAIT_FINSYNC"
proof -
  let ?e = "calm_env int_fops 0"
  have ok: "e_mok ?e = all_ok" by (simp add: calm_env_def)
  obtain M where M: "server_wf M" "store_of Skiplist M = [''k'' \<mapsto> (''v'', 7)]"
    "\<forall>h. h \<noteq> Skiplist \<longrightarrow> store_of h M = Map.empty" "sv_vector M = sv_vector booted"
    by (rule store_one [OF booted_wf ok, of Skiplist "''k''" "''v''" 7])
      (simp_all add: room_def booted_empty(1) del: store_of.simps)
  have v: "rb_root (v_tree (sv_vector M)) = rb_nil (v_tree (sv_vector M))" using M(4) booted_empty(2) by simp
  have pl: "\<forall>g k v x. store_of g M k = Some (v, x) \<longrightarrow> plain_entry (k, v, x)"
    unfolding all_conv_engine using M(2,3) by (simp add: plain_entry_def in_ll_def del: store_of.simps)
  obtain es where es: "\<And>g. enumerates (es g) (store_of g M)" "rdb_save_to_fp int_fops True M =
      rec_out (recs (type_of Array) (es Array) @ recs (type_of Rbtree) (es Rbtree) @ recs (type_of Hash) (es Hash) @ recs (type_of Skiplist) (es Skiplist))"
    using saved_records [OF M(1) v, of int_fops True] by blast
  have "es Array = []" "es Rbtree = []" "es Hash = []" "es Skiplist = [(''k'', ''v'', 7)]"
    using es(1) [of Array] es(1) [of Rbtree] es(1) [of Hash] es(1) [of Skiplist] M(2,3) enumerates_empty enumerates_single
    by (simp_all del: store_of.simps)
  moreover have "plain_entry (''k'', ''v'', 7)" by (simp add: plain_entry_def in_ll_def)
  ultimately have D: "rdb_save_to_fp int_fops True M = Some (kv_bytes (type_of Skiplist) (''k'', ''v'', 7))" (is "_ = Some ?D")
    using es(2) by (simp add: write_kv_bytes)
  have len: "?D \<noteq> []" "length ?D \<le> P"
    by (simp_all add: kv_bytes_def le_bytes_def RDMA_REPL_CHUNK_SIZE_def RDMA_REPL_SLOT_SIZE_def HDR_SIZE_def)
  obtain s0 where s0: "kvs_reset_data_engines (\<lambda>_. all_ok) (\<lambda>_. Some []) booted = Some (0, s0)"
    using reset_succeeds [OF booted_wf booted_empty(2)] by blast
  obtain s' where "rdb_load_loop ?e all_ok 0 0 0 ?D s0 = Some s'"
    using saved_snapshot_loads [OF M(1) v pl reset_empties(1) [OF s0] _ ok, of int_fops True] reset_empties(2) [OF s0] D by (metis option.inject)
  then have load: "rdb_load_files (Some ?D) True True True (\<lambda>_. all_ok) (\<lambda>_. Some []) ?e all_ok booted = Some (0, s')"
    using s0 len(1) by (simp add: rdb_load_files_def rdb_load_from_memory_def)
  have "memory_ok (ready_env ?e ?D)" by (simp add: memory_ok_def ready_env_def ok)
  from single_chunk_run [of ?D memory_ok ?e booted s' None, OF len this load] obtain Y where
    "sync_run memory_ok (0, Some ?D) None booted Y" "\<not> m_failed (sl_conn (y_s Y))"
    "r_state (ma_replica (y_m Y)) = KVS_REPL_STATE_WAIT_FINSYNC" by blast
  then show ?thesis using M(1,2) v pl D len(1) by (intro exI [of _ M] exI [of _ ?D] exI [of _ Y]) (simp del: store_of.simps)
qed

subsection \<open>Properties\<close>

text \<open>C4: However the device executes posted work, in whatever order completions are reported, and
  whatever posting, writing, allocating and loading give, a replica that has not failed shows nothing
  of an unfinished transfer: until it has reported the end its snapshot file and its engines are
  those it had before. The master takes the replica for synchronised only after that report, and
  then the file is the snapshot of the master byte for byte and has been loaded successfully.\<close>

theorem fullsync_safe:
  assumes "sync_run Z (0, Some D) old srv Y" "\<not> m_failed (sl_conn (y_s Y))"
  shows "(\<not> sl_done_posted (y_s Y) \<longrightarrow> sl_file (y_s Y) = old \<and> sl_server (y_s Y) = srv) \<and>
    (r_state (ma_replica (y_m Y)) \<in> {KVS_REPL_STATE_WAIT_FINSYNC, KVS_REPL_STATE_ONLINE} \<longrightarrow> sl_done_posted (y_s Y)) \<and>
    (sl_done_posted (y_s Y) \<longrightarrow> loaded Z D srv (sl_file (y_s Y)) (sl_server (y_s Y)))"
  using sync_safe [OF assms] by blast

theorem fullsync_safe_witness:
  "\<exists>D Y. D \<noteq> [] \<and> sync_run memory_ok (0, Some D) None booted Y \<and> sl_done_posted (y_s Y) \<and> sl_file (y_s Y) = Some D"
proof -
  obtain D Y where *: "D \<noteq> []" "sync_run memory_ok (0, Some D) None booted Y" "\<not> m_failed (sl_conn (y_s Y))"
    "r_state (ma_replica (y_m Y)) = KVS_REPL_STATE_WAIT_FINSYNC" using sample_sync by blast
  from fullsync_safe [OF *(2,3)] show ?thesis using * by (auto simp: loaded_def)
qed



end
