(* ===== verification/KVS_Stream.thy ===== *)
theory KVS_Stream
  imports KVS_Rdma KVS_Recover "HOL-Library.Sublist"
begin

text \<open>
  The replica after the full synchronisation (\<open>kvs_repli_slave.c\<close>): the socket helpers, and the
  thread that receives forwarded requests, executes and acknowledges them.
\<close>

subsection \<open>Socket helpers\<close>

text \<open>What one call of \<open>send\<close> and one call of \<open>recv\<close> gives; an empty list of results is a call that
  has not returned. The kernel takes and gives no more bytes than it is asked for.\<close>

datatype send_result = Sends nat | SendInterrupted | SendFails

datatype recv_result = Gets string | RecvInterrupted | RecvFails

fun send_all :: "send_result list \<Rightarrow> string \<Rightarrow> (int \<times> string) option" where
  "send_all rs [] = Some (0, [])"
| "send_all [] (b # buf) = None"
| "send_all (SendInterrupted # rs) (b # buf) = send_all rs (b # buf)"
| "send_all (SendFails # rs) (b # buf) = Some (-1, [])"
| "send_all (Sends n # rs) (b # buf) =
     (if n = 0 then Some (-1, [])
      else map_option (\<lambda>(r, out). (r, take n (b # buf) @ out)) (send_all rs (drop n (b # buf))))"

text \<open>\<open>buf\<close> is what has arrived in the buffer of 128 bytes.\<close>

fun recv_until_token :: "recv_result list \<Rightarrow> string \<Rightarrow> string \<Rightarrow> int option" where
  "recv_until_token rs token buf =
     (if length buf < 127 then
        (case rs of [] \<Rightarrow> None
         | RecvInterrupted # rs' \<Rightarrow> recv_until_token rs' token buf
         | RecvFails # rs' \<Rightarrow> Some (-1)
         | Gets d # rs' \<Rightarrow>
             if d = [] then Some (-1)
             else let buf' = buf @ take (127 - length buf) d in
               if length buf' \<ge> length token \<and> sublist token (cstr buf') then Some 0
               else recv_until_token rs' token buf')
      else Some (-1))"

declare recv_until_token.simps [simp del]

definition recv_master_done :: "recv_result list \<Rightarrow> int option" where
  "recv_master_done rs = recv_until_token rs (''+DONE'' @ CRLF) []"

definition repl_ack :: string where
  "repl_ack = ''+ACK'' @ CRLF"

definition send_repl_ack :: "send_result list \<Rightarrow> (int \<times> string) option" where
  "send_repl_ack rs = send_all rs repl_ack"

lemma send_all_done: "send_all rs buf = Some (0, out) \<Longrightarrow> out = buf"
  by (induction rs buf arbitrary: out rule: send_all.induct) (auto split: if_splits)

lemma send_all_prefix: "send_all rs buf = Some (r, out) \<Longrightarrow> prefix out buf"
proof (induction rs buf arbitrary: out rule: send_all.induct)
  case (5 n rs b buf)
  then show ?case
    by (auto split: if_splits) (metis append_take_drop_id same_prefix_prefix)
qed auto

subsection \<open>Joining a master\<close>

text \<open>\<open>sock\<close> and \<open>conn\<close> say whether socket and connection can be made; the bytes are those sent to the
  master.\<close>

definition connect_master_tcp :: "bool \<Rightarrow> bool \<Rightarrow> send_result list \<Rightarrow> recv_result list \<Rightarrow> (bool \<times> string) option" where
  "connect_master_tcp sock conn ss rs =
     (if \<not> sock \<or> \<not> conn then Some (False, [])
      else (case send_all ss (''*1'' @ CRLF @ ''$4'' @ CRLF @ ''SYNC'' @ CRLF) of None \<Rightarrow> None
        | Some (r, out) \<Rightarrow>
            if r \<noteq> 0 then Some (False, out)
            else map_option (\<lambda>q. (q = 0, out)) (recv_until_token rs (''+OK'' @ CRLF) [])))"

text \<open>
  \<open>tcp\<close> is what connecting gave, \<open>c\<close> the RDMA connection when waiting ends (\<open>None\<close> when connecting
  failed). The result, the bytes sent to the master, and \<open>slave_running\<close>.
\<close>

definition kvs_replication_slave_start ::
    "bool \<Rightarrow> bool \<times> string \<Rightarrow> conn_manger option \<Rightarrow> recv_result list \<Rightarrow> send_result list \<Rightarrow> (int \<times> string \<times> bool) option" where
  "kvs_replication_slave_start listener tcp c rs ss =
     (if \<not> listener then Some (-1, [], True)
      else if \<not> fst tcp then Some (-1, snd tcp, False)
      else (case c of None \<Rightarrow> Some (-1, snd tcp, False)
        | Some c \<Rightarrow>
            if \<not> rdma_wait_done c then None
            else if m_failed c \<or> \<not> m_done c then Some (-1, snd tcp, False)
            else (case recv_master_done rs of None \<Rightarrow> None
              | Some r \<Rightarrow>
                  if r \<noteq> 0 then Some (-1, snd tcp, False)
                  else map_option (\<lambda>(q, out). (if q \<noteq> 0 then -1 else 0, snd tcp @ out, q = 0))
                         (send_all ss (''*1'' @ CRLF @ ''$7'' @ CRLF @ ''FINSYNC'' @ CRLF)))))"

text \<open>A replica that has joined did so on a connection that finished without failing.\<close>

lemma slave_joined:
  assumes "kvs_replication_slave_start listener tcp c rs ss = Some (0, out, run)"
  obtains c' where "c = Some c'" "m_done c'" "\<not> m_failed c'" "recv_master_done rs = Some 0" run
    "out = snd tcp @ ''*1'' @ CRLF @ ''$7'' @ CRLF @ ''FINSYNC'' @ CRLF"
  using assms by (auto simp: kvs_replication_slave_start_def split: if_splits option.splits dest!: send_all_done)

subsection \<open>The receiving thread\<close>

text \<open>\<open>t_open\<close> says that the thread has not left its loop, \<open>t_out\<close> are the bytes it has sent.\<close>

record 'f rthread =
  rt_buf :: string
  rt_size :: nat
  rt_open :: bool
  rt_running :: bool
  rt_out :: string
  rt_server :: "'f server"

datatype recv_got = GotBytes string | GotEnd | GotInterrupt | GotAgain | GotError

record 'f stream_env =
  q_grow :: bool
  q_got :: recv_got
  q_mok :: "nat \<Rightarrow> mallocs"
  q_env :: "nat \<Rightarrow> 'f env"
  q_ack :: "nat \<Rightarrow> send_result list"

text \<open>\<open>apply_failed\<close>.\<close>

definition apply_failed :: "int \<Rightarrow> cptr \<Rightarrow> bool" where
  "apply_failed resp_len resp \<longleftrightarrow> resp_len < 0 \<or>
     (resp_len > 0 \<and> (case resp of None \<Rightarrow> False | Some x \<Rightarrow> x \<noteq> [] \<and> hd x = CHR ''-''))"

text \<open>
  The inner loop from \<open>parse_offset = off\<close>: the offset it ends with, whether \<open>slave_running\<close> is still
  set, the bytes sent, the server.
\<close>

function apply_loop ::
    "'f stream_env \<Rightarrow> nat \<Rightarrow> int \<Rightarrow> nat \<Rightarrow> string \<Rightarrow> 'f server \<Rightarrow> fault + nat \<times> bool \<times> string \<times> 'f server" where
  "apply_loop E i fd off buf s =
     (let rest = drop off buf in
      if rest = [] then Inr (off, True, [], s)
      else (case resp_parse_one_command rest of
        RespOob \<Rightarrow> Inl Memory
      | RespMore \<Rightarrow> Inr (off, True, [], s)
      | RespBad \<Rightarrow> Inr (length buf, True, [], s)
      | RespOne m \<Rightarrow>
          if m = 0 \<or> m > length rest then Inr (length buf, True, [], s)
          else (case kvs_protocol (q_mok E i) (q_env E i) fd (take m rest) (s\<lparr>sv_replicating := True\<rparr>) of
             Inl f \<Rightarrow> Inl f
           | Inr (resp_len, resp, s1) \<Rightarrow>
               let s2 = s1\<lparr>sv_replicating := False\<rparr> in
               if apply_failed resp_len resp then Inr (length buf, False, [], s2)
               else (case send_repl_ack (q_ack E i) of
                   None \<Rightarrow> Inl Waiting
                 | Some (r, out) \<Rightarrow>
                     if r \<noteq> 0 then Inr (length buf, False, out, s2)
                     else map_sum id (\<lambda>(off', run, out', s'). (off', run, out @ out', s'))
                            (apply_loop E (i + 1) fd (off + m) buf s2)))))"
  by pat_completeness auto

termination apply_loop
  by (relation "measure (\<lambda>(E, i, fd, off, buf, s). length buf - off)") auto

declare apply_loop.simps [simp del]

text \<open>One round of the outer loop.\<close>

definition close_thread :: "'f rthread \<Rightarrow> 'f rthread" where
  "close_thread t = t\<lparr>rt_open := False\<rparr>"

definition receive_round :: "'f stream_env \<Rightarrow> int \<Rightarrow> 'f rthread \<Rightarrow> fault + 'f rthread" where
  "receive_round E fd t =
     (if \<not> rt_open t then Inr t
      else if \<not> rt_running t then Inr (close_thread t)
      else let full = length (rt_buf t) \<ge> rt_size t - 1;
               t1 = (if full then t\<lparr>rt_size := rt_size t * 2\<rparr> else t) in
        if full \<and> \<not> q_grow E then Inr (close_thread t1)
        else (case q_got E of
          GotInterrupt \<Rightarrow> Inr t1
        | GotAgain \<Rightarrow> Inr t1
        | GotEnd \<Rightarrow> Inr (close_thread t1)
        | GotError \<Rightarrow> Inr (close_thread t1)
        | GotBytes d \<Rightarrow>
            let buf = rt_buf t1 @ take (rt_size t1 - length (rt_buf t1) - 1) d in
            (case apply_loop E 0 fd 0 buf (rt_server t1) of
               Inl f \<Rightarrow> Inl f
             | Inr (off, run, out, s) \<Rightarrow>
                 Inr (t1\<lparr>rt_buf := drop off buf, rt_running := run, rt_out := rt_out t1 @ out, rt_server := s\<rparr>))))"

text \<open>The start of the thread on an accepted connection.\<close>

definition slave_tcp_receive_thread :: "bool \<Rightarrow> int \<Rightarrow> bool \<Rightarrow> 'f server \<Rightarrow> 'f rthread" where
  "slave_tcp_receive_thread mok fd run s =
     \<lparr>rt_buf = [], rt_size = 4096, rt_open = (fd > 0 \<and> mok), rt_running = run, rt_out = [], rt_server = s\<rparr>"

subsection \<open>Executing what has arrived\<close>

lemma replicating_irrelevant [simp]:
  "stores (s\<lparr>sv_replicating := b\<rparr>) = stores s" "lasting_server (s\<lparr>sv_replicating := b\<rparr>) = lasting_server s"
proof -
  have "store_of g (s\<lparr>sv_replicating := b\<rparr>) = store_of g s" for g by (cases g) simp_all
  then show "stores (s\<lparr>sv_replicating := b\<rparr>) = stores s" "lasting_server (s\<lparr>sv_replicating := b\<rparr>) = lasting_server s"
    by (auto simp: stores_def lasting_server_def server_wf_def)
qed

text \<open>Memory is available and acknowledgements can be sent.\<close>

definition calm_stream :: "'f stream_env \<Rightarrow> bool" where
  "calm_stream E \<longleftrightarrow> q_grow E \<and> (\<forall>i. q_mok E i = all_ok \<and> e_mok (q_env E i) = all_ok \<and> e_rok (q_env E i) \<and>
     (\<exists>out. send_repl_ack (q_ack E i) = Some (0, out)))"

text \<open>The bytes of a stream of requests end neither behind a header nor behind an argument that is not the last.\<close>

definition clean_cut :: "request list \<Rightarrow> string \<Rightarrow> bool" where
  "clean_cut qs inp \<longleftrightarrow> (\<forall>k < length qs. \<forall>x. inp = concat (map wire (take k qs)) @ x \<longrightarrow> \<not> between_arguments (argv_of (qs ! k)) x)"

lemma clean_cut_tail:
  assumes "clean_cut (q # qs) (wire q @ x)"
  shows "clean_cut qs x"
  unfolding clean_cut_def
proof (intro allI impI)
  fix k y assume "k < length qs" "x = concat (map wire (take k qs)) @ y"
  then show "\<not> between_arguments (argv_of (qs ! k)) y"
    using assms [unfolded clean_cut_def, rule_format, of "Suc k" y] by simp
qed

lemma applied_one:
  assumes E: "calm_stream E" and s: "lasting_server s" and q: "plain_request q" "q_takes q (stores s)"
    and rest: "drop off buf = wire q @ y"
  shows "apply_loop E i fd off buf s = Inl Waiting \<or> (\<exists>s'. lasting_server s' \<and> stores s' = q_stores q (stores s) \<and>
     apply_loop E i fd off buf s = map_sum id (\<lambda>(off', run, out', s'). (off', run, repl_ack @ out', s'))
       (apply_loop E (i + 1) fd (off + length (wire q)) buf s'))"
proof -
  let ?s = "s\<lparr>sv_replicating := True\<rparr>"
  have len: "length (wire q) < 2 ^ 31" using q(1) by (simp add: plain_request_def)
  have parse: "resp_parse_one_command (wire q @ y) = RespOne (length (wire q))"
    using len encode_length(1) [of _ "argv_of q"] encode_length(2) [of "argv_of q"]
    by (intro resp_parse_encode) (auto intro: less_trans)
  have ne: "wire q \<noteq> []" by (simp add: resp_encode_def)
  have e: "q_mok E i = all_ok" "e_mok (q_env E i) = all_ok" "e_rok (q_env E i)" using E by (simp_all add: calm_stream_def)
  obtain out where out: "send_repl_ack (q_ack E i) = Some (0, out)" using E by (auto simp: calm_stream_def)
  then have ack: "out = repl_ack" by (auto simp: send_repl_ack_def dest: send_all_done)
  note R = request_run [of ?s, OF _ e(2,3) q(1), where fd = fd]
  show ?thesis
  proof (cases "kvs_protocol all_ok (q_env E i) fd (wire q) ?s")
    case (Inl f)
    then have "f = Waiting" using R(3) s by auto
    then show ?thesis
      using Inl rest parse ne e(1) by (subst apply_loop.simps) (simp add: Let_def)
  next
    case (Inr x)
    obtain n o' s1 where x: "x = (n, o', s1)" by (metis prod_cases3)
    have r: "lasting_server s1" "stores s1 = q_stores q (stores s)" "\<exists>msg. o' = Some msg \<and> n = int (length msg) \<and> no_error msg"
      using R(2,4) [of n o' s1] Inr x s q(2) by simp_all
    then have nf: "\<not> apply_failed n o'" by (auto simp: apply_failed_def no_error_def)
    have "apply_loop E i fd off buf s = map_sum id (\<lambda>(off', run, out', s'). (off', run, repl_ack @ out', s'))
       (apply_loop E (i + 1) fd (off + length (wire q)) buf (s1\<lparr>sv_replicating := False\<rparr>))"
      using Inr x rest parse ne e(1) nf out ack by (subst apply_loop.simps) (simp add: Let_def)
    then show ?thesis using r(1,2) by (intro disjI2 exI [of _ "s1\<lparr>sv_replicating := False\<rparr>"]) simp
  qed
qed

lemma length_taken: "length (taken qs M) \<le> length qs"
proof (induction qs arbitrary: M)
  case (Cons q qs)
  show ?case using Cons.IH [of "q_stores q M"] by simp
qed simp

lemma taken_again: "taken (taken qs M) M = taken qs M"
proof (induction qs arbitrary: M)
  case (Cons q qs)
  show ?case
  proof (cases "q_takes q M")
    case True
    then show ?thesis using Cons.IH [of "q_stores q M"] by simp
  next
    case False
    then show ?thesis using Cons.IH [of M] q_idle [OF False] by simp
  qed
qed simp

lemma all_taken: "taken (q # qs) M = q # qs \<Longrightarrow> q_takes q M \<and> taken qs (q_stores q M) = qs"
  using length_taken [of qs "q_stores q M"] by (auto split: if_splits)

lemma apply_partial:
  assumes q: "plain_request q" and y: "wire q = drop off buf @ y" "y \<noteq> []" and c: "clean_cut (q # qs) (drop off buf)"
  shows "apply_loop E i fd off buf s = Inr (off, True, [], s)"
proof (cases "drop off buf = []")
  case True
  then show ?thesis by (subst apply_loop.simps) simp
next
  case False
  have nb: "\<not> between_arguments (argv_of q) (drop off buf)"
    using c [unfolded clean_cut_def, rule_format, of 0 "drop off buf"] by simp
  have len: "length (wire q) < 2 ^ 31" using q by (simp add: plain_request_def)
  have "length (argv_of q) < 2 ^ 31" "\<forall>a \<in> set (argv_of q). length a < 2 ^ 31"
    using len encode_length(1) [of _ "argv_of q"] encode_length(2) [of "argv_of q"] by (auto intro: less_trans)
  then have "resp_parse_one_command (drop off buf) = RespMore"
    using parse_prefix [of "argv_of q" "drop off buf" y] y False nb by simp
  then show ?thesis using False by (subst apply_loop.simps) simp
qed

text \<open>The inner loop executes the requests that are complete and leaves the rest.\<close>

lemma apply_stream:
  assumes "calm_stream E" "lasting_server s" "list_all plain_request qs" "taken qs (stores s) = qs"
    "drop off buf @ later = concat (map wire qs)" "clean_cut qs (drop off buf)"
  shows "apply_loop E i fd off buf s = Inl Waiting \<or> (\<exists>k rest s'. k \<le> length qs \<and>
     drop off buf = concat (map wire (take k qs)) @ rest \<and> (k < length qs \<longrightarrow> length rest < length (wire (qs ! k))) \<and>
     lasting_server s' \<and> stores s' = fold q_stores (take k qs) (stores s) \<and>
     apply_loop E i fd off buf s = Inr (off + length (concat (map wire (take k qs))), True, concat (replicate k repl_ack), s'))"
  using assms
proof (induction qs arbitrary: i off s)
  case Nil
  then show ?case by (subst (1 2) apply_loop.simps) (auto intro: exI [of _ 0])
next
  case (Cons q qs)
  let ?rest = "drop off buf"
  have q: "plain_request q" "q_takes q (stores s)" "taken qs (q_stores q (stores s)) = qs"
    using Cons.prems(3) all_taken [OF Cons.prems(4)] by simp_all
  have "?rest @ later = wire q @ concat (map wire qs)" using Cons.prems(5) by simp
  then consider (full) y where "?rest = wire q @ y" "y @ later = concat (map wire qs)" | (part) y where "wire q = ?rest @ y" "y \<noteq> []"
  proof (cases rule: stream_split_cases)
    case (left y)
    then show ?thesis using full [of "[]"] part [of y] by (cases "y = []") simp_all
  next
    case (right y)
    then show ?thesis using full [of y] by simp
  qed
  then show ?case
  proof cases
    case (part y)
    have "apply_loop E i fd off buf s = Inr (off, True, [], s)" by (rule apply_partial [OF q(1) part Cons.prems(6)])
    moreover have "length ?rest < length (wire q)" using part by simp
    ultimately show ?thesis using Cons.prems(2) by (intro disjI2 exI [of _ 0] exI [of _ ?rest] exI [of _ s]) simp
  next
    case (full y)
    have d: "drop (off + length (wire q)) buf = y" using full(1) by (metis add.commute append_eq_conv_conj drop_drop)
    have c: "clean_cut qs y" using clean_cut_tail [of q qs y] Cons.prems(6) full(1) by simp
    from applied_one [OF Cons.prems(1,2) q(1,2) full(1), of i fd] show ?thesis
    proof (elim disjE exE conjE)
      fix s1 assume s1: "lasting_server s1" "stores s1 = q_stores q (stores s)" and
        l: "apply_loop E i fd off buf s = map_sum id (\<lambda>(off', run, out', s'). (off', run, repl_ack @ out', s'))
          (apply_loop E (i + 1) fd (off + length (wire q)) buf s1)"
      have p: "list_all plain_request qs" using Cons.prems(3) by simp
      have t: "taken qs (stores s1) = qs" using q(3) s1(2) by simp
      from Cons.IH [OF Cons.prems(1) s1(1) p t, of "off + length (wire q)" "i + 1", unfolded d, OF full(2) c] show ?thesis
      proof (elim disjE exE conjE)
        fix k rest s' assume "k \<le> length qs" "y = concat (map wire (take k qs)) @ rest" "k < length qs \<longrightarrow> length rest < length (wire (qs ! k))"
          "lasting_server s'" "stores s' = fold q_stores (take k qs) (stores s1)"
          "apply_loop E (i + 1) fd (off + length (wire q)) buf s1 =
             Inr (off + length (wire q) + length (concat (map wire (take k qs))), True, concat (replicate k repl_ack), s')"
        then show ?thesis
          using l s1(2) full(1) by (intro disjI2 exI [of _ "Suc k"] exI [of _ rest] exI [of _ s']) simp
      qed (use l in simp)
    qed simp
  qed
qed

subsection \<open>The stream\<close>

text \<open>The bytes that fit behind those in the buffer.\<close>

definition room_left :: "'f rthread \<Rightarrow> nat" where
  "room_left t = (if length (rt_buf t) \<ge> rt_size t - 1 then rt_size t * 2 else rt_size t) - length (rt_buf t) - 1"

text \<open>A further part \<open>d\<close> of the stream of the requests \<open>qs\<close> that arrives behind \<open>inp\<close>.\<close>

definition next_part :: "request list \<Rightarrow> string \<Rightarrow> 'f stream_env \<Rightarrow> 'f rthread \<Rightarrow> string \<Rightarrow> bool" where
  "next_part qs inp E t d \<longleftrightarrow> calm_stream E \<and> q_got E = GotBytes d \<and> length d \<le> room_left t \<and>
     prefix (inp @ d) (concat (map wire qs)) \<and> clean_cut qs (inp @ d)"

inductive stream_run :: "request list \<Rightarrow> int \<Rightarrow> 'f server \<Rightarrow> string \<Rightarrow> 'f rthread \<Rightarrow> bool" for qs fd s0 where
  start: "0 < fd \<Longrightarrow> stream_run qs fd s0 [] (slave_tcp_receive_thread True fd True s0)"
| part: "stream_run qs fd s0 inp t \<Longrightarrow> next_part qs inp E t d \<Longrightarrow> receive_round E fd t = Inr t' \<Longrightarrow> stream_run qs fd s0 (inp @ d) t'"
| idle: "stream_run qs fd s0 inp t \<Longrightarrow> calm_stream E \<Longrightarrow> q_got E = GotInterrupt \<or> q_got E = GotAgain \<Longrightarrow>
    receive_round E fd t = Inr t' \<Longrightarrow> stream_run qs fd s0 inp t'"

definition follows :: "request list \<Rightarrow> 'f server \<Rightarrow> string \<Rightarrow> 'f rthread \<Rightarrow> nat \<Rightarrow> bool" where
  "follows qs s0 inp t k \<longleftrightarrow> rt_open t \<and> rt_running t \<and> k \<le> length qs \<and> inp = concat (map wire (take k qs)) @ rt_buf t \<and>
     (k < length qs \<longrightarrow> length (rt_buf t) < length (wire (qs ! k))) \<and> lasting_server (rt_server t) \<and>
     stores (rt_server t) = fold q_stores (take k qs) (stores s0) \<and> rt_out t = concat (replicate k repl_ack)"

lemma clean_cut_drop: "clean_cut qs (concat (map wire (take k qs)) @ x) \<Longrightarrow> k \<le> length qs \<Longrightarrow> clean_cut (drop k qs) x"
proof (induction k arbitrary: qs)
  case (Suc k)
  then obtain q qs' where qs: "qs = q # qs'" by (cases qs) auto
  have "clean_cut qs' (concat (map wire (take k qs')) @ x)" using clean_cut_tail [of q qs'] Suc.prems(1) qs by simp
  then show ?case using Suc.IH [of qs'] Suc.prems(2) qs by simp
qed simp

lemma taken_drop: "taken qs M = qs \<Longrightarrow> taken (drop k qs) (fold q_stores (take k qs) M) = drop k qs"
proof (induction k arbitrary: qs M)
  case (Suc k)
  show ?case
  proof (cases qs)
    case (Cons q qs')
    have "taken qs' (q_stores q M) = qs'" using all_taken [OF Suc.prems [unfolded Cons]] by blast
    from Suc.IH [OF this] show ?thesis unfolding Cons by simp
  qed simp
qed simp

lemma round_follows:
  assumes F: "follows qs s0 inp t k" and N: "next_part qs inp E t d"
    and Q: "list_all plain_request qs" "taken qs (stores s0) = qs"
  shows "receive_round E fd t = Inl Waiting \<or> (\<exists>t' k'. receive_round E fd t = Inr t' \<and> follows qs s0 (inp @ d) t' k')"
proof -
  let ?t = "if length (rt_buf t) \<ge> rt_size t - 1 then t\<lparr>rt_size := rt_size t * 2\<rparr> else t"
  let ?buf = "rt_buf t @ d"
  have E: "calm_stream E" "q_got E = GotBytes d" "q_grow E" and d: "length d \<le> room_left t" and c: "clean_cut qs (inp @ d)"
    using N by (simp_all add: next_part_def calm_stream_def)
  have f: "rt_open t" "rt_running t" "k \<le> length qs" "inp = concat (map wire (take k qs)) @ rt_buf t" "lasting_server (rt_server t)"
    "stores (rt_server t) = fold q_stores (take k qs) (stores s0)" "rt_out t = concat (replicate k repl_ack)" using F by (simp_all add: follows_def)
  obtain later where "concat (map wire qs) = inp @ d @ later" using N by (auto simp: next_part_def prefix_def)
  then have st: "drop 0 ?buf @ later = concat (map wire (drop k qs))"
    using f(4) by (metis append.assoc append_take_drop_id concat_append drop0 map_append same_append_eq)
  have cl: "clean_cut (drop k qs) (drop 0 ?buf)" using clean_cut_drop [of qs k ?buf] c f(3,4) by simp
  have tk: "taken (drop k qs) (stores (rt_server t)) = drop k qs" using taken_drop [OF Q(2), of k] f(6) by simp
  have pl: "list_all plain_request (drop k qs)" using Q(1) by (simp add: list_all_iff) (meson in_set_dropD)
  have r: "receive_round E fd t = (case apply_loop E 0 fd 0 ?buf (rt_server t) of Inl e \<Rightarrow> Inl e
     | Inr (off, run, out, s) \<Rightarrow> Inr (?t\<lparr>rt_buf := drop off ?buf, rt_running := run, rt_out := rt_out t @ out, rt_server := s\<rparr>))"
    using f(1,2) E d by (cases "length (rt_buf t) \<ge> rt_size t - 1"; cases "apply_loop E 0 fd 0 ?buf (rt_server t)")
      (simp_all add: receive_round_def Let_def room_left_def split: prod.splits)
  from apply_stream [OF E(1) f(5) pl tk st cl, of 0 fd] show ?thesis
  proof (elim disjE exE conjE)
    fix j rest s' assume j: "j \<le> length (drop k qs)" "drop 0 ?buf = concat (map wire (take j (drop k qs))) @ rest"
      "j < length (drop k qs) \<longrightarrow> length rest < length (wire (drop k qs ! j))" "lasting_server s'"
      "stores s' = fold q_stores (take j (drop k qs)) (stores (rt_server t))"
      "apply_loop E 0 fd 0 ?buf (rt_server t) = Inr (0 + length (concat (map wire (take j (drop k qs)))), True, concat (replicate j repl_ack), s')"
    have tk: "take (k + j) qs = take k qs @ take j (drop k qs)" by (rule take_add)
    let ?t' = "?t\<lparr>rt_buf := rest, rt_running := True, rt_out := rt_out t @ concat (replicate j repl_ack), rt_server := s'\<rparr>"
    have "drop (0 + length (concat (map wire (take j (drop k qs))))) ?buf = rest" using j(2) by (metis add_0 append_eq_conv_conj drop0)
    then have "receive_round E fd t = Inr ?t'" unfolding r j(6) sum.case prod.case by (simp only:)
    moreover have "follows qs s0 (inp @ d) ?t' (k + j)"
      unfolding follows_def using f j tk by (auto simp: replicate_add)
    ultimately show ?thesis by blast
  qed (use r in simp)
qed

lemma stream_follows:
  assumes "stream_run qs fd s0 inp t" "lasting_server s0" "list_all plain_request qs" "taken qs (stores s0) = qs"
  shows "\<exists>k. follows qs s0 inp t k"
  using assms(1)
proof induction
  case start
  then show ?case using assms(2) by (intro exI [of _ 0]) (simp add: follows_def slave_tcp_receive_thread_def resp_encode_def)
next
  case (part inp t E d t')
  then obtain k where k: "follows qs s0 inp t k" by blast
  from round_follows [OF k part.hyps(2) assms(3,4), of fd] part.hyps(3) show ?case by auto
next
  case (idle inp t E t')
  then obtain k where k: "follows qs s0 inp t k" by blast
  then have "follows qs s0 inp t' k" using idle.hyps
    by (auto simp: receive_round_def follows_def calm_stream_def Let_def split: if_splits)
  then show ?case by blast
qed

text \<open>A replica that keeps no log does not wait.\<close>

lemma no_wait:
  assumes s: "lasting_server s" and e: "e_mok e = all_ok" "e_rok e" and q: "plain_request q"
    and m: "\<not> (sv_slave_mode s \<and> \<not> sv_replicating s)" "\<not> sv_appendonly s"
  shows "kvs_protocol all_ok e fd (wire q) s \<in> range Inr"
proof -
  obtain t where t: "same_mode s t"
    and r: "replies e (code_of q) (wire q) (q_writes q) (q_takes q (stores s)) t (kvs_protocol all_ok e fd (wire q) s)"
    using request_effect [OF s e q, of "wire q" fd] request_protocol [OF q m(1), of e fd] by metis
  have "persist_command_if_changed e (code_of q) ret (wire q) t \<noteq> None" for ret
    using t m(2) by (auto simp: persist_command_if_changed_def kvs_persistence_append_def same_mode_def same_log_def Let_def)
  then have "\<exists>f. \<forall>ret. persist_command_if_changed e (code_of q) ret (wire q) t = Some (f ret)"
    by (intro exI [of _ "\<lambda>ret. the (persist_command_if_changed e (code_of q) ret (wire q) t)"]) simp
  then show ?thesis using r by (auto simp: replies_def split: if_splits)
qed

subsection \<open>Properties\<close>


lemma one_applied:
  assumes E: "calm_stream E" and s: "lasting_server s" "\<not> sv_appendonly s" and q: "plain_request q"
  shows "apply_loop E i fd 0 (wire q) s \<in> range Inr"
proof -
  let ?s = "s\<lparr>sv_replicating := True\<rparr>"
  have e: "q_mok E i = all_ok" "e_mok (q_env E i) = all_ok" "e_rok (q_env E i)" using E by (simp_all add: calm_stream_def)
  obtain n o' s1 where x: "kvs_protocol all_ok (q_env E i) fd (wire q) ?s = Inr (n, o', s1)"
    using no_wait [of ?s, OF _ e(2,3) q, of fd] s by auto
  obtain out where out: "send_repl_ack (q_ack E i) = Some (0, out)" using E by (auto simp: calm_stream_def)
  have "length (wire q) < 2 ^ 31" using q by (simp add: plain_request_def)
  then have parse: "resp_parse_one_command (wire q) = RespOne (length (wire q))"
    using encode_length(1) [of _ "argv_of q"] encode_length(2) [of "argv_of q"] resp_parse_encode [of "argv_of q" "[]"]
    by (auto intro: less_trans)
  have "apply_loop E (i + 1) fd (length (wire q)) (wire q) t = Inr (length (wire q), True, [], t)" for t
    by (subst apply_loop.simps) simp
  moreover have "wire q \<noteq> []" by (simp add: resp_encode_def)
  ultimately show ?thesis using e(1) x out parse by (subst apply_loop.simps) (simp add: Let_def)
qed

lemma whole_not_between: "\<not> between_arguments args (resp_encode args)"
proof
  assume "between_arguments args (resp_encode args)"
  then obtain k where k: "k < length args" "concat (map resp_bulk args) = concat (map resp_bulk (take k args))"
    by (auto simp: between_arguments_def resp_encode_def)
  have "concat (map resp_bulk args) = concat (map resp_bulk (take k args)) @ concat (map resp_bulk (drop k args))"
    by (metis append_take_drop_id concat_append map_append)
  then have "concat (map resp_bulk (drop k args)) = []" using k(2) by simp
  then show False using k(1) by (auto simp: resp_bulk_def)
qed


end
