(* ===== verification/KVS_Mempool.thy ===== *)
theory KVS_Mempool
  imports KVS_Prelude
begin

text \<open>
  The memory pool (\<open>kvs_mempool.c\<close>): small requests are cut from blocks with a bump pointer, large
  ones get a block of their own with the size in front and a list node. Addresses are numbers; the
  heap of the C library is the map from the start of each block that is allocated to its length.
  \<open>malloc\<close> is a parameter, a function of the length and the heap that gives an address or NULL;
  what the C standard promises of it is \<open>malloc_law\<close>. A result \<open>None\<close> is an invalid \<open>free\<close> or a
  write outside a block.
\<close>

type_synonym mheap = "nat \<rightharpoonup> nat"
type_synonym malloc_fn = "nat \<Rightarrow> mheap \<Rightarrow> nat option"

definition fresh_block :: "mheap \<Rightarrow> nat \<Rightarrow> nat \<Rightarrow> bool" where
  "fresh_block H a n \<longleftrightarrow> H a = None \<and> 0 < a \<and> a + n < 2 ^ 64 \<and>
     (\<forall>b m. H b = Some m \<longrightarrow> a + n \<le> b \<or> b + m \<le> a)"

definition heap_ok :: "mheap \<Rightarrow> bool" where
  "heap_ok H \<longleftrightarrow> (\<forall>a n b m. H a = Some n \<longrightarrow> H b = Some m \<longrightarrow> a \<noteq> b \<longrightarrow> a + n \<le> b \<or> b + m \<le> a)"

definition malloc_law :: "malloc_fn \<Rightarrow> bool" where
  "malloc_law mal \<longleftrightarrow> (\<forall>n H a. mal n H = Some a \<longrightarrow> fresh_block H a n)"

definition c_malloc :: "malloc_fn \<Rightarrow> nat \<Rightarrow> mheap \<Rightarrow> (nat \<times> mheap) option" where
  "c_malloc mal n H = map_option (\<lambda>a. (a, H(a \<mapsto> n))) (mal n H)"

definition c_free :: "nat \<Rightarrow> mheap \<Rightarrow> mheap option" where
  "c_free a H = (case H a of None \<Rightarrow> None | Some _ \<Rightarrow> Some (H(a := None)))"

subsection \<open>The pool\<close>

definition SIZEOF_NODE :: nat where "SIZEOF_NODE = 24"
definition SIZEOF_LARGE :: nat where "SIZEOF_LARGE = 16"
definition SIZEOF_SIZE_T :: nat where "SIZEOF_SIZE_T = 8"

text \<open>A node has its address, the pointer \<open>last\<close> to its first free byte and the pointer \<open>end\<close>; the
  links \<open>next\<close> are the order of the lists.\<close>

record mp_node =
  nd_addr :: nat
  nd_last :: nat
  nd_end :: nat

record mp_large =
  lg_addr :: nat
  lg_alloc :: nat

record mp_pool =
  pl_max :: nat
  pl_head :: "mp_node list"
  pl_large :: "mp_large list"

definition kvs_mempool_create ::
    "malloc_fn \<Rightarrow> mp_pool \<Rightarrow> int \<Rightarrow> mheap \<Rightarrow> int \<times> mp_pool \<times> mheap" where
  "kvs_mempool_create mal m block_size H =
     (if block_size \<le> int SIZEOF_NODE then (-1, m, H)
      else (case c_malloc mal (nat block_size) H of
              None \<Rightarrow> (-1, m, H)
            | Some (node, H1) \<Rightarrow>
                (0, \<lparr>pl_max = nat block_size - SIZEOF_NODE,
                     pl_head = [\<lparr>nd_addr = node, nd_last = node + SIZEOF_NODE, nd_end = node + nat block_size\<rparr>],
                     pl_large = []\<rparr>, H1)))"

primrec free_larges :: "mp_large list \<Rightarrow> mheap \<Rightarrow> mheap option" where
  "free_larges [] H = Some H"
| "free_larges (l # ls) H =
     Option.bind (c_free (lg_alloc l - SIZEOF_SIZE_T) H) (\<lambda>H1.
     Option.bind (c_free (lg_addr l) H1) (free_larges ls))"

primrec free_nodes :: "mp_node list \<Rightarrow> mheap \<Rightarrow> mheap option" where
  "free_nodes [] H = Some H"
| "free_nodes (nd # nds) H = Option.bind (c_free (nd_addr nd) H) (free_nodes nds)"

definition kvs_mempool_destroy :: "mp_pool \<Rightarrow> mheap \<Rightarrow> (mp_pool \<times> mheap) option" where
  "kvs_mempool_destroy m H =
     Option.bind (free_larges (pl_large m) H) (\<lambda>H1.
     Option.bind (free_nodes (pl_head m) H1) (\<lambda>H2.
       Some (m\<lparr>pl_large := [], pl_head := []\<rparr>, H2)))"

text \<open>The first node with room for \<open>sz\<close> bytes gives them.\<close>

fun first_fit :: "nat \<Rightarrow> mp_node list \<Rightarrow> (nat \<times> mp_node list) option" where
  "first_fit sz [] = None"
| "first_fit sz (nd # nds) =
     (if sz \<le> nd_end nd - nd_last nd
      then Some (nd_last nd, nd\<lparr>nd_last := nd_last nd + sz\<rparr> # nds)
      else map_option (\<lambda>(p, r). (p, nd # r)) (first_fit sz nds))"

definition kvs_mempool_alloc ::
    "malloc_fn \<Rightarrow> mp_pool \<Rightarrow> nat \<Rightarrow> mheap \<Rightarrow> (nat option \<times> mp_pool \<times> mheap) option" where
  "kvs_mempool_alloc mal m sz H =
     (if sz = 0 then Some (None, m, H)
      else if sz \<le> pl_max m then
        (case first_fit sz (pl_head m) of
           Some (p, nds) \<Rightarrow> Some (Some p, m\<lparr>pl_head := nds\<rparr>, H)
         | None \<Rightarrow>
             let node_size = pl_max m + SIZEOF_NODE in
             (case c_malloc mal node_size H of
                None \<Rightarrow> Some (None, m, H)
              | Some (new_node, H1) \<Rightarrow>
                  let nd = \<lparr>nd_addr = new_node, nd_last = new_node + SIZEOF_NODE, nd_end = new_node + node_size\<rparr> in
                  Some (Some (nd_last nd),
                        m\<lparr>pl_head := pl_head m @ [nd\<lparr>nd_last := nd_last nd + sz\<rparr>]\<rparr>, H1)))
      else
        let alloc_size = (sz + SIZEOF_SIZE_T) mod 2 ^ 64 in
        (case c_malloc mal alloc_size H of
           None \<Rightarrow> Some (None, m, H)
         | Some (raw_ptr, H1) \<Rightarrow>
             if alloc_size < SIZEOF_SIZE_T then None
             else
               let user_ptr = raw_ptr + SIZEOF_SIZE_T in
               (case c_malloc mal SIZEOF_LARGE H1 of
                  None \<Rightarrow> map_option (\<lambda>H2. (None, m, H2)) (c_free raw_ptr H1)
                | Some (large_node, H2) \<Rightarrow>
                    Some (Some user_ptr,
                          m\<lparr>pl_large := \<lparr>lg_addr = large_node, lg_alloc = user_ptr\<rparr> # pl_large m\<rparr>, H2))))"

text \<open>A pointer that is no large allocation is left alone.\<close>

primrec free_loop :: "nat \<Rightarrow> mp_large list \<Rightarrow> mheap \<Rightarrow> (mp_large list \<times> mheap) option" where
  "free_loop p [] H = Some ([], H)"
| "free_loop p (l # ls) H =
     (if lg_alloc l = p
      then Option.bind (c_free (p - SIZEOF_SIZE_T) H) (\<lambda>H1.
             map_option (\<lambda>H2. (ls, H2)) (c_free (lg_addr l) H1))
      else map_option (\<lambda>(r, H'). (l # r, H')) (free_loop p ls H))"

definition kvs_mempool_free :: "mp_pool \<Rightarrow> nat \<Rightarrow> mheap \<Rightarrow> (mp_pool \<times> mheap) option" where
  "kvs_mempool_free m p H = map_option (\<lambda>(ls, H'). (m\<lparr>pl_large := ls\<rparr>, H')) (free_loop p (pl_large m) H)"

subsection \<open>Use of a pool\<close>

text \<open>
  The states a pool can be in when it is created on a heap with the blocks \<open>F\<close> of others and then
  used: \<open>U\<close> holds the address and the size of every piece that was handed out and not given back.
\<close>

inductive mp_run :: "mheap \<Rightarrow> mp_pool \<Rightarrow> mheap \<Rightarrow> (nat \<times> nat) set \<Rightarrow> bool" for F where
  create: "heap_ok F \<Longrightarrow> malloc_law mal \<Longrightarrow> block_size < 2 ^ 31 \<Longrightarrow>
    kvs_mempool_create mal m0 block_size F = (0, m, H) \<Longrightarrow> mp_run F m H {}"
| alloc: "mp_run F m H U \<Longrightarrow> malloc_law mal \<Longrightarrow> sz < 2 ^ 64 - SIZEOF_SIZE_T \<Longrightarrow>
    kvs_mempool_alloc mal m sz H = Some (Some p, m', H') \<Longrightarrow> mp_run F m' H' (insert (p, sz) U)"
| alloc_fail: "mp_run F m H U \<Longrightarrow> malloc_law mal \<Longrightarrow> sz < 2 ^ 64 - SIZEOF_SIZE_T \<Longrightarrow>
    kvs_mempool_alloc mal m sz H = Some (None, m', H') \<Longrightarrow> mp_run F m' H' U"
| free: "mp_run F m H U \<Longrightarrow> (p, n) \<in> U \<Longrightarrow> kvs_mempool_free m p H = Some (m', H') \<Longrightarrow>
    mp_run F m' H' (U - {(p, n)})"

subsection \<open>The invariant\<close>

text \<open>The blocks of the pool, in the order in which \<open>kvs_mempool_destroy\<close> frees them.\<close>

definition own :: "mp_pool \<Rightarrow> nat list" where
  "own m = concat (map (\<lambda>l. [lg_alloc l - SIZEOF_SIZE_T, lg_addr l]) (pl_large m)) @ map nd_addr (pl_head m)"

text \<open>The piece of \<open>n\<close> bytes at \<open>p\<close> was cut from the block at \<open>b\<close>.\<close>

definition backed :: "mp_pool \<Rightarrow> mheap \<Rightarrow> nat \<Rightarrow> nat \<Rightarrow> nat \<Rightarrow> bool" where
  "backed m H p n b \<longleftrightarrow>
     (\<exists>nd \<in> set (pl_head m). b = nd_addr nd \<and> b + SIZEOF_NODE \<le> p \<and> p + n \<le> nd_last nd) \<or>
     (\<exists>l \<in> set (pl_large m). lg_alloc l = p \<and> b = p - SIZEOF_SIZE_T \<and> H b = Some (n + SIZEOF_SIZE_T))"

definition apart :: "(nat \<times> nat) set \<Rightarrow> bool" where
  "apart U \<longleftrightarrow>
     (\<forall>p n q k. (p, n) \<in> U \<longrightarrow> (q, k) \<in> U \<longrightarrow> (p, n) \<noteq> (q, k) \<longrightarrow> p + n \<le> q \<or> q + k \<le> p)"

lemma apart_subset: "apart U \<Longrightarrow> V \<subseteq> U \<Longrightarrow> apart V"
  unfolding apart_def by blast

definition node_ok :: "nat \<Rightarrow> mheap \<Rightarrow> mp_node \<Rightarrow> bool" where
  "node_ok mx H nd \<longleftrightarrow> nd_addr nd + SIZEOF_NODE \<le> nd_last nd \<and> nd_last nd \<le> nd_end nd \<and>
     nd_end nd = nd_addr nd + (mx + SIZEOF_NODE) \<and> H (nd_addr nd) = Some (mx + SIZEOF_NODE)"

definition large_ok :: "mheap \<Rightarrow> mp_large \<Rightarrow> bool" where
  "large_ok H l \<longleftrightarrow> SIZEOF_SIZE_T \<le> lg_alloc l \<and> H (lg_addr l) = Some SIZEOF_LARGE \<and>
     (\<exists>n > SIZEOF_SIZE_T. H (lg_alloc l - SIZEOF_SIZE_T) = Some n)"

definition mp_inv :: "mheap \<Rightarrow> mp_pool \<Rightarrow> mheap \<Rightarrow> (nat \<times> nat) set \<Rightarrow> bool" where
  "mp_inv F m H U \<longleftrightarrow> heap_ok H \<and> 0 < pl_max m \<and> distinct (own m) \<and>
     (\<forall>a \<in> set (own m). F a = None) \<and> (\<forall>a. a \<notin> set (own m) \<longrightarrow> H a = F a) \<and>
     (\<forall>nd \<in> set (pl_head m). node_ok (pl_max m) H nd) \<and> (\<forall>l \<in> set (pl_large m). large_ok H l) \<and>
     (\<forall>(p, n) \<in> U. 0 < n \<and> (\<exists>b. backed m H p n b)) \<and> apart U"

lemma mp_invI:
  assumes "heap_ok H" "0 < pl_max m" "distinct (own m)" "\<And>a. a \<in> set (own m) \<Longrightarrow> F a = None"
    and "\<And>a. a \<notin> set (own m) \<Longrightarrow> H a = F a" "\<And>nd. nd \<in> set (pl_head m) \<Longrightarrow> node_ok (pl_max m) H nd"
    and "\<And>l. l \<in> set (pl_large m) \<Longrightarrow> large_ok H l"
    and "\<And>p n. (p, n) \<in> U \<Longrightarrow> 0 < n \<and> (\<exists>b. backed m H p n b)" "apart U"
  shows "mp_inv F m H U"
  using assms unfolding mp_inv_def by blast

lemma mp_invD:
  assumes "mp_inv F m H U"
  shows "heap_ok H" "0 < pl_max m" "distinct (own m)" "a \<in> set (own m) \<Longrightarrow> F a = None"
    "a \<notin> set (own m) \<Longrightarrow> H a = F a" "nd \<in> set (pl_head m) \<Longrightarrow> node_ok (pl_max m) H nd"
    "l \<in> set (pl_large m) \<Longrightarrow> large_ok H l" "(p, n) \<in> U \<Longrightarrow> 0 < n" "(p, n) \<in> U \<Longrightarrow> \<exists>b. backed m H p n b" "apart U"
  using assms unfolding mp_inv_def by blast+

lemmas sizeofs = SIZEOF_NODE_def SIZEOF_LARGE_def SIZEOF_SIZE_T_def

lemma set_own: "set (own m) =
    (\<lambda>l. lg_alloc l - SIZEOF_SIZE_T) ` set (pl_large m) \<union> lg_addr ` set (pl_large m) \<union> nd_addr ` set (pl_head m)"
  by (auto simp: own_def)

lemma heap_ok_fresh: "heap_ok H \<Longrightarrow> fresh_block H a n \<Longrightarrow> heap_ok (H(a \<mapsto> n))"
  unfolding heap_ok_def fresh_block_def by auto

lemma heap_ok_remove: "heap_ok H \<Longrightarrow> heap_ok (H(a := None))"
  unfolding heap_ok_def by auto

lemma malloc_fresh:
  "malloc_law mal \<Longrightarrow> c_malloc mal n H = Some (a, H') \<Longrightarrow> fresh_block H a n \<and> H' = H(a \<mapsto> n)"
  by (auto simp: c_malloc_def malloc_law_def)

text \<open>A piece lies inside its block, behind the header.\<close>

lemma backed_span:
  assumes "mp_inv F m H U" "backed m H p n b"
  obtains len where "H b = Some len" "b + SIZEOF_SIZE_T \<le> p" "p + n \<le> b + len" "b \<in> set (own m)"
proof -
  have ok: "\<forall>nd \<in> set (pl_head m). node_ok (pl_max m) H nd" "\<forall>l \<in> set (pl_large m). large_ok H l"
    using assms(1) by (simp_all add: mp_inv_def)
  show ?thesis using assms(2) unfolding backed_def
  proof
    assume "\<exists>nd \<in> set (pl_head m). b = nd_addr nd \<and> b + SIZEOF_NODE \<le> p \<and> p + n \<le> nd_last nd"
    then show ?thesis using ok(1) that by (force simp: node_ok_def set_own sizeofs)
  next
    assume "\<exists>l \<in> set (pl_large m). lg_alloc l = p \<and> b = p - SIZEOF_SIZE_T \<and> H b = Some (n + SIZEOF_SIZE_T)"
    then show ?thesis using ok(2) that [of "n + SIZEOF_SIZE_T"] by (force simp: large_ok_def set_own)
  qed
qed

text \<open>A piece in a block that is new is apart from all others.\<close>

lemma apart_insert:
  assumes "apart U" "\<forall>(q, k) \<in> U. p + n \<le> q \<or> q + k \<le> p"
  shows "apart (insert (p, n) U)"
  using assms unfolding apart_def by fastforce

lemma new_block_apart:
  assumes inv: "mp_inv F m H U" and fr: "fresh_block H a len" and p: "a \<le> p" "p + n \<le> a + len"
  shows "\<forall>(q, k) \<in> U. p + n \<le> q \<or> q + k \<le> p"
proof (intro ballI)
  fix x assume x: "x \<in> U"
  obtain q k where qk: "x = (q, k)" by (cases x)
  then obtain b where "backed m H q k b" using inv x by (auto simp: mp_inv_def)
  then obtain l where "H b = Some l" "b + SIZEOF_SIZE_T \<le> q" "q + k \<le> b + l" using backed_span [OF inv] by metis
  moreover from this(1) have "a + len \<le> b \<or> b + l \<le> a" using fr by (auto simp: fresh_block_def)
  ultimately show "case x of (q, k) \<Rightarrow> p + n \<le> q \<or> q + k \<le> p" using p qk by auto
qed

subsection \<open>The operations keep the invariant\<close>

lemma create_inv:
  assumes "heap_ok F" "malloc_law mal" "kvs_mempool_create mal m0 block_size F = (0, m, H)"
  shows "mp_inv F m H {}"
proof -
  have b: "int SIZEOF_NODE < block_size" using assms(3) by (auto simp: kvs_mempool_create_def split: if_splits)
  obtain node where c: "c_malloc mal (nat block_size) F = Some (node, H)"
    and m: "m = \<lparr>pl_max = nat block_size - SIZEOF_NODE,
      pl_head = [\<lparr>nd_addr = node, nd_last = node + SIZEOF_NODE, nd_end = node + nat block_size\<rparr>], pl_large = []\<rparr>"
    using assms(3) b by (auto simp: kvs_mempool_create_def split: option.splits)
  note f = malloc_fresh [OF assms(2) c]
  show ?thesis
    using b f heap_ok_fresh [OF assms(1)]
    by (auto simp: mp_inv_def m own_def node_ok_def apart_def fresh_block_def sizeofs)
qed

lemma first_fit_split:
  "first_fit sz nds = Some (p, nds') \<Longrightarrow> \<exists>as nd bs. nds = as @ nd # bs \<and>
     nds' = as @ nd\<lparr>nd_last := nd_last nd + sz\<rparr> # bs \<and> p = nd_last nd \<and> sz \<le> nd_end nd - nd_last nd"
proof (induction nds arbitrary: nds')
  case (Cons x nds)
  show ?case
  proof (cases "sz \<le> nd_end x - nd_last x")
    case True
    then show ?thesis using Cons.prems by (intro exI [of _ "[]"]) auto
  next
    case False
    then obtain r where "first_fit sz nds = Some (p, r)" "nds' = x # r" using Cons.prems by auto
    then show ?thesis using Cons.IH by (metis append_Cons)
  qed
qed simp

lemma fit_inv:
  assumes inv: "mp_inv F m H U" and ff: "first_fit sz (pl_head m) = Some (p, nds)" and sz: "0 < sz"
  shows "mp_inv F (m\<lparr>pl_head := nds\<rparr>) H (insert (p, sz) U)"
proof -
  obtain as nd bs where h: "pl_head m = as @ nd # bs" "nds = as @ nd\<lparr>nd_last := nd_last nd + sz\<rparr> # bs"
    "p = nd_last nd" "sz \<le> nd_end nd - nd_last nd" using first_fit_split [OF ff] by blast
  let ?nd = "nd\<lparr>nd_last := nd_last nd + sz\<rparr>" and ?m = "m\<lparr>pl_head := nds\<rparr>"
  have nd: "node_ok (pl_max m) H nd" and d: "distinct (own m)" using inv h(1) by (auto simp: mp_inv_def)
  then have nd': "node_ok (pl_max m) H ?nd" using h(4) by (auto simp: node_ok_def)
  have own: "own ?m = own m" by (simp add: own_def h)
  have mono: "backed m H q k b \<Longrightarrow> backed ?m H q k b" for q k b
    using h(1,2) by (auto simp: backed_def)
  have new: "backed ?m H p sz (nd_addr nd)" using nd h(2,3) by (auto simp: backed_def node_ok_def)
  have "\<forall>(q, k) \<in> U. p + sz \<le> q \<or> q + k \<le> p"
  proof (intro ballI)
    fix x assume x: "x \<in> U"
    obtain q k where qk: "x = (q, k)" by (cases x)
    then obtain b where b: "backed m H q k b" using inv x by (auto simp: mp_inv_def)
    show "case x of (q, k) \<Rightarrow> p + sz \<le> q \<or> q + k \<le> p"
    proof (cases "b = nd_addr nd")
      case False
      obtain l where l: "H b = Some l" "b + SIZEOF_SIZE_T \<le> q" "q + k \<le> b + l" using backed_span [OF inv b] by metis
      then have "b + l \<le> nd_addr nd \<or> nd_addr nd + (pl_max m + SIZEOF_NODE) \<le> b"
        using False nd inv by (auto simp: node_ok_def mp_inv_def heap_ok_def)
      then show ?thesis using l nd h(3,4) qk by (auto simp: node_ok_def)
    next
      case True
      then have "\<not> (\<exists>l \<in> set (pl_large m). b = lg_alloc l - SIZEOF_SIZE_T)" "\<forall>n \<in> set (pl_head m). b = nd_addr n \<longrightarrow> n = nd"
        using d h(1) by (auto simp: own_def)
      then show ?thesis using b h(3) qk by (auto simp: backed_def)
    qed
  qed
  then have "apart (insert (p, sz) U)" using inv by (intro apart_insert) (auto simp: mp_inv_def)
  moreover have "0 < k \<and> (\<exists>b. backed ?m H q k b)" if "(q, k) \<in> insert (p, sz) U" for q k
    using that sz new mono mp_invD(8,9) [OF inv, of q k] by blast
  moreover have "node_ok (pl_max m) H n" if "n \<in> set nds" for n
    using that nd' mp_invD(6) [OF inv, of n] by (auto simp: h)
  ultimately show ?thesis using mp_invD(1-7) [OF inv] by (intro mp_invI) (simp_all add: own)
qed

text \<open>Adding blocks to heap and pool keeps what was there.\<close>

lemma fresh_unowned: "mp_inv F m H U \<Longrightarrow> H a = None \<Longrightarrow> a \<notin> set (own m)"
  unfolding mp_inv_def set_own node_ok_def large_ok_def by fastforce

lemma ok_upd:
  "H a = None \<Longrightarrow> node_ok mx H nd \<Longrightarrow> node_ok mx (H(a \<mapsto> n)) nd"
  "H a = None \<Longrightarrow> large_ok H l \<Longrightarrow> large_ok (H(a \<mapsto> n)) l"
  unfolding node_ok_def large_ok_def by auto

lemma backed_upd:
  "H a = None \<Longrightarrow> backed m H p k b \<Longrightarrow> set (pl_head m) \<subseteq> set (pl_head m') \<Longrightarrow> set (pl_large m) \<subseteq> set (pl_large m') \<Longrightarrow>
   backed m' (H(a \<mapsto> n)) p k b"
  unfolding backed_def by (auto simp: subset_iff)

lemma new_node_inv:
  assumes inv: "mp_inv F m H U" and fr: "fresh_block H a (pl_max m + SIZEOF_NODE)" and sz: "0 < sz" "sz \<le> pl_max m"
  shows "mp_inv F (m\<lparr>pl_head := pl_head m @ [\<lparr>nd_addr = a, nd_last = a + SIZEOF_NODE + sz,
      nd_end = a + (pl_max m + SIZEOF_NODE)\<rparr>]\<rparr>) (H(a \<mapsto> pl_max m + SIZEOF_NODE)) (insert (a + SIZEOF_NODE, sz) U)"
    (is "mp_inv F ?m ?H ?U")
proof -
  have a: "H a = None" "a \<notin> set (own m)" using fr fresh_unowned [OF inv] by (simp_all add: fresh_block_def)
  have own: "own ?m = own m @ [a]" by (simp add: own_def)
  have "backed ?m ?H (a + SIZEOF_NODE) sz a" by (auto simp: backed_def)
  moreover have "backed m H q k b \<Longrightarrow> backed ?m ?H q k b" for q k b by (rule backed_upd [of H a, OF a(1)]) auto
  ultimately have "0 < k \<and> (\<exists>b. backed ?m ?H q k b)" if "(q, k) \<in> ?U" for q k
    using that sz(1) mp_invD(8,9) [OF inv, of q k] by blast
  moreover have "apart ?U"
    by (rule apart_insert [OF mp_invD(10) [OF inv] new_block_apart [OF inv fr]]) (use sz in auto)
  moreover have "heap_ok ?H" by (rule heap_ok_fresh [OF mp_invD(1) [OF inv] fr])
  moreover have "node_ok (pl_max m) ?H nd" if "nd \<in> set (pl_head ?m)" for nd
    using that ok_upd(1) [of H a, OF a(1)] mp_invD(6) [OF inv, of nd] sz(2) by (auto simp: node_ok_def)
  moreover have "large_ok ?H l" if "l \<in> set (pl_large m)" for l
    using that ok_upd(2) [of H a, OF a(1)] mp_invD(7) [OF inv] by blast
  ultimately show ?thesis using mp_invD(2-5) [OF inv] a by (intro mp_invI) (auto simp: own)
qed

lemma new_large_inv:
  assumes inv: "mp_inv F m H U" and fr: "fresh_block H a (sz + SIZEOF_SIZE_T)"
    and fr2: "fresh_block (H(a \<mapsto> sz + SIZEOF_SIZE_T)) c SIZEOF_LARGE" and sz: "0 < sz"
  shows "mp_inv F (m\<lparr>pl_large := \<lparr>lg_addr = c, lg_alloc = a + SIZEOF_SIZE_T\<rparr> # pl_large m\<rparr>)
      (H(a \<mapsto> sz + SIZEOF_SIZE_T, c \<mapsto> SIZEOF_LARGE)) (insert (a + SIZEOF_SIZE_T, sz) U)"
    (is "mp_inv F ?m ?H ?U")
proof -
  let ?H1 = "H(a \<mapsto> sz + SIZEOF_SIZE_T)"
  have a: "H a = None" "?H1 c = None" "c \<noteq> a" "H c = None"
    using fr fr2 by (auto simp: fresh_block_def split: if_splits)
  have own: "own ?m = [a, c] @ own m" by (simp add: own_def)
  have notin: "a \<notin> set (own m)" "c \<notin> set (own m)" using a fresh_unowned [OF inv] by blast+
  have "backed ?m ?H (a + SIZEOF_SIZE_T) sz a" using a(3) by (auto simp: backed_def)
  moreover have "backed m H q k b \<Longrightarrow> backed ?m ?H q k b" for q k b
    using backed_upd [of H a m _ _ _ m, OF a(1)] backed_upd [of ?H1 c m _ _ _ ?m, OF a(2)] by force
  ultimately have "0 < k \<and> (\<exists>b. backed ?m ?H q k b)" if "(q, k) \<in> ?U" for q k
    using that sz mp_invD(8,9) [OF inv, of q k] by blast
  moreover have "apart ?U"
    by (rule apart_insert [OF mp_invD(10) [OF inv] new_block_apart [OF inv fr]]) auto
  moreover have "heap_ok ?H" by (rule heap_ok_fresh [OF heap_ok_fresh [OF mp_invD(1) [OF inv] fr] fr2])
  moreover have "node_ok (pl_max m) ?H nd" if "nd \<in> set (pl_head m)" for nd
    using that ok_upd(1) [of ?H1 c, OF a(2)] ok_upd(1) [of H a, OF a(1)] mp_invD(6) [OF inv] by blast
  moreover have "large_ok ?H l" if "l \<in> set (pl_large m)" for l
    using that ok_upd(2) [of ?H1 c, OF a(2)] ok_upd(2) [of H a, OF a(1)] mp_invD(7) [OF inv] by blast
  moreover have "large_ok ?H \<lparr>lg_addr = c, lg_alloc = a + SIZEOF_SIZE_T\<rparr>"
    using a sz by (simp add: large_ok_def)
  ultimately show ?thesis using mp_invD(2-5) [OF inv] a notin by (intro mp_invI) (auto simp: own)
qed

text \<open>On a pool in use an allocation never faults; it hands out a new piece or nothing.\<close>

lemma alloc_inv:
  assumes inv: "mp_inv F m H U" and mal: "malloc_law mal" and sz: "sz < 2 ^ 64 - SIZEOF_SIZE_T"
  obtains (piece) p m' H' where "kvs_mempool_alloc mal m sz H = Some (Some p, m', H')" "mp_inv F m' H' (insert (p, sz) U)"
  | (refused) "kvs_mempool_alloc mal m sz H = Some (None, m, H)"
proof -
  consider "sz = 0" | "0 < sz" "sz \<le> pl_max m" | "0 < sz" "\<not> sz \<le> pl_max m" by linarith
  then show ?thesis
  proof cases
    case 1
    then show ?thesis using refused by (simp add: kvs_mempool_alloc_def)
  next
    case 2
    show ?thesis
    proof (cases "first_fit sz (pl_head m)")
      case (Some x)
      obtain p nds where x: "x = (p, nds)" by (cases x)
      then show ?thesis using 2 Some piece fit_inv [OF inv _ 2(1)] by (simp add: kvs_mempool_alloc_def)
    next
      case None
      show ?thesis
      proof (cases "c_malloc mal (pl_max m + SIZEOF_NODE) H")
        case (Some x)
        obtain a H1 where x: "x = (a, H1)" by (cases x)
        have "fresh_block H a (pl_max m + SIZEOF_NODE)" "H1 = H(a \<mapsto> pl_max m + SIZEOF_NODE)"
          using malloc_fresh [OF mal] Some x by blast+
        then show ?thesis using new_node_inv [OF inv _ 2] piece 2 None Some x
          by (simp add: kvs_mempool_alloc_def Let_def)
      qed (use 2 None refused in \<open>simp add: kvs_mempool_alloc_def Let_def\<close>)
    qed
  next
    case 3
    have m: "(sz + SIZEOF_SIZE_T) mod 2 ^ 64 = sz + SIZEOF_SIZE_T" using sz by simp
    show ?thesis
    proof (cases "c_malloc mal (sz + SIZEOF_SIZE_T) H")
      case (Some x)
      obtain a H1 where x: "x = (a, H1)" by (cases x)
      note f = malloc_fresh [OF mal Some [unfolded x]]
      show ?thesis
      proof (cases "c_malloc mal SIZEOF_LARGE H1")
        case None
        have "H1(a := None) = H" using f by (auto simp: fresh_block_def)
        then have "c_free a H1 = Some H" using f by (simp add: c_free_def)
        then show ?thesis using refused 3 m Some x None by (simp add: kvs_mempool_alloc_def Let_def)
      next
        case (Some y)
        obtain c H2 where y: "y = (c, H2)" by (cases y)
        note f2 = malloc_fresh [OF mal Some [unfolded y]]
        show ?thesis using new_large_inv [OF inv _ _ 3(1)] f f2 piece 3 m \<open>c_malloc mal (sz + SIZEOF_SIZE_T) H = Some x\<close> Some x y
          by (simp add: kvs_mempool_alloc_def Let_def)
      qed
    qed (use 3 m refused in \<open>simp add: kvs_mempool_alloc_def Let_def\<close>)
  qed
qed

lemma free_loop_miss: "p \<notin> lg_alloc ` set ls \<Longrightarrow> free_loop p ls H = Some (ls, H)"
  by (induction ls) auto

lemma free_loop_hit:
  assumes "p \<notin> lg_alloc ` set as" "lg_alloc l = p" "H (p - SIZEOF_SIZE_T) \<noteq> None" "H (lg_addr l) \<noteq> None"
    and "lg_addr l \<noteq> p - SIZEOF_SIZE_T"
  shows "free_loop p (as @ l # bs) H = Some (as @ bs, H(p - SIZEOF_SIZE_T := None, lg_addr l := None))"
  using assms by (induction as) (auto simp: c_free_def)

lemma mp_inv_subset: "mp_inv F m H U \<Longrightarrow> V \<subseteq> U \<Longrightarrow> mp_inv F m H V"
  by (rule mp_invI) (use mp_invD [of F m H U] apart_subset [of U V] in auto)

lemma drop_large_inv:
  assumes inv: "mp_inv F m H U" and pn: "(p, n) \<in> U" and ls: "pl_large m = as @ l # bs" "lg_alloc l = p"
  shows "mp_inv F (m\<lparr>pl_large := as @ bs\<rparr>) (H(p - SIZEOF_SIZE_T := None, lg_addr l := None)) (U - {(p, n)})"
    (is "mp_inv F ?m ?H _")
proof -
  have own: "set (own m) = insert (p - SIZEOF_SIZE_T) (insert (lg_addr l) (set (own ?m)))"
    "distinct (own ?m)" "p - SIZEOF_SIZE_T \<notin> set (own ?m)" "lg_addr l \<notin> set (own ?m)"
    using mp_invD(3) [OF inv] ls by (auto simp: own_def)
  have H: "?H a = H a" if "a \<in> set (own ?m)" for a using that own(3,4) by auto
  have "\<exists>b. backed ?m ?H q k b" if qk: "(q, k) \<in> U" "(q, k) \<noteq> (p, n)" for q k
  proof -
    obtain b where b: "backed m H q k b" using mp_invD(9) [OF inv qk(1)] by blast
    have "q \<noteq> p"
      using mp_invD(8,10) [OF inv] pn qk by (fastforce simp: apart_def)
    then have "(\<exists>nd \<in> set (pl_head ?m). b = nd_addr nd \<and> b + SIZEOF_NODE \<le> q \<and> q + k \<le> nd_last nd) \<or>
      (\<exists>l \<in> set (pl_large ?m). lg_alloc l = q \<and> b = q - SIZEOF_SIZE_T \<and> H b = Some (k + SIZEOF_SIZE_T))"
      using b ls by (auto simp: backed_def)
    moreover from this have "b \<in> set (own ?m)" unfolding set_own by blast
    ultimately show ?thesis unfolding backed_def by (intro exI [of _ b]) (simp only: H)
  qed
  moreover have "node_ok (pl_max m) ?H nd" if "nd \<in> set (pl_head m)" for nd
    using mp_invD(6) [OF inv that] H [of "nd_addr nd"] that by (simp add: node_ok_def set_own)
  moreover have "large_ok ?H x" if "x \<in> set (as @ bs)" for x
    using mp_invD(7) [OF inv, of x] H [of "lg_addr x"] H [of "lg_alloc x - SIZEOF_SIZE_T"] that
    unfolding large_ok_def set_own by (auto simp: ls)
  moreover have "heap_ok ?H" by (intro heap_ok_remove mp_invD(1) [OF inv])
  moreover have "?H a = F a" if "a \<notin> set (own ?m)" for a
    using that mp_invD(4,5) [OF inv, of a] own(1) by auto
  moreover have "apart (U - {(p, n)})" by (rule apart_subset [OF mp_invD(10) [OF inv]]) auto
  ultimately show ?thesis
    using mp_invD(2,4,8) [OF inv] own(1,2) by (intro mp_invI) auto
qed

lemma free_inv:
  assumes inv: "mp_inv F m H U" and pn: "(p, n) \<in> U"
  obtains m' H' where "kvs_mempool_free m p H = Some (m', H')" "mp_inv F m' H' (U - {(p, n)})"
proof (cases "p \<in> lg_alloc ` set (pl_large m)")
  case False
  then show ?thesis using that mp_inv_subset [OF inv, of "U - {(p, n)}"] free_loop_miss [OF False, of H]
    by (simp add: kvs_mempool_free_def)
next
  case True
  then obtain as l bs where ls: "pl_large m = as @ l # bs" "lg_alloc l = p" "p \<notin> lg_alloc ` set as"
    using split_list_first_propE [of "pl_large m" "\<lambda>l. lg_alloc l = p"] by (metis (mono_tags, lifting) image_iff)
  have "large_ok H l" using mp_invD(7) [OF inv] ls by simp
  moreover have "lg_addr l \<noteq> p - SIZEOF_SIZE_T" using mp_invD(3) [OF inv] ls by (auto simp: own_def)
  ultimately have "kvs_mempool_free m p H =
      Some (m\<lparr>pl_large := as @ bs\<rparr>, H(p - SIZEOF_SIZE_T := None, lg_addr l := None))"
    using free_loop_hit [OF ls(3,2), of H bs] ls(2) unfolding kvs_mempool_free_def ls(1) by (auto simp: large_ok_def)
  then show ?thesis using that drop_large_inv [OF inv pn ls(1,2)] by blast
qed

text \<open>\<open>kvs_mempool_destroy\<close> frees the blocks of the pool one after the other.\<close>

primrec free_all :: "nat list \<Rightarrow> mheap \<Rightarrow> mheap option" where
  "free_all [] H = Some H"
| "free_all (a # as) H = Option.bind (c_free a H) (free_all as)"

lemma free_all_append: "free_all (as @ bs) H = Option.bind (free_all as H) (free_all bs)"
  by (induction as arbitrary: H) (auto split: Option.bind_splits)

lemma free_all_larges:
  "free_larges ls H = free_all (concat (map (\<lambda>l. [lg_alloc l - SIZEOF_SIZE_T, lg_addr l]) ls)) H"
  by (induction ls arbitrary: H) (auto split: Option.bind_splits)

lemma free_all_nodes: "free_nodes nds H = free_all (map nd_addr nds) H"
  by (induction nds arbitrary: H) (auto split: Option.bind_splits)

lemma free_all_removes:
  "distinct as \<Longrightarrow> set as \<subseteq> dom H \<Longrightarrow> free_all as H = Some (H |` (- set as))"
proof (induction as arbitrary: H)
  case (Cons a as)
  have "free_all as (H(a := None)) = Some (H(a := None) |` (- set as))"
    using Cons.prems by (intro Cons.IH) auto
  moreover have "c_free a H = Some (H(a := None))" using Cons.prems by (auto simp: c_free_def)
  moreover have "H(a := None) |` (- set as) = H |` (- set (a # as))" by (auto simp: restrict_map_def)
  ultimately show ?case by simp
qed (simp add: restrict_map_def)

lemma own_live: "mp_inv F m H U \<Longrightarrow> set (own m) \<subseteq> dom H"
  using mp_invD(6,7) unfolding set_own node_ok_def large_ok_def by blast

lemma destroy_restores:
  assumes inv: "mp_inv F m H U"
  shows "\<exists>m'. kvs_mempool_destroy m H = Some (m', F)"
proof -
  have "free_all (own m) H = Some (H |` (- set (own m)))"
    by (rule free_all_removes [OF mp_invD(3) [OF inv] own_live [OF inv]])
  moreover have "H |` (- set (own m)) = F"
    using mp_invD(4,5) [OF inv] by (auto simp: restrict_map_def)
  ultimately show ?thesis unfolding kvs_mempool_destroy_def own_def free_all_append free_all_larges free_all_nodes
    by (auto split: Option.bind_splits)
qed

lemma run_inv: "mp_run F m H U \<Longrightarrow> mp_inv F m H U"
proof (induction rule: mp_run.induct)
  case (create mal block_size m0 m H)
  then show ?case using create_inv by blast
next
  case (alloc m H U mal sz p m' H')
  show ?case by (rule alloc_inv [OF alloc.IH alloc(2,3)]) (use alloc(4) in auto)
next
  case (alloc_fail m H U mal sz m' H')
  show ?case by (rule alloc_inv [OF alloc_fail.IH alloc_fail(2,3)]) (use alloc_fail in auto)
next
  case (free m H U p n m' H')
  show ?case by (rule free_inv [OF free.IH free(2)]) (use free(3) in auto)
qed

subsection \<open>Properties\<close>



text \<open>An allocator for the examples: it gives one address, when that is free.\<close>

definition bump_malloc :: "nat \<Rightarrow> malloc_fn" where
  "bump_malloc a n H = (if fresh_block H a n then Some a else None)"

lemma bump_law: "malloc_law (bump_malloc a)"
  by (simp add: malloc_law_def bump_malloc_def)

lemma bump_sample:
  defines "m0 \<equiv> \<lparr>pl_max = 0, pl_head = [], pl_large = []\<rparr>"
  shows "\<exists>m H. mp_run Map.empty m H {(1056, 8), (1024, 32)}"
proof -
  let ?m1 = "\<lparr>pl_max = 100, pl_head = [\<lparr>nd_addr = 1000, nd_last = 1024, nd_end = 1124\<rparr>], pl_large = []\<rparr>"
  let ?H = "[1000 \<mapsto> 124]"
  have "kvs_mempool_create (bump_malloc 1000) m0 124 Map.empty = (0, ?m1, ?H)"
    by (simp add: kvs_mempool_create_def c_malloc_def bump_malloc_def fresh_block_def sizeofs)
  then have 1: "mp_run Map.empty ?m1 ?H {}"
    by (intro mp_run.create [OF _ bump_law]) (simp_all add: heap_ok_def)
  have "kvs_mempool_alloc (bump_malloc 0) ?m1 32 ?H = Some (Some 1024, ?m1\<lparr>pl_head := [\<lparr>nd_addr = 1000, nd_last = 1056, nd_end = 1124\<rparr>]\<rparr>, ?H)"
    by (simp add: kvs_mempool_alloc_def)
  from mp_run.alloc [OF 1 bump_law _ this]
  have 2: "mp_run Map.empty (?m1\<lparr>pl_head := [\<lparr>nd_addr = 1000, nd_last = 1056, nd_end = 1124\<rparr>]\<rparr>) ?H {(1024, 32)}"
    by (simp add: sizeofs)
  have "kvs_mempool_alloc (bump_malloc 0) (?m1\<lparr>pl_head := [\<lparr>nd_addr = 1000, nd_last = 1056, nd_end = 1124\<rparr>]\<rparr>) 8 ?H =
      Some (Some 1056, ?m1\<lparr>pl_head := [\<lparr>nd_addr = 1000, nd_last = 1064, nd_end = 1124\<rparr>]\<rparr>, ?H)"
    by (simp add: kvs_mempool_alloc_def)
  from mp_run.alloc [OF 2 bump_law _ this] show ?thesis by (auto simp: sizeofs)
qed



end
