(* ===== verification/Spec2Isabelle.thy ===== *)
theory Spec2Isabelle
  imports KVS_Fullcopy KVS_Stream KVS_Mempool
begin

text \<open>
  KVStore: a verification development for the in-memory key-value server under \<open>src/\<close>.

  \<^bold>\<open>The program.\<close> One process keeps four key-value engines side by side (array, red-black tree, hash
  table, skip list) and a store of vectors with a graph index. Clients send requests in the RESP
  format over TCP. The event loop (\<open>reactor.c\<close>) collects bytes, cuts them into requests
  (\<open>kvstore.c\<close>), runs each through the command table (\<open>kvs_command.c\<close>), which calls one engine, and
  queues the reply. A write that succeeded is put into a ring from which a worker thread fills an
  append-only file through io_uring; a snapshot of all engines can be written to a file or to memory
  (\<open>kvs_persistence.c\<close>). A replica asks for a full synchronisation: the master sends a snapshot in
  chunks through RDMA writes (\<open>kvs_repli_master.c\<close>, \<open>kvs_repli_slave.c\<close>, \<open>rdma.h\<close>).

  \<^bold>\<open>How the code is represented.\<close> A C function is a HOL function that takes the state it reads and
  returns the state it leaves. A C string is a list of characters, a pointer that may be null an
  \<open>option\<close>; \<open>vptr\<close> distinguishes a freed pointer. An \<open>int\<close> is an \<open>int\<close> with \<open>int_wrap\<close> where it can
  overflow; hashes, checksums and immediate data are machine words. The outcome of every
  allocation is an argument of type \<open>mallocs\<close> (the \<open>n\<close>-th allocation of the call succeeds), and so is
  what the kernel, the clock, the device and the file system answer. A result \<open>None\<close> or \<open>Inl f\<close> is
  undefined behaviour, a call that does not return, or waiting for another thread; \<open>fault\<close> says
  which. Loops are structural recursion or \<open>function\<close> with a measure; the loops over
  linked structures are \<open>partial_function (option)\<close> and are proved to end on well-formed states. No
  fuel is used. Threads are interleaved as steps of inductive relations; one step is what the code
  does under one lock, or one call of a handler. The floating-point operations of the vector engine
  are a record \<open>'f fops\<close>, as the sources take them from the C library.

  \<^bold>\<open>Theories, in the order of their imports.\<close>

  \<^item> \<open>KVS_Prelude\<close>: C strings and \<open>strcmp\<close>, C integers, value pointers, expiry times.
  \<^item> \<open>KVS_Engine\<close>: the abstract expiring store and what an engine promises. Locale \<open>kv_store\<close> has the
    laws of the single operations, \<open>kv_engine\<close> turns them into refinement of whole call sequences,
    \<open>kv_scanned\<close> adds the expiry scan. Every engine interprets them on its own operations.
  \<^item> \<open>KVS_Array\<close>, \<open>KVS_Hash\<close>, \<open>KVS_Skiplist\<close>: \<open>kvs_array.c\<close>, \<open>kvs_hash.c\<close>, \<open>kvs_skiplist.c\<close>. Skip list
    nodes live in a heap with their forward arrays; the invariant links every level to level 0.
  \<^item> \<open>KVS_RBTree\<close>: the code of \<open>kvs_rbtree.c\<close> on a heap of nodes with the shared sentinel.
    \<open>KVS_RBShape\<close> relates the heap to trees and focused trees and shows what the rotations do,
    \<open>KVS_RBFix\<close> and \<open>KVS_RBDel\<close> treat the two repair loops, \<open>KVS_RBStore\<close> search, insertion and
    deletion in key order, \<open>KVS_RBEngine\<close> the engine operations and their contract.
  \<^item> \<open>KVS_Resp\<close>: the request parser of \<open>kvstore.c\<close>; round trip with the encoding of clients, and the
    verdict on every part of a request.
  \<^item> \<open>KVS_Vector\<close>: \<open>kvs_vector.c\<close>, entries, the red-black tree of names, the layered graph, insertion
    and search. It is a model only: its commands are outside the properties of the server.
  \<^item> \<open>KVS_Aof\<close>: ring, worker threads and io_uring requests of the append-only file. Locale \<open>batch_queue\<close>
    is what the worker relies on in the ring.
  \<^item> \<open>KVS_Server\<close>: the globals of the process as one record, replicas, creation, reset and
    destruction of the engines.
  \<^item> \<open>KVS_Command\<close>: the command table, one definition per command, the replies with the sizes of their
    buffers, logging, \<open>kvs_execute_command\<close> and \<open>kvs_protocol\<close>.
  \<^item> \<open>KVS_Service\<close>: the engines behind the commands. Locale \<open>engine_commands\<close> is the common form of the
    seven commands of an engine; four interpretations, one per engine.
  \<^item> \<open>KVS_Equiv\<close>: the four engines against one reference interpreter.
  \<^item> \<open>KVS_Rdb\<close>: snapshots, saving and loading. \<open>KVS_Recover\<close>: loading the append-only file, and the server
    together with its log (locale \<open>lasting_engine\<close>).
  \<^item> \<open>KVS_Reactor\<close>: \<open>reactor.c\<close>, the connection table, buffers, callbacks and dispatch.
  \<^item> \<open>KVS_Rdma\<close>: \<open>rdma.h\<close>. \<open>KVS_Fullsync\<close>: both sides of the full synchronisation with the device between
    them, and their invariant. \<open>KVS_Fullcopy\<close>: what a finished synchronisation achieves.
  \<^item> \<open>KVS_Stream\<close>: the replica afterwards, the socket helpers and the thread that executes forwarded requests.
  \<^item> \<open>KVS_Mempool\<close>: \<open>kvs_mempool.c\<close>, on a heap that knows which blocks are allocated.

  \<^bold>\<open>What is shown.\<close>

  \<^item> Engines: every sequence of calls gives results that the abstract store allows; operations end
    and touch no freed memory; the red-black tree stays balanced; destruction leaks nothing.
  \<^item> Protocol: requests are framed and split exactly; a part of a request is called incomplete, or
    malformed when it ends between two arguments.
  \<^item> Commands: replies stay inside their buffers (PING excepted), a request is logged exactly
    when it succeeded, a value that was set is read back, replicas refuse writes of clients.
  \<^item> Event loop: however the stream of a client is cut, its requests are executed in order and the
    bytes sent are their replies.
  \<^item> Persistence: the worker loses and duplicates nothing in any order of completions; loading the
    log gives the stores of the server that wrote it; a snapshot loads to what was saved.
  \<^item> Full synchronisation: a replica shows nothing of an unfinished transfer, and when the master takes
    it for synchronised it has the keys, values and expiry times of the snapshot.
  \<^item> Replication stream: however the stream is cut, unless between two arguments, the replica executes
    every forwarded request once and in order and ends with the stores of the master.
  \<^item> Memory pool: pieces do not overlap, nothing is leaked.
  \<^item> Defects: the theorems of kind error show what the code does where it does not do what it
    means to, among them the expiry time that moves to another key on deletion, the expiry scan that
    uses a freed node, hash indices below zero and the batch that is dropped.

  \<^bold>\<open>Bounds.\<close> Keys of the hash engine are assumed to hash inside the table (\<open>hash_key_ok\<close>), which all
  ASCII keys do; requests are shorter than \<open>2 ^ 31\<close> bytes; properties that need memory say so by
  \<open>all_ok\<close>. In the full synchronisation the device executes the work of a queue pair in order and
  reports completions in any order; the addresses of the two buffers are arbitrary.

  \<^bold>\<open>Not modelled.\<close>

  \<^item> \<open>main\<close>, the configuration file, signal set-up, socket creation and the creation and joining of
    threads: calls into the C library with nothing in between that changes the state of the server.
  \<^item> The other two network layers, \<open>proactor.c\<close> and \<open>ntyco.c\<close>, which \<open>kvstore.h\<close> switches off, and the
    coroutine library \<open>NtyCo\<close>.
  \<^item> \<open>libbpf-bootstrap\<close> (third-party), \<open>test\<close>, \<open>kvs-client\<close> and \<open>mem_leak\<close> (clients, load generators and a
    tracing tool that are not part of the server).
\<close>

end
